(* ===== verification/Prelude.thy ===== *)
theory Prelude
  imports Main "HOL-Library.Word" "HOL-Library.Multiset"
begin

text \<open>
  Shared vocabulary of the development: how the Go constructs that every package of miyako uses
  are read in HOL, the transition systems that interleave critical sections of goroutines, and
  the generic lemmas (counting goroutines, maps, lists) that the component theories share.

  \<^item> A Go \<open>error\<close> is an \<open>'e option\<close>: \<open>None\<close> is \<open>nil\<close>. A call that returns or panics is an
    \<open>outcome\<close>. A zero value of a type parameter is \<open>0\<close> of the class \<open>zero\<close>.
  \<^item> \<open>time.Time\<close> is an \<open>int\<close> of nanoseconds; \<open>Sub\<close> saturates at the ends of \<open>int64\<close>.
  \<^item> A section between \<open>mu.Lock()\<close> and \<open>mu.Unlock()\<close> is one atomic step of a transition system;
    goroutines are numbered and a state carries the place each of them is at.
\<close>

named_theorems sys_defs \<open>definitions of the atomic operations of a component\<close>
named_theorems inv_defs \<open>definitions of component invariants\<close>

section \<open>Values of the language\<close>

text \<open>The result of calling a function value: it returns, or it panics.\<close>

datatype 'a outcome = Returned 'a | Panicked

text \<open>\<open>context.Background()\<close>, or a context that the caller made.\<close>

datatype 'c go_ctx = Background | Given 'c

text \<open>
  \<open>time.Time.Sub\<close>: the difference of two instants as a \<open>time.Duration\<close>, which saturates at the
  least and the greatest 64-bit integer.
\<close>

definition min_dur :: int where
  "min_dur = - (2 ^ 63)"

definition max_dur :: int where
  "max_dur = 2 ^ 63 - 1"

definition time_sub :: "int \<Rightarrow> int \<Rightarrow> int" where
  "time_sub t u = max min_dur (min max_dur (t - u))"

lemma time_sub_less_iff:
  assumes "min_dur \<le> d" and "d < max_dur"
  shows "d < time_sub t u \<longleftrightarrow> d < t - u"
  using assms by (auto simp: time_sub_def min_dur_def max_dur_def)

lemma time_sub_ge_iff:
  assumes "min_dur < d" and "d \<le> max_dur"
  shows "d \<le> time_sub t u \<longleftrightarrow> d \<le> t - u"
  using assms by (auto simp: time_sub_def min_dur_def max_dur_def)

section \<open>Transition systems\<close>

text \<open>The reachable states of a system given by its initial states and its steps.\<close>

inductive reach :: "('s \<Rightarrow> bool) \<Rightarrow> ('s \<Rightarrow> 's \<Rightarrow> bool) \<Rightarrow> 's \<Rightarrow> bool"
  for init :: "'s \<Rightarrow> bool" and step :: "'s \<Rightarrow> 's \<Rightarrow> bool" where
  reach_init: "init s \<Longrightarrow> reach init step s"
| reach_step: "reach init step s \<Longrightarrow> step s t \<Longrightarrow> reach init step t"

lemma reach_start: "reach ((=) s) step s"
  by (rule reach_init) (rule refl)

lemma reach_one: "step s t \<Longrightarrow> reach ((=) s) step t"
  by (rule reach_step [OF reach_start])

lemma reach_steps:
  assumes "step\<^sup>*\<^sup>* s t" and "reach init step s"
  shows "reach init step t"
  using assms by (induction rule: rtranclp_induct) (auto intro: reach_step)

text \<open>
  A system given by an executable function from a label and a state to the next state (\<open>None\<close>: the
  step is not enabled), its step relation, and its runs over a list of labels.
\<close>

definition labelled :: "('l \<Rightarrow> 's \<Rightarrow> 's option) \<Rightarrow> 's \<Rightarrow> 's \<Rightarrow> bool" where
  "labelled f s t \<longleftrightarrow> (\<exists>l. f l s = Some t)"

fun run :: "('l \<Rightarrow> 's \<Rightarrow> 's option) \<Rightarrow> 'l list \<Rightarrow> 's \<Rightarrow> 's option" where
  "run f [] s = Some s"
| "run f (l # ls) s = (case f l s of None \<Rightarrow> None | Some t \<Rightarrow> run f ls t)"

lemma run_append: "run f (xs @ ys) s = (case run f xs s of None \<Rightarrow> None | Some t \<Rightarrow> run f ys t)"
  by (induction xs arbitrary: s) (auto split: option.splits)

lemma reach_run:
  assumes "run f ls s = Some t" and "reach init (labelled f) s"
  shows "reach init (labelled f) t"
  using assms
proof (induction ls arbitrary: s)
  case (Cons l ls)
  then obtain u where u: "f l s = Some u" "run f ls u = Some t"
    by (auto split: option.splits)
  then have "labelled f s u"
    by (auto simp: labelled_def)
  then have "reach init (labelled f) u"
    by (rule reach_step [OF Cons.prems(2)])
  then show ?case
    by (rule Cons.IH [OF u(2)])
qed simp

lemma run_steps: "run f ls s = Some t \<Longrightarrow> (labelled f)\<^sup>*\<^sup>* s t"
proof (induction ls arbitrary: s)
  case (Cons l ls)
  then obtain u where u: "f l s = Some u" "run f ls u = Some t" by (auto split: option.splits)
  then have "labelled f s u" by (auto simp: labelled_def)
  with Cons.IH [OF u(2)] show ?case by (rule converse_rtranclp_into_rtranclp [rotated])
qed simp

text \<open>
  The contract every interleaved component discharges: an invariant that holds initially and
  that each atomic step keeps. Clients get it for every reachable state.
\<close>

locale inductive_invariant =
  fixes init :: "'s \<Rightarrow> bool"
    and step :: "'s \<Rightarrow> 's \<Rightarrow> bool"
    and inv :: "'s \<Rightarrow> bool"
  assumes inv_at_init: "init s \<Longrightarrow> inv s"
    and inv_at_step: "inv s \<Longrightarrow> step s t \<Longrightarrow> inv t"
begin

lemma inv_reachable: "reach init step s \<Longrightarrow> inv s"
  by (induction rule: reach.induct) (auto intro: inv_at_init inv_at_step)

lemma inv_steps: "step\<^sup>*\<^sup>* s t \<Longrightarrow> inv s \<Longrightarrow> inv t"
  by (induction rule: rtranclp_induct) (auto intro: inv_at_step)

end

text \<open>
  The contract of an implementation: a map to the states of a specification under which every step,
  from a state with the invariant, is a step of the specification or leaves its state alone.
\<close>

locale refinement = inductive_invariant init step inv
  for init :: "'s \<Rightarrow> bool" and step :: "'s \<Rightarrow> 's \<Rightarrow> bool" and inv :: "'s \<Rightarrow> bool" +
  fixes abs :: "'s \<Rightarrow> 'a"
    and ainit :: "'a \<Rightarrow> bool"
    and astep :: "'a \<Rightarrow> 'a \<Rightarrow> bool"
  assumes abs_init: "init s \<Longrightarrow> ainit (abs s)"
    and abs_step: "inv s \<Longrightarrow> step s t \<Longrightarrow> astep (abs s) (abs t) \<or> abs t = abs s"
begin

lemma abs_steps: "step\<^sup>*\<^sup>* s t \<Longrightarrow> inv s \<Longrightarrow> astep\<^sup>*\<^sup>* (abs s) (abs t)"
proof (induction rule: rtranclp_induct)
  case (step y z)
  from inv_steps [OF step.hyps(1) step.prems] step.hyps(2) have "astep (abs y) (abs z) \<or> abs z = abs y"
    by (rule abs_step)
  with step.IH [OF step.prems] show ?case by auto
qed simp

lemma abs_reachable: "reach init step s \<Longrightarrow> reach ainit astep (abs s)"
proof (induction rule: reach.induct)
  case (reach_init s)
  then show ?case by (intro reach.reach_init abs_init)
next
  case (reach_step s t)
  from inv_reachable [OF reach_step.hyps(1)] reach_step.hyps(2) have "astep (abs s) (abs t) \<or> abs t = abs s"
    by (rule abs_step)
  with reach_step.IH show ?case by (auto intro: reach.reach_step)
qed

end

text \<open>
  An implementation of a specification that has an invariant of its own: what is proved of the specification
  holds of the implementation, through the map.
\<close>

locale checked_refinement = refinement init step inv abs ainit astep + spec: inductive_invariant ainit astep ainv
  for init :: "'s \<Rightarrow> bool" and step :: "'s \<Rightarrow> 's \<Rightarrow> bool" and inv :: "'s \<Rightarrow> bool"
    and abs :: "'s \<Rightarrow> 'a" and ainit :: "'a \<Rightarrow> bool" and astep :: "'a \<Rightarrow> 'a \<Rightarrow> bool" and ainv :: "'a \<Rightarrow> bool"
begin

lemma both_init: "init s \<Longrightarrow> inv s \<and> ainv (abs s)"
  by (simp add: inv_at_init spec.inv_at_init abs_init)

lemma both_step: "inv s \<and> ainv (abs s) \<Longrightarrow> step s t \<Longrightarrow> inv t \<and> ainv (abs t)"
  using abs_step [of s t] inv_at_step [of s t] spec.inv_at_step [of "abs s" "abs t"] by auto

end

sublocale checked_refinement \<subseteq> both: inductive_invariant init step "\<lambda>s. inv s \<and> ainv (abs s)"
  by unfold_locales (rule both_init, assumption, rule both_step)

context checked_refinement
begin

lemma implements:
  assumes "reach init step s" and "step\<^sup>*\<^sup>* s t"
  shows "astep\<^sup>*\<^sup>* (abs s) (abs t) \<and> ainv (abs t)"
  using both.inv_reachable [OF assms(1)] both.inv_steps [OF assms(2)] abs_steps [OF assms(2)] by blast

end

section \<open>Counting goroutines\<close>

text \<open>
  The number of goroutines whose place satisfies a predicate. \<open>tracked d f\<close> says that all but
  finitely many goroutines are at the resting place \<open>d\<close>.
\<close>

definition cnt :: "('p \<Rightarrow> bool) \<Rightarrow> (nat \<Rightarrow> 'p) \<Rightarrow> int" where
  "cnt P f = int (card {g. P (f g)})"

definition tracked :: "'p \<Rightarrow> (nat \<Rightarrow> 'p) \<Rightarrow> bool" where
  "tracked d f \<longleftrightarrow> finite {g. f g \<noteq> d}"

lemma tracked_const [simp]: "tracked d (\<lambda>_. d)"
  by (simp add: tracked_def)

lemma tracked_upd [simp]: "tracked d (f(g := v)) \<longleftrightarrow> tracked d f"
proof -
  have sub: "{h. (f(g := v)) h \<noteq> d} \<subseteq> insert g {h. f h \<noteq> d}" for f and v :: 'a
    by auto
  have "f = (f(g := v))(g := f g)"
    by simp
  with sub show ?thesis
    unfolding tracked_def by (metis finite_insert finite_subset)
qed

lemma tracked_finite: "tracked d f \<Longrightarrow> \<not> P d \<Longrightarrow> finite {g. P (f g)}"
  unfolding tracked_def by (erule rev_finite_subset) auto

lemma cnt_const [simp]: "\<not> P d \<Longrightarrow> cnt P (\<lambda>_. d) = 0"
  by (simp add: cnt_def)

lemma cnt_nonneg [simp]: "0 \<le> cnt P f"
  by (simp add: cnt_def)

lemma cnt_upd:
  assumes "tracked d f" and "\<not> P d"
  shows "cnt P (f(g := v)) = cnt P f - of_bool (P (f g)) + of_bool (P v)"
proof -
  let ?A = "{h. P (f h)} - {g}"
  have "finite {h. P (f h)}"
    using assms by (rule tracked_finite)
  then have fin: "finite ?A"
    by simp
  have upd: "{h. P ((f(g := v)) h)} = (if P v then insert g ?A else ?A)"
    by auto
  have old: "{h. P (f h)} = (if P (f g) then insert g ?A else ?A)"
    by auto
  have "int (card {h. P (f h)}) = int (card ?A) + of_bool (P (f g))"
    using fin by (subst old) (simp only: card_insert_if split: if_split, simp)
  moreover have "int (card {h. P ((f(g := v)) h)}) = int (card ?A) + of_bool (P v)"
    using fin by (subst upd) (simp only: card_insert_if split: if_split, simp)
  ultimately show ?thesis
    by (simp add: cnt_def)
qed

lemma cnt_pos:
  assumes "tracked d f" and "\<not> P d" and "P (f g)"
  shows "0 < cnt P f"
  using tracked_finite [where P = P, OF assms(1,2)] assms(3)
  by (auto simp: cnt_def card_gt_0_iff)

lemma cnt_zero_iff:
  assumes "tracked d f" and "\<not> P d"
  shows "cnt P f = 0 \<longleftrightarrow> (\<forall>g. \<not> P (f g))"
  using tracked_finite [where P = P, OF assms] by (auto simp: cnt_def)

lemma cnt_le_one_unique:
  assumes "tracked d f" and "\<not> P d" and "cnt P f \<le> 1" and "P (f g)" and "P (f h)"
  shows "g = h"
proof -
  have "card {g. P (f g)} \<le> 1"
    using assms(3) by (simp add: cnt_def)
  with tracked_finite [where P = P, OF assms(1,2)] assms(4,5) show ?thesis
    by (metis card_le_Suc0_iff_eq mem_Collect_eq One_nat_def)
qed

section \<open>Lists and maps\<close>

lemma distinct_remove1_iff: "distinct xs \<Longrightarrow> y \<in> set (remove1 x xs) \<longleftrightarrow> y \<in> set xs \<and> y \<noteq> x"
  by auto

lemma remove1_not_head: "x \<noteq> a \<Longrightarrow> remove1 x (a # xs) = a # remove1 x xs"
  by simp

lemma list_all_update: "list_all P xs \<Longrightarrow> P v \<Longrightarrow> list_all P (xs[i := v])"
  by (induction xs arbitrary: i) (auto split: nat.splits)

lemma list_all_at: "list_all P xs \<Longrightarrow> i < length xs \<Longrightarrow> P (xs ! i)"
  by (simp add: list_all_length)

end
