(* ===== verification/SlotGate.thy ===== *)
theory SlotGate
  imports Prelude
begin

text \<open>
  What \<open>sync/semaphore\<close> and \<open>sync/limiter\<close> have in common: a counter of taken slots, a queue of
  waiter channels, goroutines that take a slot, wait on a channel of their own, give up when
  their context is done, or give a slot back. The places of a goroutine and the slot accounting
  are stated once here, over the abstract view (slots taken, queue, closed channels, next fresh
  channel, places, slots lost); the two component theories instantiate them with their own
  records. The locale \<open>slot_gate\<close> is the contract of the loop that hands free slots to the queue.
\<close>

section \<open>Places of a goroutine around a gate\<close>

text \<open>
  \<open>Idle\<close>: outside the gate. \<open>Checked\<close>: inside \<open>Acquire\<close>, before its locked section.
  \<open>Blocked c\<close>: in the \<open>select\<close> over its context and the channel \<open>c\<close>.
  \<open>Cancelling c\<close>: the \<open>select\<close> took \<open>ctx.Done()\<close>, the lock is not yet retaken. \<open>Holding\<close>:
  \<open>Acquire\<close> returned \<open>nil\<close>.
\<close>

datatype place = Idle | Checked | Blocked nat | Cancelling nat | Holding

fun chan_of :: "place \<Rightarrow> nat option" where
  "chan_of (Blocked c) = Some c"
| "chan_of (Cancelling c) = Some c"
| "chan_of _ = None"

definition granted :: "nat set \<Rightarrow> place \<Rightarrow> bool" where
  "granted C p \<longleftrightarrow> (case chan_of p of Some c \<Rightarrow> c \<in> C | None \<Rightarrow> False)"

lemma granted_simps [simp]:
  "\<not> granted C Idle" "\<not> granted C Checked" "\<not> granted C Holding"
  "granted C (Blocked c) \<longleftrightarrow> c \<in> C" "granted C (Cancelling c) \<longleftrightarrow> c \<in> C"
  by (auto simp: granted_def)

section \<open>The contract of the hand-over loop\<close>

text \<open>
  \<open>grant\<close> hands the free slots to the queue: it returns the new state and the channels it closed.
\<close>

locale slot_gate =
  fixes cap :: "'s \<Rightarrow> int"
    and act :: "'s \<Rightarrow> int"
    and queue :: "'s \<Rightarrow> nat list"
    and grant :: "'s \<Rightarrow> 's \<times> nat list"
  assumes grant_queue: "grant s = (t, cs) \<Longrightarrow> queue s = cs @ queue t"
    and grant_act: "grant s = (t, cs) \<Longrightarrow> act t = act s + int (length cs)"
    and grant_cap: "grant s = (t, cs) \<Longrightarrow> cap t = cap s"
    and grant_stops: "grant s = (t, cs) \<Longrightarrow> queue t = [] \<or> cap t \<le> act t"
    and grant_fits: "grant s = (t, cs) \<Longrightarrow> cs \<noteq> [] \<Longrightarrow> act t \<le> cap t"
begin

lemmas grant_laws = grant_queue grant_act grant_cap

lemma grant_full: "grant s = (t, cs) \<Longrightarrow> cap s \<le> act s \<Longrightarrow> cs = []"
  using grant_act [of s t cs] grant_cap [of s t cs] grant_fits [of s t cs] by (cases cs) auto

lemma grant_amount:
  assumes "grant s = (t, cs)"
  shows "length cs = min (length (queue s)) (nat (cap s - act s))"
proof (cases "cs = []")
  case True
  with assms have "queue s = [] \<or> cap s \<le> act s"
    using grant_laws [OF assms] grant_stops [OF assms] by simp
  with True show ?thesis by auto
next
  case False
  with assms have "act s + int (length cs) \<le> cap s"
    using grant_act [OF assms] grant_cap [OF assms] grant_fits [OF assms] by simp
  moreover have "length cs \<le> length (queue s)"
    using grant_queue [OF assms] by simp
  moreover have "length cs = length (queue s) \<or> cap s \<le> act s + int (length cs)"
    using grant_stops [OF assms] grant_queue [OF assms] grant_act [OF assms]
      grant_cap [OF assms] by auto
  ultimately show ?thesis by linarith
qed

lemma grant_fifo:
  assumes "grant s = (t, cs)"
  shows "cs = take (nat (cap s - act s)) (queue s) \<and> queue t = drop (nat (cap s - act s)) (queue s)"
proof -
  have q: "queue s = cs @ queue t" and n: "length cs = min (length (queue s)) (nat (cap s - act s))"
    using grant_queue [OF assms] grant_amount [OF assms] by auto
  show ?thesis
  proof (cases "nat (cap s - act s) \<le> length (queue s)")
    case True
    with n have "nat (cap s - act s) = length cs" by simp
    with q show ?thesis by simp
  next
    case False
    with n q have "queue t = []" by simp
    with False q show ?thesis by simp
  qed
qed

end

section \<open>Slot accounting\<close>

text \<open>
  The taken slots are exactly those of the goroutines that hold one, those of the goroutines
  whose channel is closed but who did not return yet, and those that were lost; every queued
  channel is open and belongs to one goroutine in its \<open>select\<close> (or about to leave the queue).
\<close>

definition chans_ok :: "nat list \<Rightarrow> nat set \<Rightarrow> nat \<Rightarrow> (nat \<Rightarrow> place) \<Rightarrow> bool" where
  "chans_ok q C n pl \<longleftrightarrow>
     distinct q \<and> set q \<inter> C = {} \<and> (\<forall>c \<in> set q. c < n) \<and> (\<forall>c \<in> C. c < n) \<and>
     (\<forall>g h c. chan_of (pl g) = Some c \<longrightarrow> chan_of (pl h) = Some c \<longrightarrow> g = h) \<and>
     (\<forall>g c. chan_of (pl g) = Some c \<longrightarrow> c \<in> C \<or> c \<in> set q) \<and>
     (\<forall>c \<in> set q. \<exists>g. chan_of (pl g) = Some c)"

definition acct :: "int \<Rightarrow> nat list \<Rightarrow> nat set \<Rightarrow> nat \<Rightarrow> (nat \<Rightarrow> place) \<Rightarrow> int \<Rightarrow> bool" where
  "acct a q C n pl k \<longleftrightarrow>
     tracked Idle pl \<and> chans_ok q C n pl \<and> 0 \<le> k \<and>
     a = cnt (\<lambda>p. p = Holding) pl + cnt (granted C) pl + k"

lemma chans_ok_frame:
  assumes "\<And>h. chan_of (pl' h) = chan_of (pl h)"
  shows "chans_ok q C n pl' \<longleftrightarrow> chans_ok q C n pl"
  by (simp add: chans_ok_def assms)

lemma acct_init: "acct 0 [] {} 0 (\<lambda>_. Idle) 0"
  by (simp add: acct_def chans_ok_def)

text \<open>A goroutine that is inside no \<open>select\<close> and holds no slot can move freely or take one.\<close>

lemma acct_fast:
  assumes "acct a q C n pl k" and "chan_of (pl g) = None" and "pl g \<noteq> Holding"
  shows "acct (a + 1) q C n (pl(g := Holding)) k"
proof -
  have "chans_ok q C n (pl(g := Holding)) \<longleftrightarrow> chans_ok q C n pl"
    using assms(2) by (intro chans_ok_frame) simp
  then show ?thesis
    using assms by (simp add: acct_def cnt_upd [where d = Idle] granted_def)
qed

lemma acct_move:
  assumes "acct a q C n pl k" and "chan_of (pl g) = None" and "pl g \<noteq> Holding"
    and "chan_of p = None" and "p \<noteq> Holding"
  shows "acct a q C n (pl(g := p)) k"
proof -
  have "chans_ok q C n (pl(g := p)) \<longleftrightarrow> chans_ok q C n pl"
    using assms(2,4) by (intro chans_ok_frame) simp
  then show ?thesis
    using assms by (simp add: acct_def cnt_upd [where d = Idle] granted_def)
qed

lemma acct_block:
  assumes "acct a q C n pl k" and "chan_of (pl g) = None" and "pl g \<noteq> Holding"
  shows "acct a (q @ [n]) C (Suc n) (pl(g := Blocked n)) k"
proof -
  have ok: "chans_ok q C n pl"
    using assms by (simp add: acct_def)
  then have chan_unused: "chan_of (pl h) \<noteq> Some n" for h
    unfolding chans_ok_def by blast
  have view: "chan_of ((pl(g := Blocked n)) h) = (if h = g then Some n else chan_of (pl h))" for h
    by simp
  have inj: "chan_of (pl h) = Some c \<Longrightarrow> chan_of (pl h') = Some c \<Longrightarrow> h = h'" for h h' c
    using ok unfolding chans_ok_def by blast
  have owner: "\<forall>c \<in> set (q @ [n]). \<exists>h. (if h = g then Some n else chan_of (pl h)) = Some c"
  proof
    fix c
    assume c: "c \<in> set (q @ [n])"
    show "\<exists>h. (if h = g then Some n else chan_of (pl h)) = Some c"
    proof (cases "c = n")
      case False
      with c ok obtain h where "chan_of (pl h) = Some c"
        unfolding chans_ok_def by auto
      with assms(2) show ?thesis by (metis option.distinct(1))
    qed auto
  qed
  have disj: "distinct (q @ [n])" "set (q @ [n]) \<inter> C = {}"
    using ok unfolding chans_ok_def by auto
  have old: "\<forall>c \<in> set (q @ [n]). c < Suc n" "\<forall>c \<in> C. c < Suc n"
    using ok unfolding chans_ok_def by auto
  have inj': "\<forall>h h' c. (if h = g then Some n else chan_of (pl h)) = Some c \<longrightarrow>
      (if h' = g then Some n else chan_of (pl h')) = Some c \<longrightarrow> h = h'"
    using chan_unused inj by auto
  have queued: "\<forall>h c. (if h = g then Some n else chan_of (pl h)) = Some c \<longrightarrow>
      c \<in> C \<or> c \<in> set (q @ [n])"
    using ok unfolding chans_ok_def by auto
  have "chans_ok (q @ [n]) C (Suc n) (pl(g := Blocked n))"
    unfolding chans_ok_def view by (intro conjI disj old inj' queued owner)
  moreover have "n \<notin> C"
    using assms by (auto simp: acct_def chans_ok_def)
  ultimately show ?thesis
    using assms by (simp add: acct_def cnt_upd [where d = Idle] granted_def)
qed

lemma acct_wake:
  assumes "acct a q C n pl k" and "pl g = Blocked c" and "c \<in> C"
  shows "acct a q C n (pl(g := Holding)) k"
proof -
  have "c \<notin> set q"
    using assms by (auto simp: acct_def chans_ok_def)
  then have "chans_ok q C n (pl(g := Holding))"
    using assms(1,2) unfolding acct_def chans_ok_def
    by (auto split: if_splits) (metis chan_of.simps(1) option.inject)
  then show ?thesis
    using assms by (simp add: acct_def cnt_upd [where d = Idle])
qed

lemma acct_cancel:
  assumes "acct a q C n pl k" and "pl g = Blocked c"
  shows "acct a q C n (pl(g := Cancelling c)) k"
proof -
  have "chans_ok q C n (pl(g := Cancelling c)) \<longleftrightarrow> chans_ok q C n pl"
    using assms(2) by (intro chans_ok_frame) simp
  then show ?thesis
    using assms by (simp add: acct_def cnt_upd [where d = Idle])
qed

lemma acct_leave:
  assumes "acct a q C n pl k" and "pl g = Cancelling c"
  shows "acct a (remove1 c q) C n (pl(g := Idle)) (k + of_bool (c \<in> C))"
proof -
  have "chans_ok q C n pl"
    using assms by (simp add: acct_def)
  then have "chans_ok (remove1 c q) C n (pl(g := Idle))"
    using assms(2) unfolding chans_ok_def
    by (auto dest: notin_set_remove1 split: if_splits) (metis chan_of.simps(2) option.inject)+
  then show ?thesis
    using assms by (simp add: acct_def cnt_upd [where d = Idle])
qed

lemma acct_release:
  assumes "acct a q C n pl k" and "pl g = Holding"
  shows "acct (a - 1) q C n (pl(g := Idle)) k"
proof -
  have "chans_ok q C n (pl(g := Idle))"
    using assms unfolding acct_def chans_ok_def
    by (auto split: if_splits) (metis chan_of.simps(3-5) option.distinct(1))
  then show ?thesis
    using assms by (simp add: acct_def cnt_upd [where d = Idle])
qed

text \<open>Closing the channel at the head of the queue turns one waiting goroutine into a granted one.\<close>

lemma acct_close_one:
  assumes "acct a (c # q) C n pl k"
  shows "acct (a + 1) q (insert c C) n pl k"
proof -
  have ok: "chans_ok (c # q) C n pl" and tr: "tracked Idle pl"
    using assms by (auto simp: acct_def)
  then obtain g where g: "chan_of (pl g) = Some c"
    unfolding chans_ok_def by auto
  have "{h. granted (insert c C) (pl h)} = insert g {h. granted C (pl h)}"
    using ok g unfolding chans_ok_def granted_def by (auto split: option.splits)
  moreover have "g \<notin> {h. granted C (pl h)}"
    using ok g unfolding chans_ok_def granted_def by auto
  moreover have "finite {h. granted C (pl h)}"
    using tracked_finite [where P = "granted C", OF tr] by simp
  ultimately have "cnt (granted (insert c C)) pl = cnt (granted C) pl + 1"
    by (simp add: cnt_def)
  moreover have "chans_ok q (insert c C) n pl"
    using ok unfolding chans_ok_def by auto
  ultimately show ?thesis
    using assms by (simp add: acct_def)
qed

lemma acct_close:
  "acct a (cs @ q) C n pl k \<Longrightarrow> acct (a + int (length cs)) q (C \<union> set cs) n pl k"
proof (induction cs arbitrary: a C)
  case Nil
  then show ?case by simp
next
  case (Cons c cs)
  then have "acct (a + 1) (cs @ q) (insert c C) n pl k"
    using acct_close_one by simp
  from Cons.IH [OF this] show ?case
    by (simp add: algebra_simps)
qed

lemma acct_holding_le: "acct a q C n pl k \<Longrightarrow> cnt (\<lambda>p. p = Holding) pl \<le> a"
  using cnt_nonneg [of "granted C" pl] by (simp add: acct_def)

text \<open>Every lemma about one step of the accounting, for the step-preservation proofs.\<close>

lemmas acct_steps = acct_fast acct_move acct_block acct_wake acct_cancel acct_leave acct_release

end
