(* ===== verification/Semaphore.thy ===== *)
theory Semaphore
  imports SlotGate
begin

text \<open>
  \<open>sync/semaphore/semaphore.go\<close>: a counting semaphore whose limit can change while goroutines
  wait. The record is the Go struct without its mutex; each definition of the first section is
  one section of code between \<open>s.mu.Lock()\<close> and \<open>s.mu.Unlock()\<close>. The transition system of the
  second section interleaves those sections over any number of goroutines. Lemmas: the loop
  \<open>notifyWaiters\<close> meets the hand-over contract; every taken slot is accounted for; no waiter is
  queued while a slot is free; the \<open>select\<close> of \<open>Acquire\<close> can lose a slot.
\<close>

section \<open>The operations\<close>

record semaphore =
  limit :: int
  active :: int
  waiters :: "nat list"

definition new :: "int \<Rightarrow> semaphore" where
  "new initialLimit = \<lparr>limit = initialLimit, active = 0, waiters = []\<rparr>"

text \<open>The loop: the channels it closes are returned in the order of the calls to \<open>close\<close>.\<close>

function notifyWaiters :: "semaphore \<Rightarrow> semaphore \<times> nat list" where
  "notifyWaiters s =
     (case waiters s of
        [] \<Rightarrow> (s, [])
      | ch # rest \<Rightarrow>
          if active s < limit s
          then (let (t, closed) = notifyWaiters (s\<lparr>waiters := rest, active := active s + 1\<rparr>)
                in (t, ch # closed))
          else (s, []))"
  by pat_completeness auto
termination
  by (relation "measure (\<lambda>s. length (waiters s))") auto

declare notifyWaiters.simps [simp del]

lemma notifyWaiters_none: "waiters s = [] \<or> limit s \<le> active s \<Longrightarrow> notifyWaiters s = (s, [])"
  by (auto simp: notifyWaiters.simps [of s] split: list.splits)

lemma notifyWaiters_next:
  "waiters s = ch # rest \<Longrightarrow> active s < limit s \<Longrightarrow>
   notifyWaiters s = (let (t, closed) = notifyWaiters (s\<lparr>waiters := rest, active := active s + 1\<rparr>)
                      in (t, ch # closed))"
  by (simp add: notifyWaiters.simps [of s])

lemmas notifyWaiters_unfold = notifyWaiters_none notifyWaiters_next

text \<open>
  \<open>Acquire\<close>, its first locked section: a free slot is taken (\<open>True\<close>), or the channel \<open>ch\<close> just
  made is queued (\<open>False\<close>). Its second locked section, after \<open>ctx.Done()\<close>: the first occurrence
  of the channel leaves the queue.
\<close>

definition acquire_section :: "nat \<Rightarrow> semaphore \<Rightarrow> semaphore \<times> bool" where
  "acquire_section ch s =
     (if active s < limit s then (s\<lparr>active := active s + 1\<rparr>, True)
      else (s\<lparr>waiters := waiters s @ [ch]\<rparr>, False))"

definition cancel_section :: "nat \<Rightarrow> semaphore \<Rightarrow> semaphore" where
  "cancel_section ch s = s\<lparr>waiters := remove1 ch (waiters s)\<rparr>"

definition release :: "semaphore \<Rightarrow> semaphore \<times> nat list" where
  "release s = notifyWaiters (s\<lparr>active := active s - 1\<rparr>)"

definition resize :: "int \<Rightarrow> semaphore \<Rightarrow> semaphore \<times> nat list" where
  "resize newLimit s = notifyWaiters (s\<lparr>limit := newLimit\<rparr>)"

section \<open>The hand-over loop\<close>

lemma notifyWaiters_frame:
  assumes "notifyWaiters s = (t, cs)"
  shows "waiters s = cs @ waiters t \<and> active t = active s + int (length cs) \<and> limit t = limit s \<and>
    (waiters t = [] \<or> limit t \<le> active t) \<and> (cs \<noteq> [] \<longrightarrow> active t \<le> limit t)"
  using assms
proof (induction s arbitrary: t cs rule: notifyWaiters.induct)
  case (1 s)
  show ?case
  proof (cases "waiters s")
    case Nil
    with "1.prems" show ?thesis by (simp add: notifyWaiters.simps [of s])
  next
    case (Cons ch rest)
    show ?thesis
    proof (cases "active s < limit s")
      case True
      obtain t' cs' where rec: "notifyWaiters (s\<lparr>waiters := rest, active := active s + 1\<rparr>) = (t', cs')"
        by fastforce
      have "t = t'" and "cs = ch # cs'"
        using "1.prems" Cons True rec by (auto simp: notifyWaiters.simps [of s])
      moreover note "1.IH" [OF Cons True rec]
      ultimately show ?thesis using Cons True by auto
    next
      case False
      with "1.prems" Cons show ?thesis by (simp add: notifyWaiters.simps [of s])
    qed
  qed
qed

interpretation gate: slot_gate limit active waiters notifyWaiters
  by unfold_locales (auto dest: notifyWaiters_frame)

section \<open>Goroutines around one semaphore\<close>

text \<open>
  \<open>closed\<close> are the channels closed so far, \<open>next_ch\<close> the next fresh channel, \<open>ctx_done g\<close> whether
  the context of the current call of goroutine \<open>g\<close> is done. Two ghost fields: \<open>lost\<close> counts the
  calls that returned the context's error although their channel had been closed, \<open>peak\<close> is the
  greatest limit so far.
\<close>

record sem_sys =
  sem :: semaphore
  places :: "nat \<Rightarrow> place"
  closed :: "nat set"
  next_ch :: nat
  ctx_done :: "nat \<Rightarrow> bool"
  lost :: int
  peak :: int

definition sem_start :: "int \<Rightarrow> sem_sys" where
  "sem_start n = \<lparr>sem = new n, places = (\<lambda>_. Idle), closed = {}, next_ch = 0,
     ctx_done = (\<lambda>_. False), lost = 0, peak = n\<rparr>"

definition sem_init :: "int \<Rightarrow> sem_sys \<Rightarrow> bool" where
  "sem_init n s \<longleftrightarrow> s = sem_start n"

text \<open>
  One rule per atomic move. \<open>sem_call\<close> and \<open>sem_refuse\<close> are the test of \<open>ctx.Err()\<close> at the head of
  \<open>Acquire\<close>; \<open>sem_wake\<close> and \<open>sem_cancel\<close> are the two branches of its \<open>select\<close>, which may take
  either one when both are ready.
\<close>

inductive sem_step :: "sem_sys \<Rightarrow> sem_sys \<Rightarrow> bool" where
  sem_refuse: "places s g = Idle \<Longrightarrow> sem_step s s"
| sem_call: "places s g = Idle \<Longrightarrow>
    sem_step s (s\<lparr>places := (places s)(g := Checked), ctx_done := (ctx_done s)(g := False)\<rparr>)"
| sem_ctx: "sem_step s (s\<lparr>ctx_done := (ctx_done s)(g := True)\<rparr>)"
| sem_fast: "places s g = Checked \<Longrightarrow> acquire_section (next_ch s) (sem s) = (x, True) \<Longrightarrow>
    sem_step s (s\<lparr>sem := x, places := (places s)(g := Holding)\<rparr>)"
| sem_block: "places s g = Checked \<Longrightarrow> acquire_section (next_ch s) (sem s) = (x, False) \<Longrightarrow>
    sem_step s (s\<lparr>sem := x, places := (places s)(g := Blocked (next_ch s)),
      next_ch := Suc (next_ch s)\<rparr>)"
| sem_wake: "places s g = Blocked c \<Longrightarrow> c \<in> closed s \<Longrightarrow>
    sem_step s (s\<lparr>places := (places s)(g := Holding)\<rparr>)"
| sem_cancel: "places s g = Blocked c \<Longrightarrow> ctx_done s g \<Longrightarrow>
    sem_step s (s\<lparr>places := (places s)(g := Cancelling c)\<rparr>)"
| sem_leave: "places s g = Cancelling c \<Longrightarrow>
    sem_step s (s\<lparr>sem := cancel_section c (sem s), places := (places s)(g := Idle),
      lost := lost s + of_bool (c \<in> closed s)\<rparr>)"
| sem_release: "places s g = Holding \<Longrightarrow> release (sem s) = (x, cs) \<Longrightarrow>
    sem_step s (s\<lparr>sem := x, places := (places s)(g := Idle), closed := closed s \<union> set cs\<rparr>)"
| sem_resize: "resize n (sem s) = (x, cs) \<Longrightarrow>
    sem_step s (s\<lparr>sem := x, closed := closed s \<union> set cs, peak := max (peak s) n\<rparr>)"

lemmas sem_section_defs = acquire_section_def cancel_section_def release_def resize_def new_def

section \<open>The invariant\<close>

definition sem_inv :: "sem_sys \<Rightarrow> bool" where
  "sem_inv s \<longleftrightarrow>
     acct (active (sem s)) (waiters (sem s)) (closed s) (next_ch s) (places s) (lost s) \<and>
     (waiters (sem s) = [] \<or> limit (sem s) \<le> active (sem s)) \<and>
     limit (sem s) \<le> peak s \<and> active (sem s) \<le> max 0 (peak s)"

lemma sem_inv_start: "sem_inv (sem_start n)"
  by (simp add: sem_inv_def sem_start_def new_def acct_init)

text \<open>The hand-over keeps the accounting and leaves no free slot with a waiter queued.\<close>

lemma sem_grant_acct:
  assumes "acct (active x) (waiters x) C n pl k" and "notifyWaiters x = (y, cs)"
  shows "acct (active y) (waiters y) (C \<union> set cs) n pl k"
  using acct_close [of "active x" cs "waiters y" C n pl k] assms
    gate.grant_queue [OF assms(2)] gate.grant_act [OF assms(2)] by simp

lemma sem_grant_bound:
  assumes "notifyWaiters x = (y, cs)" and "active x \<le> m" and "limit x \<le> m"
  shows "active y \<le> m \<and> limit y = limit x \<and> (waiters y = [] \<or> limit y \<le> active y)"
  using gate.grant_act [OF assms(1)] gate.grant_cap [OF assms(1)] gate.grant_stops [OF assms(1)]
    gate.grant_fits [OF assms(1)] assms(2,3) by (cases cs) auto

lemma sem_inv_step: "sem_step s t \<Longrightarrow> sem_inv s \<Longrightarrow> sem_inv t"
proof (induction rule: sem_step.induct)
  case (sem_fast s g x)
  then show ?case
    by (auto simp: sem_inv_def acquire_section_def acct_fast split: if_splits)
next
  case (sem_block s g x)
  then show ?case
    by (auto simp: sem_inv_def acquire_section_def acct_block split: if_splits)
next
  case (sem_leave s g c)
  then show ?case
    using acct_leave [of "active (sem s)" "waiters (sem s)" "closed s" "next_ch s" "places s" "lost s" g c]
    by (auto simp: sem_inv_def cancel_section_def)
next
  case (sem_release s g x cs)
  let ?y = "(sem s)\<lparr>active := active (sem s) - 1\<rparr>"
  have "acct (active ?y) (waiters ?y) (closed s) (next_ch s) ((places s)(g := Idle)) (lost s)"
    using sem_release acct_release by (simp add: sem_inv_def)
  moreover have "notifyWaiters ?y = (x, cs)"
    using sem_release by (simp add: release_def)
  ultimately have "acct (active x) (waiters x) (closed s \<union> set cs) (next_ch s)
      ((places s)(g := Idle)) (lost s)"
    and "active x \<le> max 0 (peak s) \<and> limit x = limit ?y \<and> (waiters x = [] \<or> limit x \<le> active x)"
    using sem_release.prems sem_grant_acct [of ?y] sem_grant_bound [of ?y x cs "max 0 (peak s)"]
    by (auto simp: sem_inv_def)
  then show ?case
    using sem_release.prems by (auto simp: sem_inv_def)
next
  case (sem_resize n s x cs)
  let ?y = "(sem s)\<lparr>limit := n\<rparr>"
  have "notifyWaiters ?y = (x, cs)"
    using sem_resize by (simp add: resize_def)
  then have "acct (active x) (waiters x) (closed s \<union> set cs) (next_ch s) (places s) (lost s)"
    and "active x \<le> max 0 (max (peak s) n) \<and> limit x = n \<and> (waiters x = [] \<or> limit x \<le> active x)"
    using sem_resize.prems sem_grant_acct [of ?y]
      sem_grant_bound [of ?y x cs "max 0 (max (peak s) n)"]
    by (auto simp: sem_inv_def)
  then show ?case
    by (auto simp: sem_inv_def)
qed (auto simp: sem_inv_def acct_move acct_wake acct_cancel)

lemma sem_lost_le:
  assumes "sem_inv s"
  shows "cnt (\<lambda>p. p = Holding) (places s) + lost s \<le> max 0 (peak s)"
proof -
  have "active (sem s) = cnt (\<lambda>p. p = Holding) (places s) + cnt (granted (closed s)) (places s) + lost s"
    and "active (sem s) \<le> max 0 (peak s)"
    using assms by (auto simp: sem_inv_def acct_def)
  with cnt_nonneg [of "granted (closed s)" "places s"] show ?thesis
    by linarith
qed

lemma sem_step_lost_mono: "sem_step s t \<Longrightarrow> lost s \<le> lost t \<and> peak s \<le> peak t"
  by (induction rule: sem_step.induct) auto

lemma sem_steps_lost_mono: "sem_step\<^sup>*\<^sup>* s t \<Longrightarrow> lost s \<le> lost t \<and> peak s \<le> peak t"
  by (induction rule: rtranclp_induct) (auto dest: sem_step_lost_mono)

interpretation sem: inductive_invariant "sem_init n" sem_step sem_inv
  by unfold_locales (auto simp: sem_init_def sem_inv_start intro: sem_inv_step)

text \<open>A run that loses the only slot: goroutine 0 takes it, goroutine 1 waits, 0 releases, and 1
  leaves by the other branch of its \<open>select\<close>.\<close>

definition leaked :: sem_sys where
  "leaked = (sem_start 1)\<lparr>sem := \<lparr>limit = 1, active = 1, waiters = []\<rparr>,
     closed := {0}, next_ch := 1, ctx_done := (\<lambda>_. False)(1 := True), lost := 1\<rparr>"

lemma sem_leak_reachable: "reach (sem_init 1) sem_step leaked"
proof -
  let ?sys = "\<lambda>a q pl C n d l. \<lparr>sem = \<lparr>limit = 1, active = a, waiters = q\<rparr>, places = pl, closed = C,
    next_ch = n, ctx_done = d, lost = l, peak = 1\<rparr>"
  let ?R = "reach (sem_init 1) sem_step"
  have "?R (sem_start 1)"
    by (rule reach_init) (simp add: sem_init_def)
  from reach_step [OF this sem_call [where g = 0]]
  have "?R (?sys 0 [] ((\<lambda>_. Idle)(0 := Checked)) {} 0 (\<lambda>_. False) 0)"
    by (simp add: sem_start_def new_def fun_upd_def cong: if_cong)
  from reach_step [OF this sem_fast [where g = 0]]
  have "?R (?sys 1 [] ((\<lambda>_. Idle)(0 := Holding)) {} 0 (\<lambda>_. False) 0)"
    by (simp add: acquire_section_def)
  from reach_step [OF this sem_call [where g = 1]]
  have "?R (?sys 1 [] ((\<lambda>_. Idle)(0 := Holding, 1 := Checked)) {} 0 (\<lambda>_. False) 0)"
    by (simp add: fun_upd_idem)
  from reach_step [OF this sem_block [where g = 1]]
  have "?R (?sys 1 [0] ((\<lambda>_. Idle)(0 := Holding, 1 := Blocked 0)) {} 1 (\<lambda>_. False) 0)"
    by (simp add: acquire_section_def)
  from reach_step [OF this sem_release [where g = 0]]
  have "?R (?sys 1 [] ((\<lambda>_. Idle)(0 := Idle, 1 := Blocked 0)) {0} 1 (\<lambda>_. False) 0)"
    by (simp add: release_def notifyWaiters_unfold fun_upd_twist)
  from reach_step [OF this sem_ctx [where g = 1]]
  have "?R (?sys 1 [] ((\<lambda>_. Idle)(0 := Idle, 1 := Blocked 0)) {0} 1 ((\<lambda>_. False)(1 := True)) 0)"
    by simp
  from reach_step [OF this sem_cancel [where g = 1]]
  have "?R (?sys 1 [] ((\<lambda>_. Idle)(0 := Idle, 1 := Cancelling 0)) {0} 1 ((\<lambda>_. False)(1 := True)) 0)"
    by simp
  from reach_step [OF this sem_leave [where g = 1]]
  have "?R (?sys 1 [] ((\<lambda>_. Idle)(0 := Idle, 1 := Idle)) {0} 1 ((\<lambda>_. False)(1 := True)) 1)"
    by (simp add: cancel_section_def)
  then show ?thesis
    by (simp add: leaked_def sem_start_def fun_upd_idem)
qed

section \<open>Properties\<close>

text \<open>C13 (invariant): in every state reachable from a semaphore made with limit \<open>n\<close>, under any
  interleaving of \<open>Acquire\<close>, context cancellation, \<open>Release\<close> and \<open>Resize\<close>, the counter \<open>active\<close> is
  exactly the number of goroutines holding a slot, plus those whose channel has been closed and
  who have not returned yet, plus the slots lost to the race between \<open>ctx.Done()\<close> and the hand-over;
  and the holders together with the lost slots never exceed the greatest limit so far.\<close>

theorem sem_slots_accounted:
  assumes "reach (sem_init n) sem_step s"
  shows "active (sem s) = cnt (\<lambda>p. p = Holding) (places s) + cnt (granted (closed s)) (places s) + lost s
    \<and> cnt (\<lambda>p. p = Holding) (places s) + lost s \<le> max 0 (peak s)"
  using sem_lost_le [OF sem.inv_reachable [OF assms]] sem.inv_reachable [OF assms]
  by (simp add: sem_inv_def acct_def del: max.bounded_iff)

theorem sem_slots_accounted_witness:
  "active (sem leaked) = 1 \<and> lost leaked = 1 \<and>
   active (sem leaked) = cnt (\<lambda>p. p = Holding) (places leaked) + cnt (granted (closed leaked)) (places leaked) + lost leaked"
  using sem_slots_accounted [OF sem_leak_reachable] by (simp add: leaked_def)

text \<open>no wakeup is lost. In every reachable state a goroutine waits in the queue only
  while no slot is free (\<open>limit \<le> active\<close>), also after the limit was raised, after a waiter gave up
  and after every \<open>Release\<close>.\<close>

theorem sem_no_lost_wakeup:
  assumes "reach (sem_init n) sem_step s" and "active (sem s) < limit (sem s)"
  shows "waiters (sem s) = [] \<and> (\<forall>g c. places s g = Blocked c \<longrightarrow> c \<in> closed s)"
proof -
  have inv: "sem_inv s"
    by (rule sem.inv_reachable [OF assms(1)])
  with assms(2) have q: "waiters (sem s) = []"
    by (auto simp: sem_inv_def)
  with inv have "c \<in> closed s" if "places s g = Blocked c" for g c
    using that unfolding sem_inv_def acct_def chans_ok_def
    by (metis chan_of.simps(1) empty_iff empty_set)
  with q show ?thesis by blast
qed

theorem sem_no_lost_wakeup_witness:
  "\<exists>s. reach (sem_init 1) sem_step s \<and> active (sem s) = 1 \<and> limit (sem s) = 3 \<and> waiters (sem s) = []"
proof -
  let ?s = "leaked\<lparr>sem := \<lparr>limit = 3, active = 1, waiters = []\<rparr>, closed := closed leaked \<union> set [], peak := max (peak leaked) 3\<rparr>"
  have "resize 3 (sem leaked) = (\<lparr>limit = 3, active = 1, waiters = []\<rparr>, [])"
    by (simp add: leaked_def resize_def notifyWaiters_unfold)
  from reach_step [OF sem_leak_reachable sem_resize [OF this]] have r: "reach (sem_init 1) sem_step ?s" .
  then have "waiters (sem ?s) = []" using sem_no_lost_wakeup [OF r] by simp
  with r show ?thesis by (intro exI [of _ ?s]) simp
qed

text \<open>\<open>Release\<close> and \<open>Resize\<close> hand the free slots out first come, first served: the
  channels closed are exactly the longest waiting ones, as many as there are free slots.\<close>

theorem sem_handover_fifo:
  "release s = (t, cs) \<Longrightarrow>
     cs = take (nat (limit s - (active s - 1))) (waiters s) \<and>
     waiters t = drop (nat (limit s - (active s - 1))) (waiters s) \<and>
     active t = active s - 1 + int (length cs) \<and> limit t = limit s"
  using gate.grant_fifo [of "s\<lparr>active := active s - 1\<rparr>" t cs]
    gate.grant_laws [of "s\<lparr>active := active s - 1\<rparr>" t cs]
  by (simp add: release_def)

theorem sem_handover_fifo_witness:
  "release \<lparr>limit = 2, active = 2, waiters = [7, 8]\<rparr> = (\<lparr>limit = 2, active = 2, waiters = [8]\<rparr>, [7])
   \<and> [7] = take 1 [7 :: nat, 8]"
proof -
  have h: "release \<lparr>limit = 2, active = 2, waiters = [7, 8]\<rparr>
      = (\<lparr>limit = 2, active = 2, waiters = [8]\<rparr>, [7])"
    by (simp add: release_def notifyWaiters_unfold)
  from sem_handover_fifo [OF h] have "[7] = take 1 [7 :: nat, 8]"
    by simp
  with h show ?thesis by (rule conjI)
qed

text \<open>the \<open>select\<close> of \<open>Acquire\<close> can lose a slot for good. With limit 1 there is a
  reachable state in which every goroutine is outside the semaphore and yet \<open>active = 1\<close>: a
  waiter whose channel had just been closed took the \<open>ctx.Done()\<close> branch and returned its context's
  error without giving the slot back. From there on, as long as the limit is not raised, no
  goroutine ever holds the semaphore again.\<close>

theorem sem_slot_leak:
  "\<exists>s. reach (sem_init 1) sem_step s \<and> (\<forall>g. places s g = Idle) \<and> active (sem s) = 1 \<and>
     limit (sem s) = 1 \<and> peak s = 1 \<and>
     (\<forall>t. sem_step\<^sup>*\<^sup>* s t \<and> peak t \<le> 1 \<longrightarrow> (\<forall>g. places t g \<noteq> Holding))"
proof -
  define s where "s = leaked"
  have r: "reach (sem_init 1) sem_step s"
    unfolding s_def by (rule sem_leak_reachable)
  moreover have "\<forall>g. places t g \<noteq> Holding" if "sem_step\<^sup>*\<^sup>* s t" "peak t \<le> 1" for t
  proof -
    have inv: "sem_inv t"
      using sem.inv_steps [OF that(1)] sem.inv_reachable [OF r] by blast
    moreover have "1 \<le> lost t"
      using sem_steps_lost_mono [OF that(1)] by (simp add: s_def leaked_def)
    ultimately have "cnt (\<lambda>p. p = Holding) (places t) = 0"
      using sem_lost_le [OF inv] that(2) cnt_nonneg [of "\<lambda>p. p = Holding" "places t"] by linarith
    then show ?thesis
      using inv cnt_zero_iff [of Idle "places t" "\<lambda>p. p = Holding"] by (auto simp: sem_inv_def acct_def)
  qed
  ultimately show ?thesis
    by (intro exI [of _ s]) (auto simp: s_def leaked_def sem_start_def)
qed

theorem sem_slot_leak_witness:
  "\<exists>s. reach (sem_init 1) sem_step s \<and> active (sem s) = 1 \<and> (\<forall>g. places s g \<noteq> Holding)"
proof -
  obtain s where "reach (sem_init 1) sem_step s" "active (sem s) = 1" "peak s = 1"
    and "\<forall>t. sem_step\<^sup>*\<^sup>* s t \<and> peak t \<le> 1 \<longrightarrow> (\<forall>g. places t g \<noteq> Holding)"
    using sem_slot_leak by blast
  then show ?thesis by (metis order_refl rtranclp.rtrancl_refl)
qed

end
