(* ===== verification/GateSpec.thy ===== *)
theory GateSpec
  imports SlotGate
begin

text \<open>
  What the semaphore and the adaptive limiter promise, as a specification: a gate with room for so many
  goroutines and one line before it. Who finds room enters, if nobody is in line; who finds none joins the line; whoever
  leaves lets the first of the line in. Channels, counters and the places inside the code disappear under the
  map \<open>gate_view\<close>, through which both components refine the gate. Lemmas: the gate is never overfull,
  keeps nobody waiting for nothing, and serves first come, first served.
\<close>

section \<open>The specification\<close>

record gate =
  room :: int
  inside :: "nat set"
  line :: "nat list"
  wasted :: int

definition used :: "gate \<Rightarrow> int" where
  "used G = int (card (inside G)) + wasted G"

text \<open>The first of the line enter, as many as there is room for.\<close>

definition admit :: "gate \<Rightarrow> gate" where
  "admit G = (let n = nat (room G - used G)
     in G\<lparr>inside := inside G \<union> set (take n (line G)), line := drop n (line G)\<rparr>)"

text \<open>
  \<open>adaptive\<close>: the room changes when somebody leaves, otherwise by \<open>gate_resize\<close>. In \<open>gate_forfeit\<close> a goroutine that
  was let in goes away and its room is wasted.
\<close>

inductive gate_step :: "bool \<Rightarrow> gate \<Rightarrow> gate \<Rightarrow> bool" for adaptive :: bool where
  gate_enter: "g \<notin> inside G \<Longrightarrow> line G = [] \<Longrightarrow> used G < room G \<Longrightarrow> gate_step adaptive G (G\<lparr>inside := insert g (inside G)\<rparr>)"
| gate_join: "g \<notin> inside G \<Longrightarrow> g \<notin> set (line G) \<Longrightarrow> room G \<le> used G \<Longrightarrow> gate_step adaptive G (G\<lparr>line := line G @ [g]\<rparr>)"
| gate_quit: "g \<in> set (line G) \<Longrightarrow> gate_step adaptive G (G\<lparr>line := remove1 g (line G)\<rparr>)"
| gate_forfeit: "g \<in> inside G \<Longrightarrow> gate_step adaptive G (G\<lparr>inside := inside G - {g}, wasted := wasted G + 1\<rparr>)"
| gate_exit: "g \<in> inside G \<Longrightarrow> adaptive \<or> n = room G \<Longrightarrow>
    gate_step adaptive G (admit (G\<lparr>inside := inside G - {g}, room := n\<rparr>))"
| gate_resize: "\<not> adaptive \<Longrightarrow> gate_step adaptive G (admit (G\<lparr>room := n\<rparr>))"

definition gate_ok :: "gate \<Rightarrow> bool" where
  "gate_ok G \<longleftrightarrow> finite (inside G) \<and> distinct (line G) \<and> set (line G) \<inter> inside G = {} \<and>
     (line G = [] \<or> room G \<le> used G)"

definition empty_gate :: "int \<Rightarrow> gate" where
  "empty_gate n = \<lparr>room = n, inside = {}, line = [], wasted = 0\<rparr>"

lemma admit_ok:
  assumes "finite (inside G)" and "distinct (line G)" and "set (line G) \<inter> inside G = {}"
  shows "gate_ok (admit G)"
proof -
  define n new rest where "n = nat (room G - used G)" and "new = take n (line G)" and "rest = drop n (line G)"
  have l: "line G = new @ rest" by (simp add: new_def rest_def)
  have "card (inside G \<union> set new) = card (inside G) + length new"
    using assms unfolding l by (subst card_Un_disjoint) (auto simp: distinct_card)
  moreover have "rest = [] \<or> room G \<le> used G + int (length new)" by (auto simp: n_def new_def rest_def)
  moreover have "distinct rest" and "set rest \<inter> (inside G \<union> set new) = {}" using assms unfolding l by auto
  moreover have "admit G = G\<lparr>inside := inside G \<union> set new, line := rest\<rparr>"
    by (simp add: admit_def Let_def n_def new_def rest_def)
  ultimately show ?thesis using assms(1) by (auto simp: gate_ok_def used_def)
qed

lemma gate_ok_step: "gate_step adaptive G H \<Longrightarrow> gate_ok G \<Longrightarrow> gate_ok H"
proof (induction rule: gate_step.induct)
  case (gate_enter g G)
  then show ?case by (simp add: gate_ok_def)
next
  case (gate_join g G)
  then show ?case by (auto simp: gate_ok_def used_def)
next
  case (gate_quit g G)
  then show ?case using set_remove1_subset [of g "line G"] by (auto simp: gate_ok_def used_def)
next
  case (gate_forfeit g G)
  then have "Suc (card (inside G - {g})) = card (inside G)"
    by (intro card_Suc_Diff1) (simp_all add: gate_ok_def)
  then have "used (G\<lparr>inside := inside G - {g}, wasted := wasted G + 1\<rparr>) = used G"
    by (simp add: used_def)
  with gate_forfeit show ?case by (auto simp: gate_ok_def)
next
  case (gate_exit g G n)
  then show ?case by (intro admit_ok) (auto simp: gate_ok_def)
next
  case (gate_resize G n)
  then show ?case by (intro admit_ok) (auto simp: gate_ok_def)
qed

interpretation gate_spec: inductive_invariant "(=) (empty_gate n)" "gate_step adaptive" gate_ok for n adaptive
proof
  show "gate_ok G" if "empty_gate n = G" for G using that by (auto simp: empty_gate_def gate_ok_def)
  show "gate_ok H" if "gate_ok G" and "gate_step adaptive G H" for G H using that(2,1) by (rule gate_ok_step)
qed

text \<open>First come, first served: nobody is let in before those who were in line before him.\<close>

lemma admit_fifo:
  assumes "line G = xs @ ys" and "distinct (line G)" and "h \<in> set ys" and "h \<notin> inside G" and "h \<in> inside (admit G)"
  shows "set xs \<subseteq> inside (admit G)"
proof -
  let ?n = "nat (room G - used G)"
  have h: "h \<in> set (take ?n (xs @ ys))" using assms(1,4,5) by (simp add: admit_def Let_def)
  moreover have "h \<notin> set xs" using assms(1-3) by auto
  ultimately have "length xs < ?n" by (auto simp: take_append dest: in_set_takeD intro: ccontr)
  then have "set xs \<subseteq> set (take ?n (line G))" using assms(1) by simp
  then show ?thesis by (auto simp: admit_def Let_def)
qed

lemma gate_fifo:
  assumes "gate_step adaptive G H" and "gate_ok G" and "line G = xs @ ys" and "h \<in> set ys" and "h \<in> inside H"
  shows "set xs \<subseteq> inside H"
proof -
  have out: "h \<notin> inside G" and d: "distinct (line G)"
    using assms(2-4) by (auto simp: gate_ok_def)
  from assms(1) show ?thesis
  proof (cases rule: gate_step.cases)
    case (gate_exit g n)
    with admit_fifo [of "G\<lparr>inside := inside G - {g}, room := n\<rparr>" xs ys h] out d assms show ?thesis by simp
  next
    case (gate_resize n)
    with admit_fifo [of "G\<lparr>room := n\<rparr>" xs ys h] out d assms show ?thesis by simp
  qed (use out assms(3-5) in auto)
qed

section \<open>The view of the accounting\<close>

text \<open>The goroutine that waits on a channel, and those that hold a slot or have been given one.\<close>

definition owner :: "(nat \<Rightarrow> place) \<Rightarrow> nat \<Rightarrow> nat" where
  "owner pl c = (THE g. chan_of (pl g) = Some c)"

definition has_slot :: "nat set \<Rightarrow> place \<Rightarrow> bool" where
  "has_slot C p \<longleftrightarrow> p = Holding \<or> granted C p"

definition gate_view :: "int \<Rightarrow> nat list \<Rightarrow> nat set \<Rightarrow> (nat \<Rightarrow> place) \<Rightarrow> int \<Rightarrow> gate" where
  "gate_view n q C pl k = \<lparr>room = n, inside = {g. has_slot C (pl g)}, line = map (owner pl) q, wasted = k\<rparr>"

lemma chans_okD:
  assumes "chans_ok q C n pl"
  shows "chan_of (pl g) = Some c \<Longrightarrow> chan_of (pl h) = Some c \<Longrightarrow> g = h"
    and "chan_of (pl g) = Some c \<Longrightarrow> c \<in> C \<or> c \<in> set q"
    and "c \<in> set q \<Longrightarrow> \<exists>g. chan_of (pl g) = Some c"
  using assms unfolding chans_ok_def by blast+

lemma owner_eq: "chans_ok q C n pl \<Longrightarrow> chan_of (pl g) = Some c \<Longrightarrow> owner pl c = g"
  unfolding owner_def by (rule the_equality) (auto dest: chans_okD(1))

lemma owner_of_queued:
  assumes "chans_ok q C n pl" and "c \<in> set q"
  shows "chan_of (pl (owner pl c)) = Some c"
proof -
  obtain g where g: "chan_of (pl g) = Some c" using chans_okD(3) [OF assms] ..
  with owner_eq [OF assms(1) g] show ?thesis by simp
qed

lemma owner_upd: "chan_of (pl g) \<noteq> Some c \<Longrightarrow> chan_of p \<noteq> Some c \<Longrightarrow> owner (pl(g := p)) c = owner pl c"
  unfolding owner_def by (rule arg_cong [where f = The]) (auto simp: fun_eq_iff)

lemma owner_inj: "chans_ok q C n pl \<Longrightarrow> inj_on (owner pl) (set q)"
  by (rule inj_onI) (metis option.inject owner_of_queued)

lemma has_slot_queued: "chans_ok q C n pl \<Longrightarrow> c \<in> set q \<Longrightarrow> \<not> has_slot C (pl (owner pl c))"
  using owner_of_queued [of q C n pl c] by (auto simp: has_slot_def granted_def chans_ok_def)

lemma used_view:
  assumes "acct a q C n pl k"
  shows "used (gate_view m q C pl k) = a"
proof -
  have t: "tracked Idle pl" using assms by (simp add: acct_def)
  have "{g. has_slot C (pl g)} = {g. pl g = Holding} \<union> {g. granted C (pl g)}" by (auto simp: has_slot_def)
  moreover have "finite {g. pl g = Holding}" "finite {g. granted C (pl g)}"
    using tracked_finite [where P = "\<lambda>p. p = Holding", OF t] tracked_finite [where P = "granted C", OF t] by simp_all
  moreover have "{g. pl g = Holding} \<inter> {g. granted C (pl g)} = {}" by auto
  ultimately have "card {g. has_slot C (pl g)} = card {g. pl g = Holding} + card {g. granted C (pl g)}"
    by (simp add: card_Un_disjoint)
  with assms show ?thesis by (simp add: used_def gate_view_def acct_def cnt_def)
qed

lemma map_remove1_inj: "inj_on f (insert x (set xs)) \<Longrightarrow> map f (remove1 x xs) = remove1 (f x) (map f xs)"
  by (induction xs) (auto simp: inj_on_def)

text \<open>One lemma per move of a goroutine.\<close>

lemma view_enter:
  assumes A: "acct a q C n pl k" and "chan_of (pl g) = None" and "pl g \<noteq> Holding" and "a < m" and "q = [] \<or> m \<le> a"
  shows "gate_step adaptive (gate_view m q C pl k) (gate_view m q C (pl(g := Holding)) k)"
proof -
  let ?G = "gate_view m q C pl k"
  have "g \<notin> inside ?G" using assms(2,3) by (simp add: gate_view_def has_slot_def granted_def)
  moreover have "line ?G = []" using assms(4,5) by (simp add: gate_view_def)
  moreover have "used ?G < room ?G" using used_view [OF A, of m] assms(4) by (simp add: gate_view_def)
  ultimately have "gate_step adaptive ?G (?G\<lparr>inside := insert g (inside ?G)\<rparr>)" by (rule gate_enter)
  moreover have "gate_view m q C (pl(g := Holding)) k = ?G\<lparr>inside := insert g (inside ?G)\<rparr>"
    using assms(4,5) by (auto simp: gate_view_def has_slot_def)
  ultimately show ?thesis by simp
qed

lemma view_join:
  assumes A: "acct a q C n pl k" and "chan_of (pl g) = None" and "pl g \<noteq> Holding" and "m \<le> a"
  shows "gate_step adaptive (gate_view m q C pl k) (gate_view m (q @ [n]) C (pl(g := Blocked n)) k)"
proof -
  let ?G = "gate_view m q C pl k" and ?pl = "pl(g := Blocked n)"
  have ok: "chans_ok q C n pl" using A by (simp add: acct_def)
  then have new: "n \<notin> C" "n \<notin> set q" "chan_of (pl h) \<noteq> Some n" for h
    unfolding chans_ok_def by blast+
  have out: "g \<notin> inside ?G" using assms(2,3) by (simp add: gate_view_def has_slot_def granted_def)
  have "g \<notin> set (line ?G)" using owner_of_queued [OF ok] assms(2) by (auto simp: gate_view_def)
  with out have "gate_step adaptive ?G (?G\<lparr>line := line ?G @ [g]\<rparr>)"
    using used_view [OF A, of m] assms(4) by (intro gate_join) (simp_all add: gate_view_def)
  moreover have "map (owner ?pl) q = map (owner pl) q"
    using assms(2) new(2) by (auto intro!: owner_upd)
  moreover have "owner ?pl n = g"
    unfolding owner_def using new(3) by (intro the_equality) (auto split: if_splits)
  moreover have "{h. has_slot C (?pl h)} = {h. has_slot C (pl h)}"
    using out new(1) by (auto simp: gate_view_def has_slot_def)
  ultimately show ?thesis by (simp add: gate_view_def del: map_eq_conv)
qed

lemma view_same:
  assumes "chan_of (pl g) = chan_of p \<or> (\<exists>c. pl g = Blocked c \<and> c \<notin> set q \<and> p = Holding)" and "has_slot C p \<longleftrightarrow> has_slot C (pl g)"
  shows "gate_view m q C (pl(g := p)) k = gate_view m q C pl k"
proof -
  have "owner (pl(g := p)) c = owner pl c" if "c \<in> set q" for c
    using assms(1) that unfolding owner_def by (intro arg_cong [where f = The]) (auto simp: fun_eq_iff)
  with assms(2) show ?thesis by (auto simp: gate_view_def)
qed

lemma view_wake: "acct a q C n pl k \<Longrightarrow> pl g = Blocked c \<Longrightarrow> c \<in> C \<Longrightarrow> gate_view m q C (pl(g := Holding)) k = gate_view m q C pl k"
  by (rule view_same) (auto simp: has_slot_def acct_def chans_ok_def)

lemma view_cancel: "pl g = Blocked c \<Longrightarrow> gate_view m q C (pl(g := Cancelling c)) k = gate_view m q C pl k"
  by (rule view_same) (auto simp: has_slot_def)

lemma view_leave:
  assumes A: "acct a q C n pl k" and c: "pl g = Cancelling c"
  shows "gate_step adaptive (gate_view m q C pl k) (gate_view m (remove1 c q) C (pl(g := Idle)) (k + of_bool (c \<in> C)))"
proof -
  let ?G = "gate_view m q C pl k" and ?pl = "pl(g := Idle)"
  have ok: "chans_ok q C n pl" using A by (simp add: acct_def)
  have own: "owner pl c = g" by (rule owner_eq [OF ok]) (simp add: c)
  have keep: "map (owner ?pl) (remove1 c q) = map (owner pl) (remove1 c q)"
    using ok c by (auto simp: chans_ok_def intro!: owner_upd)
  show ?thesis
  proof (cases "c \<in> C")
    case True
    then have "c \<notin> set q" using ok by (auto simp: chans_ok_def)
    moreover have "gate_step adaptive ?G (?G\<lparr>inside := inside ?G - {g}, wasted := wasted ?G + 1\<rparr>)"
      using True c by (intro gate_forfeit) (simp add: gate_view_def has_slot_def)
    moreover have "{h. has_slot C (?pl h)} = {h. has_slot C (pl h)} - {g}" by (auto simp: has_slot_def)
    ultimately show ?thesis using True keep by (simp add: gate_view_def remove1_idem del: map_eq_conv)
  next
    case False
    then have q: "c \<in> set q" using chans_okD(2) [OF ok, of g c] c by simp
    with own have "gate_step adaptive ?G (?G\<lparr>line := remove1 g (line ?G)\<rparr>)"
      by (intro gate_quit) (auto simp: gate_view_def)
    moreover have "map (owner pl) (remove1 c q) = remove1 g (map (owner pl) q)"
      using map_remove1_inj [of "owner pl" c q] owner_inj [OF ok] q own by (simp add: insert_absorb)
    moreover have "{h. has_slot C (?pl h)} = {h. has_slot C (pl h)}"
      using False c by (auto simp: has_slot_def)
    ultimately show ?thesis using False keep by (simp add: gate_view_def del: map_eq_conv)
  qed
qed

lemma view_drop:
  assumes "pl g = Holding"
  shows "gate_view m q C (pl(g := Idle)) k = (gate_view m q C pl k)\<lparr>inside := inside (gate_view m q C pl k) - {g}\<rparr>"
proof -
  have "owner (pl(g := Idle)) c = owner pl c" for c by (rule owner_upd) (simp_all add: assms)
  then show ?thesis by (auto simp: gate_view_def has_slot_def)
qed

lemma slot_after_close:
  assumes "chans_ok q C n pl" and "set cs \<subseteq> set q"
  shows "has_slot (C \<union> set cs) (pl h) \<longleftrightarrow> has_slot C (pl h) \<or> h \<in> owner pl ` set cs"
proof (cases "chan_of (pl h)")
  case None
  then have "h \<notin> owner pl ` set cs" using owner_of_queued [OF assms(1)] assms(2) by fastforce
  with None show ?thesis by (simp add: has_slot_def granted_def)
next
  case (Some c)
  then have o: "owner pl c = h" by (rule owner_eq [OF assms(1)])
  have "c \<in> set cs" if "h \<in> owner pl ` set cs"
  proof -
    from that obtain d where d: "d \<in> set cs" "h = owner pl d" by blast
    with owner_of_queued [OF assms(1), of d] assms(2) Some show ?thesis by auto
  qed
  with o Some show ?thesis by (auto simp: has_slot_def granted_def)
qed

lemma view_admit:
  assumes A: "acct a q C n pl k"
  shows "gate_view m (drop (nat (m - a)) q) (C \<union> set (take (nat (m - a)) q)) pl k = admit (gate_view m q C pl k)"
proof -
  let ?cs = "take (nat (m - a)) q" and ?G = "gate_view m q C pl k"
  have "chans_ok q C n pl" using A by (simp add: acct_def)
  then have "{h. has_slot (C \<union> set ?cs) (pl h)} = {h. has_slot C (pl h)} \<union> owner pl ` set ?cs"
    using slot_after_close [of q C n pl ?cs] set_take_subset [of "nat (m - a)" q] by auto
  moreover have "admit ?G = (let n = nat (m - a) in
      ?G\<lparr>inside := inside ?G \<union> set (take n (line ?G)), line := drop n (line ?G)\<rparr>)"
    using used_view [OF A, of m] by (simp add: admit_def gate_view_def)
  ultimately show ?thesis
    by (simp add: Let_def gate_view_def take_map drop_map)
qed

end
