(* ===== verification/SemaphoreSpec.thy ===== *)
theory SemaphoreSpec
  imports Semaphore GateSpec
begin

text \<open>
  The semaphore refines the gate of theory GateSpec: its goroutines, seen as those who are inside and those in
  line, move as the gate prescribes. So the order of the line is the order of service.
\<close>

definition gate_of :: "sem_sys \<Rightarrow> gate" where
  "gate_of s = gate_view (limit (sem s)) (waiters (sem s)) (closed s) (places s) (lost s)"

lemma sem_inv_acct: "sem_inv s \<Longrightarrow> acct (active (sem s)) (waiters (sem s)) (closed s) (next_ch s) (places s) (lost s)"
  by (simp add: sem_inv_def)

lemma hand_over_view:
  assumes "acct (active x) (waiters x) C n pl k" and "notifyWaiters x = (y, cs)"
  shows "gate_view (limit y) (waiters y) (C \<union> set cs) pl k = admit (gate_view (limit x) (waiters x) C pl k)"
proof -
  have "cs = take (nat (limit x - active x)) (waiters x)" "waiters y = drop (nat (limit x - active x)) (waiters x)"
    using gate.grant_fifo [OF assms(2)] by simp_all
  with view_admit [OF assms(1), of "limit x"] gate.grant_cap [OF assms(2)] show ?thesis by simp
qed

lemma sem_step_gate:
  assumes st: "sem_step s t" and I: "sem_inv s"
  shows "gate_step False (gate_of s) (gate_of t) \<or> gate_of t = gate_of s"
proof -
  note A = sem_inv_acct [OF I]
  from st show ?thesis
  proof (cases rule: sem_step.cases)
    case (sem_call g)
    then have "gate_of t = gate_of s" unfolding gate_of_def by (simp add: view_same has_slot_def)
    then show ?thesis ..
  next
    case (sem_fast g x)
    then have "gate_step False (gate_of s) (gate_of t)"
      using view_enter [OF A, of g "limit (sem s)" False] I
      by (auto simp: gate_of_def acquire_section_def sem_inv_def split: if_splits)
    then show ?thesis ..
  next
    case (sem_block g x)
    then have "gate_step False (gate_of s) (gate_of t)"
      using view_join [OF A, of g "limit (sem s)" False] by (auto simp: gate_of_def acquire_section_def split: if_splits)
    then show ?thesis ..
  next
    case (sem_wake g c)
    then have "gate_of t = gate_of s" using view_wake [OF A] by (simp add: gate_of_def)
    then show ?thesis ..
  next
    case (sem_cancel g c)
    then have "gate_of t = gate_of s" using view_cancel by (simp add: gate_of_def)
    then show ?thesis ..
  next
    case (sem_leave g c)
    then have "gate_step False (gate_of s) (gate_of t)"
      using view_leave [OF A, of g c False "limit (sem s)"] by (simp add: gate_of_def cancel_section_def)
    then show ?thesis ..
  next
    case (sem_release g x cs)
    let ?y = "(sem s)\<lparr>active := active (sem s) - 1\<rparr>"
    have "acct (active ?y) (waiters ?y) (closed s) (next_ch s) ((places s)(g := Idle)) (lost s)"
      using acct_release [OF A] sem_release by simp
    from hand_over_view [OF this] sem_release have "gate_of t = admit ((gate_of s)\<lparr>inside := inside (gate_of s) - {g}\<rparr>)"
      by (simp add: gate_of_def release_def view_drop)
    moreover have "g \<in> inside (gate_of s)" using sem_release by (simp add: gate_of_def gate_view_def has_slot_def)
    ultimately show ?thesis using gate_exit [of g "gate_of s" False "room (gate_of s)"] by simp
  next
    case (sem_resize n x cs)
    have "acct (active ((sem s)\<lparr>limit := n\<rparr>)) (waiters ((sem s)\<lparr>limit := n\<rparr>)) (closed s) (next_ch s) (places s) (lost s)"
      using A by simp
    from hand_over_view [OF this] sem_resize have "gate_of t = admit ((gate_of s)\<lparr>room := n\<rparr>)"
      by (simp add: gate_of_def resize_def gate_view_def)
    then show ?thesis using gate_resize [of False "gate_of s" n] by simp
  qed (simp_all add: gate_of_def)
qed

lemma gate_of_start: "gate_of (sem_start n) = empty_gate n"
  by (simp add: gate_of_def gate_view_def sem_start_def new_def empty_gate_def has_slot_def)

interpretation sem_gate: checked_refinement "sem_init n" sem_step sem_inv gate_of "(=) (empty_gate n)" "gate_step False" gate_ok for n
proof
  show "empty_gate n = gate_of s" if "sem_init n s" for s using that by (simp add: sem_init_def gate_of_start)
  show "gate_step False (gate_of s) (gate_of t) \<or> gate_of t = gate_of s" if "sem_inv s" and "sem_step s t" for s t
    using that(2,1) by (rule sem_step_gate)
qed

lemma sem_gate_ok: "reach (sem_init n) sem_step s \<Longrightarrow> gate_ok (gate_of s)"
  using sem_gate.both.inv_reachable by blast

text \<open>A run: goroutine 0 holds the only slot, 1 and 2 are in line.\<close>

definition in_line :: sem_sys where
  "in_line = (sem_start 1)\<lparr>sem := \<lparr>limit = 1, active = 1, waiters = [0, 1]\<rparr>,
     places := (\<lambda>_. Idle)(0 := Holding, 1 := Blocked 0, 2 := Blocked 1), next_ch := 2\<rparr>"

lemma in_line_reachable: "reach (sem_init 1) sem_step in_line"
proof -
  let ?sys = "\<lambda>a q pl n. \<lparr>sem = \<lparr>limit = 1, active = a, waiters = q\<rparr>, places = pl, closed = {},
    next_ch = n, ctx_done = (\<lambda>_. False), lost = 0, peak = 1\<rparr>"
  let ?R = "reach (sem_init 1) sem_step"
  have "?R (?sys 0 [] (\<lambda>_. Idle) 0)"
    by (rule reach_init) (simp add: sem_init_def sem_start_def new_def)
  from reach_step [OF this sem_call [where g = 0]]
  have "?R (?sys 0 [] ((\<lambda>_. Idle)(0 := Checked)) 0)" by (simp add: fun_upd_idem)
  from reach_step [OF this sem_fast [where g = 0]]
  have "?R (?sys 1 [] ((\<lambda>_. Idle)(0 := Holding)) 0)" by (simp add: acquire_section_def)
  from reach_step [OF this sem_call [where g = 1]]
  have "?R (?sys 1 [] ((\<lambda>_. Idle)(0 := Holding, 1 := Checked)) 0)" by (simp add: fun_upd_idem)
  from reach_step [OF this sem_block [where g = 1]]
  have "?R (?sys 1 [0] ((\<lambda>_. Idle)(0 := Holding, 1 := Blocked 0)) 1)" by (simp add: acquire_section_def)
  from reach_step [OF this sem_call [where g = 2]]
  have "?R (?sys 1 [0] ((\<lambda>_. Idle)(0 := Holding, 1 := Blocked 0, 2 := Checked)) 1)" by (simp add: fun_upd_idem)
  from reach_step [OF this sem_block [where g = 2]]
  have "?R (?sys 1 [0, 1] ((\<lambda>_. Idle)(0 := Holding, 1 := Blocked 0, 2 := Blocked 1)) 2)"
    by (simp add: acquire_section_def numeral_2_eq_2)
  then show ?thesis by (simp add: in_line_def sem_start_def)
qed

lemma line_in_line: "line (gate_of in_line) = [1, 2]"
proof -
  have ok: "chans_ok [0, 1] {} 2 (places in_line)"
    using sem_inv_acct [OF sem.inv_reachable [OF in_line_reachable]] by (simp add: acct_def in_line_def sem_start_def)
  have "owner (places in_line) 0 = 1" "owner (places in_line) 1 = 2"
    by (rule owner_eq [OF ok], simp add: in_line_def)+
  then show ?thesis by (simp add: gate_of_def gate_view_def) (simp add: in_line_def)
qed

definition let_in :: sem_sys where
  "let_in = in_line\<lparr>sem := \<lparr>limit = 3, active = 3, waiters = []\<rparr>, closed := {0, 1}, peak := 3\<rparr>"

lemma let_in_step: "sem_step in_line let_in"
proof -
  have "resize 3 (sem in_line) = (\<lparr>limit = 3, active = 3, waiters = []\<rparr>, [0, 1])"
    by (simp add: in_line_def resize_def notifyWaiters_unfold)
  from sem_resize [OF this] show ?thesis by (simp add: let_in_def in_line_def sem_start_def insert_commute)
qed

section \<open>Properties\<close>



text \<open>
  First come, first served: when a step lets a goroutine of the line in, it has let in everybody who stood before
  it, whoever gave up or was resized in between.
\<close>

theorem sem_first_come:
  assumes "reach (sem_init n) sem_step s" and "sem_step s t"
    and "line (gate_of s) = xs @ ys" and "h \<in> set ys" and "h \<in> inside (gate_of t)"
  shows "set xs \<subseteq> inside (gate_of t)"
proof -
  note ok = sem_gate_ok [OF assms(1)]
  from sem_step_gate [OF assms(2) sem.inv_reachable [OF assms(1)]] show ?thesis
  proof
    assume "gate_step False (gate_of s) (gate_of t)"
    from gate_fifo [OF this ok assms(3-5)] show ?thesis .
  next
    assume "gate_of t = gate_of s"
    with ok assms(3-5) show ?thesis by (auto simp: gate_ok_def)
  qed
qed

theorem sem_first_come_witness:
  "line (gate_of in_line) = [1] @ [2] \<and> 2 \<in> inside (gate_of let_in) \<and> set [1] \<subseteq> inside (gate_of let_in)"
proof -
  have l: "line (gate_of in_line) = [1] @ [2]" using line_in_line by simp
  have i: "2 \<in> inside (gate_of let_in)"
    by (simp add: gate_of_def gate_view_def has_slot_def let_in_def in_line_def)
  have "(2 :: nat) \<in> set [2]" by simp
  from sem_first_come [OF in_line_reachable let_in_step l this i] l i show ?thesis by blast
qed

end
