(* ===== verification/TryMutex.thy ===== *)
theory TryMutex
  imports Prelude
begin

text \<open>
  The contract of a lock that offers a non-blocking attempt and an unlock, as the locks of miyako
  are used: \<open>spinlock.SpinLock\<close> by the job manager and \<open>sync.Mutex\<close> by the key lock. The system
  \<open>mutex_step\<close> interleaves goroutines that call \<open>Lock\<close> (attempts until one succeeds), \<open>TryLock\<close>
  (one attempt) and \<open>Unlock\<close> (by the holder only), over any such lock; mutual exclusion is proved
  once for every lock that meets the contract.
\<close>

datatype mutex_place = Out | Spinning | Inside

record 's mutex_sys =
  word :: 's
  at :: "nat \<Rightarrow> mutex_place"

text \<open>
  \<open>mutex_call\<close>: a goroutine enters \<open>Lock\<close>. \<open>mutex_lock\<close> and \<open>mutex_again\<close>: one attempt of \<open>Lock\<close>.
  \<open>mutex_try\<close> and \<open>mutex_busy\<close>: the attempt of \<open>TryLock\<close>. \<open>mutex_unlock\<close>: the holder leaves.
\<close>

inductive mutex_step ::
  "('s \<Rightarrow> 's \<times> bool) \<Rightarrow> ('s \<Rightarrow> 's) \<Rightarrow> 's mutex_sys \<Rightarrow> 's mutex_sys \<Rightarrow> bool"
  for attempt :: "'s \<Rightarrow> 's \<times> bool" and unlock :: "'s \<Rightarrow> 's" where
  mutex_call: "at s g = Out \<Longrightarrow> mutex_step attempt unlock s (s\<lparr>at := (at s)(g := Spinning)\<rparr>)"
| mutex_lock: "at s g = Spinning \<Longrightarrow> attempt (word s) = (w, True) \<Longrightarrow>
    mutex_step attempt unlock s (s\<lparr>word := w, at := (at s)(g := Inside)\<rparr>)"
| mutex_again: "at s g = Spinning \<Longrightarrow> attempt (word s) = (w, False) \<Longrightarrow>
    mutex_step attempt unlock s (s\<lparr>word := w\<rparr>)"
| mutex_try: "at s g = Out \<Longrightarrow> attempt (word s) = (w, True) \<Longrightarrow>
    mutex_step attempt unlock s (s\<lparr>word := w, at := (at s)(g := Inside)\<rparr>)"
| mutex_busy: "at s g = Out \<Longrightarrow> attempt (word s) = (w, False) \<Longrightarrow>
    mutex_step attempt unlock s (s\<lparr>word := w\<rparr>)"
| mutex_unlock: "at s g = Inside \<Longrightarrow>
    mutex_step attempt unlock s (s\<lparr>word := unlock (word s), at := (at s)(g := Out)\<rparr>)"

definition mutex_start :: "'s \<Rightarrow> 's mutex_sys" where
  "mutex_start w = \<lparr>word = w, at = (\<lambda>_. Out)\<rparr>"

locale try_mutex =
  fixes locked :: "'s \<Rightarrow> bool"
    and attempt :: "'s \<Rightarrow> 's \<times> bool"
    and unlock :: "'s \<Rightarrow> 's"
  assumes attempt_free: "\<not> locked w \<Longrightarrow> snd (attempt w) \<and> locked (fst (attempt w))"
    and attempt_held: "locked w \<Longrightarrow> attempt w = (w, False)"
    and unlock_free: "\<not> locked (unlock w)"
begin

lemma attempt_iff: "snd (attempt w) \<longleftrightarrow> \<not> locked w"
  using attempt_free attempt_held by (metis snd_conv)

lemma attempt_locks: "locked (fst (attempt w))"
  using attempt_free attempt_held by (metis fst_conv)

definition mutex_inv :: "'s mutex_sys \<Rightarrow> bool" where
  "mutex_inv s \<longleftrightarrow> tracked Out (at s) \<and> cnt (\<lambda>p. p = Inside) (at s) = of_bool (locked (word s))"

lemma mutex_inv_step:
  assumes "mutex_inv s" and "mutex_step attempt unlock s t"
  shows "mutex_inv t"
  using assms(2,1)
proof (induction rule: mutex_step.induct)
  case (mutex_lock s g w)
  then have "\<not> locked (word s)" "locked w"
    using attempt_iff [of "word s"] attempt_locks [of "word s"] by auto
  with mutex_lock show ?case
    by (simp add: mutex_inv_def cnt_upd [where d = Out])
next
  case (mutex_again s g w)
  then have "locked (word s)" "w = word s"
    using attempt_iff [of "word s"] attempt_held [of "word s"] by auto
  with mutex_again show ?case
    by (simp add: mutex_inv_def)
next
  case (mutex_try s g w)
  then have "\<not> locked (word s)" "locked w"
    using attempt_iff [of "word s"] attempt_locks [of "word s"] by auto
  with mutex_try show ?case
    by (simp add: mutex_inv_def cnt_upd [where d = Out])
next
  case (mutex_busy s g w)
  then have "locked (word s)" "w = word s"
    using attempt_iff [of "word s"] attempt_held [of "word s"] by auto
  with mutex_busy show ?case
    by (simp add: mutex_inv_def)
next
  case (mutex_unlock s g)
  then have "0 < cnt (\<lambda>p. p = Inside) (at s)"
    using cnt_pos [of Out "at s" "\<lambda>p. p = Inside" g] by (simp add: mutex_inv_def)
  with mutex_unlock show ?case
    by (auto simp: mutex_inv_def cnt_upd [where d = Out] unlock_free)
qed (simp add: mutex_inv_def cnt_upd [where d = Out])

lemma mutex_inv_start: "\<not> locked w \<Longrightarrow> mutex_inv (mutex_start w)"
  by (simp add: mutex_inv_def mutex_start_def)

lemma mutex_inv_reach:
  assumes "reach ((=) (mutex_start w)) (mutex_step attempt unlock) s" and "\<not> locked w"
  shows "mutex_inv s"
  using assms by (induction rule: reach.induct) (auto intro: mutex_inv_start mutex_inv_step)

lemma mutex_exclusive:
  assumes "reach ((=) (mutex_start w)) (mutex_step attempt unlock) s" and "\<not> locked w"
    and "at s g = Inside"
  shows "locked (word s) \<and> (\<forall>h. at s h = Inside \<longrightarrow> h = g)"
proof -
  have inv: "mutex_inv s"
    by (rule mutex_inv_reach [OF assms(1,2)])
  then have tr: "tracked Out (at s)" and n: "cnt (\<lambda>p. p = Inside) (at s) = of_bool (locked (word s))"
    by (auto simp: mutex_inv_def)
  have "0 < cnt (\<lambda>p. p = Inside) (at s)"
    using cnt_pos [OF tr, of "\<lambda>p. p = Inside" g] assms(3) by simp
  with n have l: "locked (word s)"
    by (cases "locked (word s)") auto
  with n have "cnt (\<lambda>p. p = Inside) (at s) \<le> 1"
    by simp
  with l show ?thesis
    using cnt_le_one_unique [OF tr, of "\<lambda>p. p = Inside"] assms(3) by auto
qed

lemma mutex_free_progress:
  assumes "reach ((=) (mutex_start w)) (mutex_step attempt unlock) s" and "\<not> locked w"
    and "\<forall>h. at s h \<noteq> Inside"
  shows "\<not> locked (word s) \<and> snd (attempt (word s))"
proof -
  have "tracked Out (at s)" "cnt (\<lambda>p. p = Inside) (at s) = of_bool (locked (word s))"
    using mutex_inv_reach [OF assms(1,2)] by (auto simp: mutex_inv_def)
  with assms(3) have "of_bool (locked (word s)) = (0 :: int)"
    using cnt_zero_iff [of Out "at s" "\<lambda>p. p = Inside"] by simp
  then show ?thesis
    by (simp add: attempt_iff)
qed

end

section \<open>The lock of the language\<close>

text \<open>\<open>sync.Mutex\<close> as its users see it: locked or not. \<open>TryLock\<close> succeeds on a free mutex.\<close>

definition mu_attempt :: "bool \<Rightarrow> bool \<times> bool" where
  "mu_attempt b = (True, \<not> b)"

definition mu_unlock :: "bool \<Rightarrow> bool" where
  "mu_unlock b = False"

interpretation gomutex: try_mutex "\<lambda>b. b" mu_attempt mu_unlock
  by unfold_locales (auto simp: mu_attempt_def mu_unlock_def)

end
