(* ===== verification/Spinlock.thy ===== *)
theory Spinlock
  imports TryMutex
begin

text \<open>
  \<open>sync/spinlock/spinlock.go\<close>: a lock made of one 32-bit word and compare-and-swap. The word is
  kept at its width. \<open>Lock\<close> is the loop around \<open>tryLock\<close>; its iterations are the attempts of
  \<open>mutex_step\<close>. The theory discharges the contract \<open>try_mutex\<close>, from which mutual exclusion follows.
\<close>

type_synonym u32 = "32 word"

text \<open>\<open>atomic.CompareAndSwapUint32\<close>.\<close>

definition compareAndSwap :: "u32 \<Rightarrow> u32 \<Rightarrow> u32 \<Rightarrow> u32 \<times> bool" where
  "compareAndSwap w old new = (if w = old then (new, True) else (w, False))"

definition tryLock :: "u32 \<Rightarrow> u32 \<times> bool" where
  "tryLock state = compareAndSwap state 0 1"

definition unlock :: "u32 \<Rightarrow> u32" where
  "unlock state = 0"

text \<open>
  \<open>Lock\<close>: the \<open>i\<close>-th iteration finds the word \<open>seen i\<close> (other goroutines may have written it in
  between). The result is the word it leaves and the number of iterations, \<open>None\<close> when \<open>fuel\<close>
  iterations did not take the lock.
\<close>

fun lock_loop :: "nat \<Rightarrow> (nat \<Rightarrow> u32) \<Rightarrow> nat \<Rightarrow> (u32 \<times> nat) option" where
  "lock_loop 0 seen i = None"
| "lock_loop (Suc fuel) seen i =
     (case tryLock (seen i) of
        (w, True) \<Rightarrow> Some (w, Suc i)
      | (w, False) \<Rightarrow> lock_loop fuel seen (Suc i))"

lemma tryLock_simps [simp]:
  "tryLock 0 = (1, True)" "w \<noteq> 0 \<Longrightarrow> tryLock w = (w, False)"
  by (auto simp: tryLock_def compareAndSwap_def)

interpretation spin: try_mutex "\<lambda>w. w \<noteq> 0" tryLock unlock
  by unfold_locales (auto simp: unlock_def)

lemma lock_loop_busy: "(\<forall>j < n. seen (i + j) \<noteq> 0) \<Longrightarrow> lock_loop (n + m) seen i = lock_loop m seen (i + n)"
proof (induction n arbitrary: i)
  case 0
  then show ?case by simp
next
  case (Suc n)
  from Suc.prems have "seen i \<noteq> 0"
    by (metis add_0_right zero_less_Suc)
  moreover have "\<forall>j < n. seen (Suc i + j) \<noteq> 0"
    using Suc.prems by (metis Suc_less_eq add_Suc_right add_Suc)
  ultimately show ?case
    using Suc.IH [of "Suc i"] by simp
qed

text \<open>mutual exclusion of the spin lock. In every reachable interleaving of \<open>Lock\<close>,
  \<open>TryLock\<close> and \<open>Unlock\<close> by the holder, starting from the zero value, at most one goroutine is
  inside, the word is then non-zero, and every further attempt fails and leaves the word alone.\<close>

theorem spin_mutual_exclusion:
  assumes "reach ((=) (mutex_start 0)) (mutex_step tryLock unlock) s" and "at s g = Inside"
  shows "(\<forall>h. at s h = Inside \<longrightarrow> h = g) \<and> tryLock (word s) = (word s, False)"
  using spin.mutex_exclusive [OF assms(1) _ assms(2)] by simp

theorem spin_mutual_exclusion_witness:
  "reach ((=) (mutex_start 0)) (mutex_step tryLock unlock) ((mutex_start 0)\<lparr>word := 1, at := (\<lambda>_. Out)(0 := Inside)\<rparr>)
   \<and> tryLock 1 = (1, False)"
proof -
  let ?s = "(mutex_start 0)\<lparr>word := 1, at := (\<lambda>_. Out)(0 := Inside)\<rparr>"
  have "mutex_step tryLock unlock (mutex_start 0) ?s"
    using mutex_try [of "mutex_start 0" 0 tryLock 1 unlock] by (simp add: mutex_start_def)
  then have r: "reach ((=) (mutex_start 0)) (mutex_step tryLock unlock) ?s"
    by (rule reach_one)
  from spin_mutual_exclusion [OF r, of 0] have "tryLock 1 = (1, False)"
    by simp
  with r show ?thesis by (rule conjI)
qed

text \<open>\<open>Lock\<close> returns. If the word is observed free at iteration \<open>n\<close> for the first
  time, \<open>n + 1\<close> iterations are enough, \<open>Lock\<close> stops exactly there and leaves the word locked.\<close>

theorem spin_lock_returns:
  assumes "seen n = 0" and "\<And>j. j < n \<Longrightarrow> seen j \<noteq> 0" and "n < fuel"
  shows "lock_loop fuel seen 0 = Some (1, Suc n)"
proof -
  obtain m where "fuel = n + Suc m"
    using assms(3) less_imp_Suc_add by auto
  then show ?thesis
    using assms(1,2) lock_loop_busy [of n seen 0 "Suc m"] by simp
qed

theorem spin_lock_returns_witness:
  "lock_loop 3 (\<lambda>i. if i < 2 then 1 else 0) 0 = Some (1, 3)"
  using spin_lock_returns [of "\<lambda>i. if i < 2 then 1 else 0" 2 3] by simp

end
