(* ===== verification/Lifecycle.thy ===== *)
theory Lifecycle
  imports Prelude
begin

text \<open>
  \<open>lifecycle/lifecycle.go\<close>: registration of services, the depth-first topological sort of their
  declared dependencies, and initialisation, start with rollback and stop in that order.

  A service is a record of its name, its dependencies (\<open>None\<close> when it does not implement
  \<open>Dependent\<close>) and its three calls, which act on an arbitrary world \<open>'w\<close> and may return an error.
  Go iterates over the map of services in an unspecified order: that order is the argument
  \<open>order\<close>. The recursion of \<open>visit\<close> is bounded by a fuel of one more than the number of services,
  which is proved to be enough: \<open>OutOfFuel\<close> is never returned.
\<close>

section \<open>Services and the orchestrator\<close>

record ('c, 'w, 'e) service =
  name :: string
  dependencies :: "string list option"
  init_fn :: "'c go_ctx \<Rightarrow> 'w \<Rightarrow> 'e option \<times> 'w"
  start_fn :: "'c go_ctx \<Rightarrow> 'w \<Rightarrow> 'e option \<times> 'w"
  stop_fn :: "'c go_ctx \<Rightarrow> 'w \<Rightarrow> 'e option \<times> 'w"

record ('c, 'w, 'e) orchestrator =
  services :: "string \<rightharpoonup> ('c, 'w, 'e) service"
  ordered :: "('c, 'w, 'e) service list"
  running :: "('c, 'w, 'e) service list"
  started :: bool

datatype sort_error = Circular string | NotRegistered string | OutOfFuel

datatype 'e lifecycle_error =
  Resolution sort_error | InitFailed string 'e | StartFailed string 'e

definition newOrchestrator :: "('c, 'w, 'e) orchestrator" where
  "newOrchestrator = \<lparr>services = Map.empty, ordered = [], running = [], started = False\<rparr>"

text \<open>\<open>All\<close> lists the services in the order in which Go iterates the map.\<close>

definition allServices :: "string list \<Rightarrow> ('c, 'w, 'e) orchestrator \<Rightarrow> ('c, 'w, 'e) service list" where
  "allServices order orc = List.map_filter (services orc) order"

definition register :: "('c, 'w, 'e) service \<Rightarrow> ('c, 'w, 'e) orchestrator \<Rightarrow> ('c, 'w, 'e) orchestrator" where
  "register s orc = orc\<lparr>services := (services orc)(name s \<mapsto> s)\<rparr>"

definition deps_of :: "('c, 'w, 'e) service \<Rightarrow> string list" where
  "deps_of s = (case dependencies s of None \<Rightarrow> [] | Some ds \<Rightarrow> ds)"

section \<open>The topological sort\<close>

record ('c, 'w, 'e) visit_state =
  visited :: "string \<Rightarrow> bool"
  temp :: "string \<Rightarrow> bool"
  sorted_svcs :: "('c, 'w, 'e) service list"

text \<open>A loop over a list whose body may return early with an error.\<close>

fun each :: "('a \<Rightarrow> 's \<Rightarrow> 'e + 's) \<Rightarrow> 'a list \<Rightarrow> 's \<Rightarrow> 'e + 's" where
  "each f [] st = Inr st"
| "each f (x # xs) st = (case f x st of Inl e \<Rightarrow> Inl e | Inr st' \<Rightarrow> each f xs st')"

primrec visit ::
  "nat \<Rightarrow> (string \<rightharpoonup> ('c, 'w, 'e) service) \<Rightarrow> string \<Rightarrow> ('c, 'w, 'e) visit_state \<Rightarrow>
   sort_error + ('c, 'w, 'e) visit_state" where
  "visit 0 S x st = Inl OutOfFuel"
| "visit (Suc fuel) S x st =
     (if temp st x then Inl (Circular x)
      else if \<not> visited st x then
        (case S x of
           None \<Rightarrow> Inl (NotRegistered x)
         | Some s \<Rightarrow>
             (case each (visit fuel S) (deps_of s) (st\<lparr>temp := (temp st)(x := True)\<rparr>) of
                Inl e \<Rightarrow> Inl e
              | Inr st' \<Rightarrow> Inr (st'\<lparr>temp := (temp st')(x := False),
                  visited := (visited st')(x := True), sorted_svcs := sorted_svcs st' @ [s]\<rparr>)))
      else Inr st)"

declare visit.simps(2) [simp del]

lemmas visit_unfold = visit.simps(2)

definition visit_start :: "('c, 'w, 'e) visit_state" where
  "visit_start = \<lparr>visited = (\<lambda>_. False), temp = (\<lambda>_. False), sorted_svcs = []\<rparr>"

definition sortDependencies ::
  "(string \<rightharpoonup> ('c, 'w, 'e) service) \<Rightarrow> string list \<Rightarrow> sort_error + ('c, 'w, 'e) service list" where
  "sortDependencies S order =
     (case each (\<lambda>x st. if \<not> visited st x then visit (Suc (length order)) S x st else Inr st)
             order visit_start of
        Inl e \<Rightarrow> Inl e
      | Inr st \<Rightarrow> Inr (sorted_svcs st))"

section \<open>Lifecycle operations\<close>

fun init_loop ::
  "'c go_ctx \<Rightarrow> ('c, 'w, 'e) service list \<Rightarrow> 'w \<Rightarrow> 'e lifecycle_error option \<times> 'w" where
  "init_loop ctx [] w = (None, w)"
| "init_loop ctx (s # ss) w =
     (case init_fn s ctx w of
        (Some e, w') \<Rightarrow> (Some (InitFailed (name s) e), w')
      | (None, w') \<Rightarrow> init_loop ctx ss w')"

definition initAll ::
  "string list \<Rightarrow> 'c go_ctx \<Rightarrow> ('c, 'w, 'e) orchestrator \<Rightarrow> 'w \<Rightarrow>
   'e lifecycle_error option \<times> ('c, 'w, 'e) orchestrator \<times> 'w" where
  "initAll order ctx orc w =
     (case sortDependencies (services orc) order of
        Inl e \<Rightarrow> (Some (Resolution e), orc, w)
      | Inr ord \<Rightarrow>
          (let orc' = orc\<lparr>ordered := ord\<rparr>; (err, w') = init_loop ctx ord w in (err, orc', w')))"

text \<open>\<open>stopRunning\<close>: the running services from the last to the first, errors ignored.\<close>

fun stop_loop :: "'c go_ctx \<Rightarrow> ('c, 'w, 'e) service list \<Rightarrow> 'w \<Rightarrow> 'w" where
  "stop_loop ctx [] w = w"
| "stop_loop ctx (s # ss) w = stop_loop ctx ss (snd (stop_fn s ctx w))"

definition stopRunning ::
  "'c go_ctx \<Rightarrow> ('c, 'w, 'e) orchestrator \<Rightarrow> 'w \<Rightarrow> ('c, 'w, 'e) orchestrator \<times> 'w" where
  "stopRunning ctx orc w = (orc\<lparr>running := []\<rparr>, stop_loop ctx (rev (running orc)) w)"

fun start_loop ::
  "'c go_ctx \<Rightarrow> ('c, 'w, 'e) service list \<Rightarrow> ('c, 'w, 'e) orchestrator \<Rightarrow> 'w \<Rightarrow>
   'e lifecycle_error option \<times> ('c, 'w, 'e) orchestrator \<times> 'w" where
  "start_loop ctx [] orc w = (None, orc\<lparr>started := True\<rparr>, w)"
| "start_loop ctx (s # ss) orc w =
     (case start_fn s ctx w of
        (Some e, w') \<Rightarrow>
          (let (orc', w'') = stopRunning Background orc w' in (Some (StartFailed (name s) e), orc', w''))
      | (None, w') \<Rightarrow> start_loop ctx ss (orc\<lparr>running := running orc @ [s]\<rparr>) w')"

definition startAll ::
  "'c go_ctx \<Rightarrow> ('c, 'w, 'e) orchestrator \<Rightarrow> 'w \<Rightarrow>
   'e lifecycle_error option \<times> ('c, 'w, 'e) orchestrator \<times> 'w" where
  "startAll ctx orc w =
     (if started orc then (None, orc, w) else start_loop ctx (ordered orc) orc w)"

definition stopAll ::
  "'c go_ctx \<Rightarrow> ('c, 'w, 'e) orchestrator \<Rightarrow> 'w \<Rightarrow> ('c, 'w, 'e) orchestrator \<times> 'w" where
  "stopAll ctx orc w = (let (orc', w') = stopRunning ctx orc w in (orc'\<lparr>started := False\<rparr>, w'))"

section \<open>Correctness of the sort\<close>

text \<open>The dependency relation, the registry's own invariant, and what a sorted list is.\<close>

definition edges :: "(string \<rightharpoonup> ('c, 'w, 'e) service) \<Rightarrow> (string \<times> string) set" where
  "edges S = {(x, d). \<exists>s. S x = Some s \<and> d \<in> set (deps_of s)}"

definition keyed :: "(string \<rightharpoonup> ('c, 'w, 'e) service) \<Rightarrow> bool" where
  "keyed S \<longleftrightarrow> (\<forall>x s. S x = Some s \<longrightarrow> name s = x)"

fun topo :: "('c, 'w, 'e) service list \<Rightarrow> bool" where
  "topo [] \<longleftrightarrow> True"
| "topo (s # ss) \<longleftrightarrow> set (deps_of s) \<subseteq> name ` set ss \<and> topo ss"

definition sorted_ok :: "(string \<rightharpoonup> ('c, 'w, 'e) service) \<Rightarrow> ('c, 'w, 'e) visit_state \<Rightarrow> bool" where
  "sorted_ok S st \<longleftrightarrow>
     (\<forall>x. visited st x \<longleftrightarrow> x \<in> name ` set (sorted_svcs st)) \<and> distinct (map name (sorted_svcs st)) \<and>
     (\<forall>s \<in> set (sorted_svcs st). S (name s) = Some s) \<and> topo (rev (sorted_svcs st))"

text \<open>How one \<open>visit\<close> (or a loop of them) extends the state when it succeeds.\<close>

definition extends :: "('c, 'w, 'e) visit_state \<Rightarrow> ('c, 'w, 'e) visit_state \<Rightarrow> bool" where
  "extends st st' \<longleftrightarrow> temp st' = temp st \<and>
     (\<exists>ext. sorted_svcs st' = sorted_svcs st @ ext \<and> (\<forall>s \<in> set ext. \<not> temp st (name s)))"

lemma extends_refl: "extends st st"
  by (simp add: extends_def)

lemma extends_trans: "extends s t \<Longrightarrow> extends t u \<Longrightarrow> extends s u"
  by (auto simp: extends_def)

lemma extends_names: "extends st st' \<Longrightarrow> name ` set (sorted_svcs st) \<subseteq> name ` set (sorted_svcs st')"
  by (auto simp: extends_def)

text \<open>The loop inherits a property of its body, with the elements it has gone through.\<close>

lemma each_extends:
  assumes "each f xs st = Inr st'" and "sorted_ok S st"
    and "\<And>x st st'. x \<in> set xs \<Longrightarrow> f x st = Inr st' \<Longrightarrow> sorted_ok S st \<Longrightarrow>
           sorted_ok S st' \<and> extends st st' \<and> x \<in> name ` set (sorted_svcs st')"
  shows "sorted_ok S st' \<and> extends st st' \<and> set xs \<subseteq> name ` set (sorted_svcs st')"
  using assms
proof (induction xs arbitrary: st)
  case Nil
  then show ?case by (simp add: extends_refl)
next
  case (Cons x xs)
  then obtain st1 where f: "f x st = Inr st1" and rest: "each f xs st1 = Inr st'"
    by (auto split: sum.splits)
  have 1: "sorted_ok S st1 \<and> extends st st1 \<and> x \<in> name ` set (sorted_svcs st1)"
    using Cons.prems(3) [OF _ f Cons.prems(2)] by simp
  have 2: "sorted_ok S st' \<and> extends st1 st' \<and> set xs \<subseteq> name ` set (sorted_svcs st')"
  proof (rule Cons.IH [OF rest])
    show "sorted_ok S st1" using 1 by blast
    show "sorted_ok S t' \<and> extends t t' \<and> y \<in> name ` set (sorted_svcs t')"
      if "y \<in> set xs" "f y t = Inr t'" "sorted_ok S t" for y t t'
      using Cons.prems(3) [OF _ that(2,3)] that(1) by simp
  qed
  from 2 have "name ` set (sorted_svcs st1) \<subseteq> name ` set (sorted_svcs st')"
    using extends_names by blast
  with 1 2 show ?case
    using extends_trans [of st st1 st'] by auto
qed

lemma visit_success:
  assumes "keyed S"
  shows "visit n S x st = Inr st' \<Longrightarrow> sorted_ok S st \<Longrightarrow>
    sorted_ok S st' \<and> extends st st' \<and> x \<in> name ` set (sorted_svcs st')"
proof (induction n arbitrary: x st st')
  case 0
  then show ?case by simp
next
  case (Suc n)
  show ?case
  proof (cases "visited st x")
    case True
    with Suc.prems show ?thesis
      by (auto simp: visit_unfold extends_refl sorted_ok_def split: if_splits)
  next
    case False
    let ?st1 = "st\<lparr>temp := (temp st)(x := True)\<rparr>"
    from False Suc.prems(1) obtain s st2 where s: "S x = Some s" and nt: "\<not> temp st x"
      and each: "each (visit n S) (deps_of s) ?st1 = Inr st2"
      and st': "st' = st2\<lparr>temp := (temp st2)(x := False),
        visited := (visited st2)(x := True), sorted_svcs := sorted_svcs st2 @ [s]\<rparr>"
      by (auto simp: visit_unfold split: if_splits option.splits sum.splits)
    have "sorted_ok S ?st1"
      using Suc.prems(2) by (simp add: sorted_ok_def)
    then have 2: "sorted_ok S st2" "extends ?st1 st2" "set (deps_of s) \<subseteq> name ` set (sorted_svcs st2)"
      using each_extends [OF each] Suc.IH by blast+
    have nm: "name s = x"
      using s assms by (auto simp: keyed_def)
    from 2(2) obtain ext where ext: "sorted_svcs st2 = sorted_svcs st @ ext"
      "\<forall>s \<in> set ext. \<not> temp ?st1 (name s)" and tm: "temp st2 = temp ?st1"
      by (auto simp: extends_def)
    have ext': "\<not> temp st (name u)" if "u \<in> set ext" for u
      using ext(2) that by (auto split: if_splits)
    have "x \<notin> name ` set (sorted_svcs st2)"
      using ext False Suc.prems(2) by (auto simp: sorted_ok_def)
    then have "sorted_ok S st'"
      using 2 s nm by (auto simp: st' sorted_ok_def)
    moreover have "extends st st'"
      using ext(1) ext' tm nt nm by (auto simp: extends_def st' fun_upd_idem)
    ultimately show ?thesis
      using nm by (auto simp: st')
  qed
qed

text \<open>Why a visit fails: a cycle through the reported name, or an unregistered dependency.\<close>

definition blames :: "(string \<rightharpoonup> ('c, 'w, 'e) service) \<Rightarrow> string set \<Rightarrow> sort_error \<Rightarrow> bool" where
  "blames S roots e \<longleftrightarrow> (case e of
     Circular y \<Rightarrow> (y, y) \<in> (edges S)\<^sup>+
   | NotRegistered y \<Rightarrow> S y = None \<and> (y \<in> roots \<or> (\<exists>x. (x, y) \<in> edges S))
   | OutOfFuel \<Rightarrow> False)"

lemma each_failure:
  assumes "each f xs st = Inl e" and "I st"
    and "\<And>x st st'. x \<in> set xs \<Longrightarrow> f x st = Inr st' \<Longrightarrow> I st \<Longrightarrow> I st'"
    and "\<And>x st. x \<in> set xs \<Longrightarrow> f x st = Inl e \<Longrightarrow> I st \<Longrightarrow> Q"
  shows "Q"
  using assms
proof (induction xs arbitrary: st)
  case Nil
  then show ?case by simp
next
  case (Cons x xs)
  show ?case
  proof (cases "f x st")
    case (Inl e')
    with Cons.prems(1) have "f x st = Inl e" by simp
    then show ?thesis
      using Cons.prems(4) [of x st] Cons.prems(2) by simp
  next
    case (Inr st1)
    with Cons.prems(1) have each: "each f xs st1 = Inl e" by simp
    have "I st1"
      using Cons.prems(3) [OF _ Inr Cons.prems(2)] by simp
    then show ?thesis
    proof (rule Cons.IH [OF each])
      show "I t'" if "y \<in> set xs" "f y t = Inr t'" "I t" for y t t'
        using Cons.prems(3) [OF _ that(2,3)] that(1) by simp
      show Q if "y \<in> set xs" "f y t = Inl e" "I t" for y t
        using Cons.prems(4) [OF _ that(2,3)] that(1) by simp
    qed
  qed
qed

lemma visit_keeps_temp: "visit n S x st = Inr st' \<Longrightarrow> temp st' = temp st"
proof (induction n arbitrary: x st st')
  case 0
  then show ?case by simp
next
  case (Suc n)
  have each_temp: "each (visit n S) ds st1 = Inr st2 \<Longrightarrow> temp st2 = temp st1" for ds st1 st2
    using Suc.IH by (induction ds arbitrary: st1) (auto split: sum.splits)
  from Suc.prems show ?case
    by (auto dest!: each_temp simp: visit_unfold fun_upd_idem split: if_splits option.splits sum.splits)
qed

lemma visit_failure:
  assumes "finite (dom S)"
  shows "visit n S x st = Inl e \<Longrightarrow> (\<forall>t. temp st t \<longrightarrow> (t, x) \<in> (edges S)\<^sup>+) \<Longrightarrow>
    card (dom S - {t. temp st t}) < n \<Longrightarrow> blames S {x} e"
proof (induction n arbitrary: x st)
  case 0
  then show ?case by simp
next
  case (Suc n)
  consider (cyc) "temp st x" "e = Circular x"
    | (reg) "\<not> temp st x" "S x = None" "e = NotRegistered x"
    | (dep) s where "\<not> temp st x" "S x = Some s"
        "each (visit n S) (deps_of s) (st\<lparr>temp := (temp st)(x := True)\<rparr>) = Inl e"
    using Suc.prems(1) by (auto simp: visit_unfold split: if_splits option.splits sum.splits)
  then show ?case
  proof cases
    case cyc
    with Suc.prems(2) show ?thesis by (simp add: blames_def)
  next
    case reg
    then show ?thesis by (simp add: blames_def)
  next
    case dep
    let ?T = "\<lambda>st'. temp st' = (temp st)(x := True)"
    have "dom S - {t. ((temp st)(x := True)) t} \<subset> dom S - {t. temp st t}"
      using dep by auto
    then have less: "card (dom S - {t. ((temp st)(x := True)) t}) < card (dom S - {t. temp st t})"
      using assms by (intro psubset_card_mono) auto
    show ?thesis
    proof (rule each_failure [OF dep(3), where I = ?T])
      fix d st'
      assume d: "d \<in> set (deps_of s)" and f: "visit n S d st' = Inl e" and T: "?T st'"
      have edge: "(x, d) \<in> edges S"
        using dep(2) d by (auto simp: edges_def)
      then have "\<forall>t. temp st' t \<longrightarrow> (t, d) \<in> (edges S)\<^sup>+"
        using Suc.prems(2) T by (auto intro: trancl_into_trancl)
      moreover have "card (dom S - {t. temp st' t}) < n"
        using less Suc.prems(3) T by simp
      ultimately have "blames S {d} e"
        using Suc.IH [OF f] by simp
      with edge show "blames S {x} e"
        by (auto simp: blames_def split: sort_error.splits)
    qed (auto dest: visit_keeps_temp)
  qed
qed

text \<open>The whole sort, over any order in which the map is iterated.\<close>

lemma sort_success:
  assumes "keyed S" and "set order = dom S" and "sortDependencies S order = Inr l"
  shows "distinct (map name l) \<and> set l = ran S \<and> topo (rev l)"
proof -
  let ?f = "\<lambda>x st. if \<not> visited st x then visit (Suc (length order)) S x st else Inr st"
  from assms(3) obtain st where each: "each ?f order visit_start = Inr st" and l: "l = sorted_svcs st"
    by (auto simp: sortDependencies_def split: sum.splits)
  have start: "sorted_ok S visit_start"
    by (simp add: sorted_ok_def visit_start_def)
  have "sorted_ok S st \<and> extends visit_start st \<and> set order \<subseteq> name ` set (sorted_svcs st)"
  proof (rule each_extends [OF each start])
    fix x st st'
    assume "?f x st = Inr st'" and "sorted_ok S st"
    then show "sorted_ok S st' \<and> extends st st' \<and> x \<in> name ` set (sorted_svcs st')"
      using visit_success [OF assms(1), of "Suc (length order)" x st st']
      by (auto simp: extends_refl sorted_ok_def split: if_splits)
  qed
  then have ok: "sorted_ok S st" and all: "dom S \<subseteq> name ` set l"
    using assms(2) l by auto
  have "set l = ran S"
  proof (intro set_eqI iffI)
    fix s
    assume "s \<in> set l"
    then show "s \<in> ran S"
      using ok l by (auto simp: sorted_ok_def intro: ranI)
  next
    fix s
    assume "s \<in> ran S"
    then obtain x where x: "S x = Some s"
      by (auto simp: ran_def)
    then obtain u where "u \<in> set l" and "name u = x"
      using all by auto
    then show "s \<in> set l"
      using ok l x by (auto simp: sorted_ok_def)
  qed
  with ok l show ?thesis
    by (simp add: sorted_ok_def)
qed

lemma sort_failure:
  assumes "set order = dom S" and "sortDependencies S order = Inl e"
  shows "blames S {} e"
proof -
  let ?f = "\<lambda>x st. if \<not> visited st x then visit (Suc (length order)) S x st else Inr st"
  have fin: "finite (dom S)"
    using assms(1) by (metis List.finite_set)
  have "card (dom S) \<le> length order"
    using assms(1) card_length [of order] by simp
  then have fuel: "card (dom S - {t. temp st t}) < Suc (length order)" for st :: "('a, 'b, 'c) visit_state"
    using card_mono [OF fin, of "dom S - {t. temp st t}"] by fastforce
  from assms(2) have each: "each ?f order visit_start = Inl e"
    by (auto simp: sortDependencies_def split: sum.splits)
  show ?thesis
  proof (rule each_failure [OF each, where I = "\<lambda>st. \<forall>t. \<not> temp st t"])
    fix x st
    assume x: "x \<in> set order" and f: "?f x st = Inl e" and T: "\<forall>t. \<not> temp st t"
    then have "visit (Suc (length order)) S x st = Inl e"
      by (auto split: if_splits)
    then have "blames S {x} e"
      using visit_failure [OF fin _ _ fuel] T by blast
    moreover have "x \<in> dom S"
      using x assms(1) by simp
    ultimately show "blames S {} e"
      by (auto simp: blames_def split: sort_error.splits)
  next
    fix x st st'
    assume "?f x st = Inr st'" and "\<forall>t. \<not> temp st t"
    then show "\<forall>t. \<not> temp st' t"
      by (auto dest: visit_keeps_temp split: if_splits)
  qed (simp add: visit_start_def)
qed

text \<open>A list in topological order leaves no room for a cycle.\<close>

lemma trancl_closed: "(x, y) \<in> R\<^sup>+ \<Longrightarrow> R `` A \<subseteq> A \<Longrightarrow> x \<in> A \<Longrightarrow> y \<in> A"
  by (induction rule: trancl_induct) auto

lemma topo_edges:
  "topo l \<Longrightarrow> \<forall>s \<in> set l. S (name s) = Some s \<Longrightarrow> edges S `` (name ` set l) \<subseteq> name ` set l"
  by (induction l) (auto simp: edges_def Image_def)

lemma topo_acyclic:
  "topo l \<Longrightarrow> distinct (map name l) \<Longrightarrow> \<forall>s \<in> set l. S (name s) = Some s \<Longrightarrow>
   x \<in> name ` set l \<Longrightarrow> (x, x) \<notin> (edges S)\<^sup>+"
proof (induction l)
  case Nil
  then show ?case by simp
next
  case (Cons s l)
  then have closed: "edges S `` (name ` set l) \<subseteq> name ` set l"
    using topo_edges [of l S] by simp
  show ?case
  proof (cases "x \<in> name ` set l")
    case True
    with Cons show ?thesis by simp
  next
    case False
    with Cons.prems have x: "x = name s" by auto
    show ?thesis
    proof
      assume "(x, x) \<in> (edges S)\<^sup>+"
      then obtain d where d: "(x, d) \<in> edges S" "d = x \<or> (d, x) \<in> (edges S)\<^sup>+"
        by (metis tranclD rtranclD)
      with x Cons.prems have "d \<in> name ` set l"
        by (auto simp: edges_def)
      with d False trancl_closed [OF _ closed] show False
        by blast
    qed
  qed
qed

text \<open>The same order, read by positions: a service comes after all its dependencies.\<close>

lemma topo_rev_nth:
  "topo (rev l) \<Longrightarrow> i < length l \<Longrightarrow> set (deps_of (l ! i)) \<subseteq> name ` set (take i l)"
proof (induction l rule: rev_induct)
  case Nil
  then show ?case by simp
next
  case (snoc s l)
  then show ?case
    by (cases "i < length l") (auto simp: nth_append less_Suc_eq)
qed

lemma topo_nth: "topo l \<Longrightarrow> i < length l \<Longrightarrow> set (deps_of (l ! i)) \<subseteq> name ` set (drop (Suc i) l)"
proof (induction l arbitrary: i)
  case Nil
  then show ?case by simp
next
  case (Cons s l)
  then show ?case by (cases i) auto
qed

lemma topo_rev_snd: "topo (rev l) \<Longrightarrow> s \<in> set l \<Longrightarrow> set (deps_of s) \<subseteq> name ` set l"
  by (induction l rule: rev_induct) auto

lemma keyed_register: "keyed (services orc) \<Longrightarrow> keyed (services (register s orc))"
  by (simp add: keyed_def register_def)

lemma keyed_new: "keyed (services newOrchestrator)"
  by (simp add: keyed_def newOrchestrator_def)

lemma keyed_fold_register: "keyed (services orc) \<Longrightarrow> keyed (services (fold register ss orc))"
  by (induction ss arbitrary: orc) (auto intro: keyed_register)

section \<open>Start, rollback and stop\<close>

text \<open>The world after starting a list of services, if every \<open>Start\<close> returns \<open>nil\<close>.\<close>

fun starts :: "'c go_ctx \<Rightarrow> ('c, 'w, 'e) service list \<Rightarrow> 'w \<Rightarrow> 'w option" where
  "starts ctx [] w = Some w"
| "starts ctx (s # ss) w =
     (case start_fn s ctx w of (Some e, w') \<Rightarrow> None | (None, w') \<Rightarrow> starts ctx ss w')"

lemma start_loop_success:
  "starts ctx ss w = Some w' \<Longrightarrow>
   start_loop ctx ss orc w = (None, orc\<lparr>running := running orc @ ss, started := True\<rparr>, w')"
  by (induction ss arbitrary: orc w) (auto split: prod.splits option.splits)

lemma start_loop_failure:
  assumes "starts ctx ss w = None"
  shows "\<exists>pre s rest w1 e w2. ss = pre @ s # rest \<and> starts ctx pre w = Some w1 \<and>
    start_fn s ctx w1 = (Some e, w2) \<and>
    start_loop ctx ss orc w = (Some (StartFailed (name s) e), orc\<lparr>running := []\<rparr>,
      stop_loop Background (rev (running orc @ pre)) w2)"
  using assms
proof (induction ss arbitrary: orc w)
  case Nil
  then show ?case by simp
next
  case (Cons s ss)
  obtain err w' where st: "start_fn s ctx w = (err, w')"
    by fastforce
  show ?case
  proof (cases err)
    case (Some e)
    with st show ?thesis
      by (intro exI [of _ "[]"]) (auto simp: stopRunning_def)
  next
    case None
    let ?orc = "orc\<lparr>running := running orc @ [s]\<rparr>"
    from Cons.prems None st have "starts ctx ss w' = None" by simp
    from Cons.IH [OF this, of ?orc] obtain pre u rest w1 e w2 where ih: "ss = pre @ u # rest"
      "starts ctx pre w' = Some w1" "start_fn u ctx w1 = (Some e, w2)"
      "start_loop ctx ss ?orc w' = (Some (StartFailed (name u) e), ?orc\<lparr>running := []\<rparr>,
         stop_loop Background (rev (running ?orc @ pre)) w2)"
      by blast
    show ?thesis
      by (intro exI [of _ "s # pre"] exI [of _ u] exI [of _ rest] exI [of _ w1] exI [of _ e] exI [of _ w2])
        (use ih None st in simp)
  qed
qed

section \<open>Properties\<close>

text \<open>C1 (functional): a successful dependency sort lists every registered service exactly once, each
  one after all of its dependencies, whatever order Go iterates the map of services in.\<close>

theorem lifecycle_sort_sound:
  assumes "keyed S" and "set order = dom S" and "sortDependencies S order = Inr l"
  shows "distinct (map name l) \<and> set l = ran S \<and>
    (\<forall>i < length l. set (deps_of (l ! i)) \<subseteq> name ` set (take i l))"
  using sort_success [OF assms] topo_rev_nth by blast

definition demo_svc :: "string \<Rightarrow> string list \<Rightarrow> (unit, string list, string) service" where
  "demo_svc n ds = \<lparr>name = n, dependencies = Some ds,
     init_fn = (\<lambda>_ w. (None, w @ [''init '' @ n])), start_fn = (\<lambda>_ w. (None, w @ [''start '' @ n])),
     stop_fn = (\<lambda>_ w. (None, w @ [''stop '' @ n]))\<rparr>"

theorem lifecycle_sort_sound_witness:
  "sortDependencies [''api'' \<mapsto> demo_svc ''api'' [''db''], ''db'' \<mapsto> demo_svc ''db'' []] [''api'', ''db'']
     = Inr [demo_svc ''db'' [], demo_svc ''api'' [''db'']]
   \<and> distinct (map name [demo_svc ''db'' [], demo_svc ''api'' [''db'']])"
proof -
  let ?S = "[''api'' \<mapsto> demo_svc ''api'' [''db''], ''db'' \<mapsto> demo_svc ''db'' []]"
  let ?l = "[demo_svc ''db'' [], demo_svc ''api'' [''db'']]"
  have k: "keyed ?S"
    by (simp add: keyed_def demo_svc_def)
  have d: "set [''api'', ''db''] = dom ?S"
    by auto
  have s: "sortDependencies ?S [''api'', ''db''] = Inr ?l"
    by (simp add: sortDependencies_def visit_start_def visit_unfold deps_of_def demo_svc_def
        numeral_2_eq_2)
  from s lifecycle_sort_sound [OF k d s] show ?thesis by blast
qed

text \<open>the sort succeeds exactly when the declared dependencies have no cycle and are
  all registered; in particular the recursion never runs out of its bound.\<close>

theorem lifecycle_sort_complete:
  assumes "keyed S" and "set order = dom S"
  shows "(\<exists>l. sortDependencies S order = Inr l) \<longleftrightarrow> acyclic (edges S) \<and> snd ` edges S \<subseteq> dom S"
proof
  assume "\<exists>l. sortDependencies S order = Inr l"
  then obtain l where l: "distinct (map name l)" "set l = ran S" "topo (rev l)"
    using sort_success [OF assms] by blast
  have reg: "\<forall>s \<in> set (rev l). S (name s) = Some s"
    using l(2) assms(1) by (auto simp: ran_def keyed_def)
  have src: "x \<in> name ` set (rev l)" if "(x, d) \<in> edges S" for x d
    using that l(2) assms(1) by (auto simp: edges_def keyed_def ran_def intro!: image_eqI)
  have "acyclic (edges S)"
    unfolding acyclic_def
  proof
    fix x
    show "(x, x) \<notin> (edges S)\<^sup>+"
    proof
      assume cyc: "(x, x) \<in> (edges S)\<^sup>+"
      then have "x \<in> name ` set (rev l)"
        using src by (metis tranclD)
      moreover have "distinct (map name (rev l))"
        using l(1) by (simp add: rev_map [symmetric])
      ultimately show False
        using topo_acyclic [OF l(3) _ reg] cyc by blast
    qed
  qed
  moreover have reg_dep: "d \<in> dom S" if e: "(x, d) \<in> edges S" for x d
  proof -
    from e obtain s where "S x = Some s" "d \<in> set (deps_of s)"
      by (auto simp: edges_def)
    then have "s \<in> set l" "d \<in> set (deps_of s)"
      using l(2) by (auto simp: ran_def)
    then have "d \<in> name ` set l"
      using topo_rev_snd [OF l(3)] by blast
    then show ?thesis
      using reg by auto
  qed
  have "snd ` edges S \<subseteq> dom S"
  proof (rule image_subsetI)
    show "snd p \<in> dom S" if "p \<in> edges S" for p
      using reg_dep [of "fst p" "snd p"] that by simp
  qed
  ultimately show "acyclic (edges S) \<and> snd ` edges S \<subseteq> dom S"
    by blast
next
  assume ok: "acyclic (edges S) \<and> snd ` edges S \<subseteq> dom S"
  show "\<exists>l. sortDependencies S order = Inr l"
  proof (cases "sortDependencies S order")
    case (Inl e)
    then have "blames S {} e"
      by (rule sort_failure [OF assms(2)])
    with ok show ?thesis
      by (force simp: blames_def acyclic_def split: sort_error.splits)
  qed blast
qed

theorem lifecycle_sort_complete_witness:
  "\<not> (\<exists>l. sortDependencies [''a'' \<mapsto> demo_svc ''a'' [''b''], ''b'' \<mapsto> demo_svc ''b'' [''a'']] [''b'', ''a''] = Inr l)"
proof -
  let ?S = "[''a'' \<mapsto> demo_svc ''a'' [''b''], ''b'' \<mapsto> demo_svc ''b'' [''a'']]"
  have k: "keyed ?S"
    by (simp add: keyed_def demo_svc_def)
  have d: "set [''b'', ''a''] = dom ?S"
    by auto
  have "(''a'', ''b'') \<in> edges ?S" "(''b'', ''a'') \<in> edges ?S"
    by (simp_all add: edges_def deps_of_def demo_svc_def)
  then have "(''a'', ''a'') \<in> (edges ?S)\<^sup>+"
    by (meson r_into_trancl trancl_trans)
  then have "\<not> acyclic (edges ?S)"
    by (auto simp: acyclic_def)
  with lifecycle_sort_complete [OF k d] show ?thesis by blast
qed

text \<open>when the sort fails, the error names the reason. A reported cycle is a real cycle of
  dependencies through the named service; a reported missing dependency is declared by a registered
  service and is not registered. \<open>InitAll\<close> then calls no \<open>Init\<close> and leaves the orchestrator as it was.\<close>

theorem lifecycle_sort_errors:
  assumes "set order = dom (services orc)" and "sortDependencies (services orc) order = Inl e"
  shows "initAll order ctx orc w = (Some (Resolution e), orc, w) \<and>
    ((\<exists>y. e = Circular y \<and> (y, y) \<in> (edges (services orc))\<^sup>+) \<or>
     (\<exists>x y. e = NotRegistered y \<and> (x, y) \<in> edges (services orc) \<and> services orc y = None))"
  using sort_failure [OF assms] assms(2)
  by (auto simp: initAll_def blames_def split: sort_error.splits)

theorem lifecycle_sort_errors_witness:
  "sortDependencies [''a'' \<mapsto> demo_svc ''a'' [''z'']] [''a''] = Inl (NotRegistered ''z'') \<and>
   initAll [''a''] Background (newOrchestrator\<lparr>services := [''a'' \<mapsto> demo_svc ''a'' [''z'']]\<rparr>) [] =
     (Some (Resolution (NotRegistered ''z'')), newOrchestrator\<lparr>services := [''a'' \<mapsto> demo_svc ''a'' [''z'']]\<rparr>, [])"
proof -
  let ?o = "newOrchestrator\<lparr>services := [''a'' \<mapsto> demo_svc ''a'' [''z'']]\<rparr>"
  have d: "set [''a''] = dom (services ?o)"
    by auto
  have s: "sortDependencies (services ?o) [''a''] = Inl (NotRegistered ''z'')"
    by (simp add: sortDependencies_def visit_start_def visit_unfold deps_of_def demo_svc_def)
  from lifecycle_sort_errors [OF d s, of Background "[]"] s show ?thesis by auto
qed

text \<open>\<open>StartAll\<close> starts in order and rolls back. If some \<open>Start\<close> fails, the error names
  the first service that failed, the services after it were not started, and exactly the services
  running before it are stopped, in reverse order and with the background context; nothing is left
  running. If none fails, all of them run, in order.\<close>

theorem lifecycle_start_rollback:
  assumes "\<not> started orc" and "startAll ctx orc w = (err, orc', w')"
  shows "(case err of
      None \<Rightarrow> starts ctx (ordered orc) w = Some w' \<and> started orc' \<and> running orc' = running orc @ ordered orc
    | Some f \<Rightarrow> (\<exists>pre s rest w1 e w2. f = StartFailed (name s) e \<and> ordered orc = pre @ s # rest \<and>
        starts ctx pre w = Some w1 \<and> start_fn s ctx w1 = (Some e, w2) \<and>
        w' = stop_loop Background (rev (running orc @ pre)) w2 \<and> running orc' = [] \<and> \<not> started orc'))"
proof (cases "starts ctx (ordered orc) w")
  case None
  from start_loop_failure [OF this, of orc] obtain pre s rest w1 e w2 where
    "ordered orc = pre @ s # rest" "starts ctx pre w = Some w1" "start_fn s ctx w1 = (Some e, w2)"
    "start_loop ctx (ordered orc) orc w = (Some (StartFailed (name s) e), orc\<lparr>running := []\<rparr>,
      stop_loop Background (rev (running orc @ pre)) w2)"
    by blast
  with assms show ?thesis
    by (fastforce simp: startAll_def)
next
  case (Some u)
  from start_loop_success [OF this, of orc] assms Some show ?thesis
    by (auto simp: startAll_def)
qed

definition failing_svc :: "string \<Rightarrow> (unit, string list, string) service" where
  "failing_svc n = (demo_svc n [])\<lparr>init_fn := (\<lambda>_ w. (Some ''boom'', w @ [''init '' @ n])),
     start_fn := (\<lambda>_ w. (Some ''boom'', w @ [''start '' @ n]))\<rparr>"

theorem lifecycle_start_rollback_witness:
  "snd (snd (startAll (Given ()) (newOrchestrator\<lparr>ordered := [demo_svc ''a'' [], demo_svc ''b'' [], failing_svc ''c'']\<rparr>) []))
     = [''start a'', ''start b'', ''start c'', ''stop b'', ''stop a'']
   \<and> running (fst (snd (startAll (Given ())
       (newOrchestrator\<lparr>ordered := [demo_svc ''a'' [], demo_svc ''b'' [], failing_svc ''c'']\<rparr>) []))) = []"
proof -
  let ?o = "newOrchestrator\<lparr>ordered := [demo_svc ''a'' [], demo_svc ''b'' [], failing_svc ''c'']\<rparr>"
  have n: "\<not> started ?o"
    by (simp add: newOrchestrator_def)
  have s: "startAll (Given ()) ?o [] = (Some (StartFailed ''c'' ''boom''), ?o\<lparr>running := []\<rparr>,
      [''start a'', ''start b'', ''start c'', ''stop b'', ''stop a''])"
    by (simp add: startAll_def newOrchestrator_def demo_svc_def failing_svc_def stopRunning_def)
  from lifecycle_start_rollback [OF n s] s show ?thesis
    by simp
qed

text \<open>the whole life of an application. After a successful \<open>InitAll\<close> and
  \<open>StartAll\<close> of a fresh orchestrator every registered service runs, and \<open>StopAll\<close> stops each of them
  once, every service before any of its dependencies; a second \<open>StopAll\<close> stops nothing and changes
  nothing.\<close>

theorem lifecycle_shutdown_order:
  assumes "keyed (services orc)" and "set order = dom (services orc)"
    and "\<not> started orc" and "running orc = []"
    and "initAll order ctx orc w = (None, orc1, w1)" and "startAll ctx orc1 w1 = (None, orc2, w2)"
    and "l = rev (running orc2)"
  shows "set l = ran (services orc) \<and> distinct (map name l) \<and>
    (\<forall>i < length l. set (deps_of (l ! i)) \<subseteq> name ` set (drop (Suc i) l)) \<and>
    stopAll c orc2 v = (orc2\<lparr>running := [], started := False\<rparr>, stop_loop c l v) \<and>
    stopAll c' (fst (stopAll c orc2 v)) v' = (fst (stopAll c orc2 v), v')"
proof -
  from assms(5) obtain m where m: "sortDependencies (services orc) order = Inr m"
    "orc1 = orc\<lparr>ordered := m\<rparr>"
    by (auto simp: initAll_def split: sum.splits prod.splits)
  have ok: "distinct (map name m)" "set m = ran (services orc)" "topo (rev m)"
    using sort_success [OF assms(1,2) m(1)] by auto
  have "running orc2 = m"
    using assms(3,4,6) m(2) start_loop_success [of ctx m w1] start_loop_failure [of ctx m w1 orc1]
    by (cases "starts ctx m w1") (auto simp: startAll_def)
  then have l: "l = rev m" and rev_l: "rev (running orc2) = l"
    using assms(7) by simp_all
  have "stopAll c orc2 v = (orc2\<lparr>running := [], started := False\<rparr>, stop_loop c l v)"
    by (simp add: stopAll_def stopRunning_def rev_l)
  moreover have "stopAll c' (fst (stopAll c orc2 v)) v' = (fst (stopAll c orc2 v), v')"
    by (simp add: stopAll_def stopRunning_def)
  moreover have "distinct (map name l)"
    using ok(1) l by (simp add: rev_map [symmetric])
  ultimately show ?thesis
    using ok topo_nth [of l] l by simp
qed

theorem lifecycle_shutdown_order_witness:
  "distinct (map name [demo_svc ''api'' [''db''], demo_svc ''db'' []]) \<and>
   stop_loop Background [demo_svc ''api'' [''db''], demo_svc ''db'' []] [] = [''stop api'', ''stop db'']"
proof -
  let ?a = "demo_svc ''api'' [''db'']" and ?d = "demo_svc ''db'' []"
  let ?o = "register ?d (register ?a newOrchestrator)"
  let ?o1 = "?o\<lparr>ordered := [?d, ?a]\<rparr>"
  let ?o2 = "?o1\<lparr>running := [?d, ?a], started := True\<rparr>"
  have k: "keyed (services ?o)"
    by (intro keyed_register keyed_new)
  have d: "set [''api'', ''db''] = dom (services ?o)"
    by (auto simp: register_def newOrchestrator_def demo_svc_def)
  have n: "\<not> started ?o" and r: "running ?o = []"
    by (simp_all add: register_def newOrchestrator_def)
  have i: "initAll [''api'', ''db''] Background ?o [] = (None, ?o1, [''init db'', ''init api''])"
    by (simp add: initAll_def register_def newOrchestrator_def sortDependencies_def visit_start_def
        visit_unfold deps_of_def demo_svc_def numeral_2_eq_2)
  have s: "startAll Background ?o1 [''init db'', ''init api''] =
      (None, ?o2, [''init db'', ''init api'', ''start db'', ''start api''])"
    by (simp add: startAll_def register_def newOrchestrator_def demo_svc_def)
  have l: "[?a, ?d] = rev (running ?o2)"
    by simp
  have "stop_loop Background [?a, ?d] [] = [''stop api'', ''stop db'']"
    by (simp add: demo_svc_def)
  then show ?thesis
    using lifecycle_shutdown_order [OF k d n r i s l, of Background "[]" Background "[]"]
    by (intro conjI) blast+
qed

text \<open>a failed \<open>InitAll\<close> does not prevent a start. When the sort succeeds and the \<open>Init\<close>
  of some service fails, the sorted list has already been stored; a following \<open>StartAll\<close> starts every
  service of it, also the one whose \<open>Init\<close> failed and those never initialised, and returns no error if
  their \<open>Start\<close> does not.\<close>

theorem lifecycle_start_after_failed_init:
  assumes "initAll order ctx orc w = (Some (InitFailed n e), orc', w')" and "\<not> started orc"
    and "starts ctx (ordered orc') w' = Some w''"
  shows "sortDependencies (services orc) order = Inr (ordered orc') \<and>
    startAll ctx orc' w' = (None, orc'\<lparr>running := running orc @ ordered orc', started := True\<rparr>, w'')"
proof -
  from assms(1) obtain l where l: "sortDependencies (services orc) order = Inr l"
    "orc' = orc\<lparr>ordered := l\<rparr>"
    by (auto simp: initAll_def split: sum.splits prod.splits)
  with assms(2) start_loop_success [OF assms(3), of orc'] show ?thesis
    by (simp add: startAll_def)
qed

theorem lifecycle_start_after_failed_init_witness:
  "\<exists>orc orc' :: (unit, string list, string) orchestrator.
     initAll [''c''] Background orc [] = (Some (InitFailed ''c'' ''boom''), orc', [''init c'']) \<and>
     fst (startAll Background orc' [''init c'']) = None \<and>
     snd (snd (startAll Background orc' [''init c''])) = [''init c'', ''start c'']"
proof -
  let ?c = "(demo_svc ''c'' [])\<lparr>init_fn := init_fn (failing_svc ''c'')\<rparr>"
  let ?o = "register ?c newOrchestrator"
  have i: "initAll [''c''] Background ?o [] =
      (Some (InitFailed ''c'' ''boom''), ?o\<lparr>ordered := [?c]\<rparr>, [''init c''])"
    by (simp add: initAll_def register_def newOrchestrator_def sortDependencies_def visit_start_def
        visit_unfold deps_of_def demo_svc_def failing_svc_def)
  have n: "\<not> started ?o"
    by (simp add: newOrchestrator_def register_def)
  have s: "starts Background (ordered (?o\<lparr>ordered := [?c]\<rparr>)) [''init c''] = Some [''init c'', ''start c'']"
    by (simp add: demo_svc_def)
  from lifecycle_start_after_failed_init [OF i n s] i show ?thesis
    by (intro exI [of _ ?o] exI [of _ "?o\<lparr>ordered := [?c]\<rparr>"]) simp
qed

end
