(* ===== verification/Batto.thy ===== *)
theory Batto
  imports Prelude
begin

text \<open>
  \<open>batto/batto.go\<close>: suppression of duplicate concurrent calls per key. Two kinds of mutexes are
  nested here (\<open>g.mu\<close> of the group, \<open>c.mu\<close> of a call), so the model keeps them: a goroutine's place
  says which mutex it holds or asks for, and a section is split at each \<open>Lock\<close>. The calls live in a
  store with addresses, since the map of the group, the waiting callers and the worker share them.
  Result channels have capacity one; \<open>bufs\<close> is their content.
\<close>

section \<open>Calls and the group\<close>

datatype 'e call_error = ErrWorkerPanicked | CtxErr | WorkerErr 'e

text \<open>\<open>Result\<close>: a value with an error, or the recovered panic for the initiator.\<close>

datatype ('v, 'e) result = Result "'v option" "'e call_error option" | PanicVal

record ('k, 'v, 'e) call =
  ckey :: 'k
  cancelled :: bool
  waiters :: "nat \<rightharpoonup> nat"
  initiator :: nat
  finished :: bool
  outcome_of :: "('v \<times> 'e option) outcome option"

record ('k, 'v, 'e) group =
  m :: "'k \<rightharpoonup> nat"
  calls :: "nat \<rightharpoonup> ('k, 'v, 'e) call"
  bufs :: "nat \<Rightarrow> ('v, 'e) result option"

text \<open>\<open>Do\<close>, the key is not in flight: a new call at address \<open>c\<close> with the channel \<open>ch\<close> of goroutine \<open>g\<close>.\<close>

definition create :: "nat \<Rightarrow> 'k \<Rightarrow> nat \<Rightarrow> nat \<Rightarrow> ('k, 'v, 'e) group \<Rightarrow> ('k, 'v, 'e) group" where
  "create g k c ch s = s\<lparr>m := (m s)(k \<mapsto> c),
     calls := (calls s)(c \<mapsto> \<lparr>ckey = k, cancelled = False, waiters = [ch \<mapsto> g], initiator = ch,
       finished = False, outcome_of = None\<rparr>)\<rparr>"

text \<open>\<open>Do\<close>, the key is in flight: the channel is added to the waiters of the call.\<close>

definition join :: "nat \<Rightarrow> nat \<Rightarrow> nat \<Rightarrow> ('k, 'v, 'e) call \<Rightarrow> ('k, 'v, 'e) group \<Rightarrow> ('k, 'v, 'e) group" where
  "join g c ch cl s = s\<lparr>calls := (calls s)(c \<mapsto> cl\<lparr>waiters := (waiters cl)(ch \<mapsto> g)\<rparr>)\<rparr>"

text \<open>
  \<open>wait\<close> after \<open>ctx.Done()\<close>: the channel leaves the waiters; the last one to leave cancels the
  worker's context and deletes the key \<open>k\<close> from the group.
\<close>

definition leave :: "'k \<Rightarrow> nat \<Rightarrow> nat \<Rightarrow> ('k, 'v, 'e) call \<Rightarrow> ('k, 'v, 'e) group \<Rightarrow> ('k, 'v, 'e) group" where
  "leave k c ch cl s =
     (let ws = (waiters cl)(ch := None) in
      if ws = Map.empty
      then s\<lparr>calls := (calls s)(c \<mapsto> cl\<lparr>waiters := ws, cancelled := True\<rparr>), m := (m s)(k := None)\<rparr>
      else s\<lparr>calls := (calls s)(c \<mapsto> cl\<lparr>waiters := ws\<rparr>)\<rparr>)"

text \<open>What \<open>run\<close> sends to the channel \<open>ch\<close>, and its final section, on return and on panic.\<close>

definition delivery :: "nat \<Rightarrow> ('v \<times> 'e option) outcome \<Rightarrow> nat \<Rightarrow> ('v, 'e) result" where
  "delivery init out ch =
     (case out of
        Returned (v, e) \<Rightarrow> Result (Some v) (map_option WorkerErr e)
      | Panicked \<Rightarrow> if ch = init then PanicVal else Result None (Some ErrWorkerPanicked))"

definition finish :: "nat \<Rightarrow> ('v \<times> 'e option) outcome \<Rightarrow> ('k, 'v, 'e) call \<Rightarrow>
    ('k, 'v, 'e) group \<Rightarrow> ('k, 'v, 'e) group" where
  "finish c out cl s = s\<lparr>calls := (calls s)(c \<mapsto> cl\<lparr>finished := True, outcome_of := Some out\<rparr>),
     m := (m s)(ckey cl := None),
     bufs := (\<lambda>ch. if waiters cl ch \<noteq> None then Some (delivery (initiator cl) out ch) else bufs s ch)\<rparr>"

section \<open>Goroutines\<close>

text \<open>
  Places in \<open>Do\<close>: asking for \<open>g.mu\<close>, holding it, holding it and asking for \<open>c.mu\<close>, holding both.
  In \<open>wait\<close>: the \<open>select\<close>, asking for \<open>c.mu\<close>, holding it, holding it and asking for \<open>g.mu\<close>, holding
  both, the second receive. In \<open>run\<close>: inside \<open>fn\<close>, asking for \<open>g.mu\<close>, holding it and asking for
  \<open>c.mu\<close>, holding both. \<open>Ret r\<close>: the call returned \<open>r\<close> (\<open>PanicVal\<close>: it panicked). \<open>Fatal\<close>: \<open>Unlock\<close>
  of an unlocked mutex, which stops the process.
\<close>

datatype ('k, 'v, 'e) place =
    Rest
  | WantG 'k | HoldG 'k | GWantC 'k nat | HoldGC 'k nat
  | Select 'k nat nat | WantC 'k nat nat | HoldC 'k nat nat | CWantG 'k nat nat | HoldCG 'k nat nat
  | Recv nat nat
  | InFn nat | RWantG nat "('v \<times> 'e option) outcome" | RGWantC nat "('v \<times> 'e option) outcome"
  | RHoldGC nat "('v \<times> 'e option) outcome"
  | Ret "('v, 'e) result" | Fatal

record ('k, 'v, 'e) batto =
  grp :: "('k, 'v, 'e) group"
  gmu :: "nat option"
  cmu :: "nat \<Rightarrow> nat option"
  place_of :: "nat \<Rightarrow> ('k, 'v, 'e) place"
  ctx_done :: "nat \<Rightarrow> bool"
  next_call :: nat
  next_chan :: nat

definition batto_start :: "('k, 'v, 'e) batto" where
  "batto_start = \<lparr>grp = \<lparr>m = Map.empty, calls = Map.empty, bufs = (\<lambda>_. None)\<rparr>, gmu = None,
     cmu = (\<lambda>_. None), place_of = (\<lambda>_. Rest), ctx_done = (\<lambda>_. False), next_call = 0, next_chan = 0\<rparr>"

datatype ('k, 'v, 'e) label =
    Do nat 'k | Expired nat | CtxFires nat | LockG nat | LockC nat
  | Lookup nat nat | Join nat | Receive nat | TakeDone nat | Check nat | Leave nat
  | FnEnds nat "('v \<times> 'e option) outcome" | Finish nat | Again nat

abbreviation move :: "nat \<Rightarrow> ('k, 'v, 'e) place \<Rightarrow> ('k, 'v, 'e) batto \<Rightarrow> ('k, 'v, 'e) batto" where
  "move g p s \<equiv> s\<lparr>place_of := (place_of s)(g := p)\<rparr>"

text \<open>The start of a call of \<open>Do\<close> by \<open>g\<close>: the context is expired (\<open>Expired\<close>) or live (\<open>call\<close>).\<close>

definition call_do :: "nat \<Rightarrow> 'k \<Rightarrow> ('k, 'v, 'e) batto \<Rightarrow> ('k, 'v, 'e) batto option" where
  "call_do g k s = (case place_of s g of
     Rest \<Rightarrow> Some (move g (WantG k) (s\<lparr>ctx_done := (ctx_done s)(g := False)\<rparr>)) | _ \<Rightarrow> None)"

text \<open>Taking \<open>g.mu\<close>, and taking \<open>c.mu\<close>: only when it is free.\<close>

definition lock_g :: "nat \<Rightarrow> ('k, 'v, 'e) batto \<Rightarrow> ('k, 'v, 'e) batto option" where
  "lock_g g s =
     (if gmu s \<noteq> None then None
      else let s' = s\<lparr>gmu := Some g\<rparr> in
        case place_of s g of
          WantG k \<Rightarrow> Some (move g (HoldG k) s')
        | CWantG k c ch \<Rightarrow> Some (move g (HoldCG k c ch) s')
        | RWantG c out \<Rightarrow> Some (move g (RGWantC c out) s')
        | _ \<Rightarrow> None)"

definition lock_c :: "nat \<Rightarrow> ('k, 'v, 'e) batto \<Rightarrow> ('k, 'v, 'e) batto option" where
  "lock_c g s =
     (case place_of s g of
        GWantC k c \<Rightarrow> if cmu s c = None
          then Some (move g (HoldGC k c) (s\<lparr>cmu := (cmu s)(c := Some g)\<rparr>)) else None
      | WantC k c ch \<Rightarrow> if cmu s c = None
          then Some (move g (HoldC k c ch) (s\<lparr>cmu := (cmu s)(c := Some g)\<rparr>)) else None
      | RGWantC c out \<Rightarrow> if cmu s c = None
          then Some (move g (RHoldGC c out) (s\<lparr>cmu := (cmu s)(c := Some g)\<rparr>)) else None
      | _ \<Rightarrow> None)"

text \<open>\<open>Do\<close> under \<open>g.mu\<close>: look the key up; a new call starts its worker on the resting goroutine \<open>w\<close>.\<close>

definition do_lookup :: "nat \<Rightarrow> nat \<Rightarrow> ('k, 'v, 'e) batto \<Rightarrow> ('k, 'v, 'e) batto option" where
  "do_lookup g w s =
     (case place_of s g of
        HoldG k \<Rightarrow>
          (case m (grp s) k of
             Some c \<Rightarrow> Some (move g (GWantC k c) s)
           | None \<Rightarrow>
               (case place_of s w of
                  Rest \<Rightarrow>
                    let c = next_call s; ch = next_chan s in
                    Some (move w (InFn c) (move g (Select k c ch) (s\<lparr>grp := create g k c ch (grp s),
                      gmu := None, next_call := Suc c, next_chan := Suc ch\<rparr>)))
                | _ \<Rightarrow> None))
      | _ \<Rightarrow> None)"

text \<open>
  \<open>Do\<close> under both mutexes. A finished call releases both; if it did not panic the code goes on to
  write to its waiters and to release \<open>c.mu\<close> a second time.
\<close>

definition do_join :: "nat \<Rightarrow> ('k, 'v, 'e) batto \<Rightarrow> ('k, 'v, 'e) batto option" where
  "do_join g s =
     (case place_of s g of
        HoldGC k c \<Rightarrow>
          (case calls (grp s) c of
             None \<Rightarrow> None
           | Some cl \<Rightarrow>
               let s' = s\<lparr>gmu := None, cmu := (cmu s)(c := None)\<rparr> in
               if finished cl then
                 (if outcome_of cl = Some Panicked then Some (move g (Ret (Result None (Some ErrWorkerPanicked))) s')
                  else Some (move g Fatal s'))
               else let ch = next_chan s in
                 Some (move g (Select k c ch) (s'\<lparr>grp := join g c ch cl (grp s), next_chan := Suc ch\<rparr>)))
      | _ \<Rightarrow> None)"

text \<open>\<open>wait\<close>: the two branches of the \<open>select\<close>, the test of \<open>c.done\<close>, and the departure.\<close>

definition wait_receive :: "nat \<Rightarrow> ('k, 'v, 'e) batto \<Rightarrow> ('k, 'v, 'e) batto option" where
  "wait_receive g s =
     (case (case place_of s g of Select k c ch \<Rightarrow> Some ch | Recv c ch \<Rightarrow> Some ch | _ \<Rightarrow> None) of
        None \<Rightarrow> None
      | Some ch \<Rightarrow>
          (case bufs (grp s) ch of
             None \<Rightarrow> None
           | Some r \<Rightarrow> Some (move g (Ret r) (s\<lparr>grp := (grp s)\<lparr>bufs := (bufs (grp s))(ch := None)\<rparr>\<rparr>))))"

definition wait_done :: "nat \<Rightarrow> ('k, 'v, 'e) batto \<Rightarrow> ('k, 'v, 'e) batto option" where
  "wait_done g s =
     (case place_of s g of
        Select k c ch \<Rightarrow> if ctx_done s g then Some (move g (WantC k c ch) s) else None
      | _ \<Rightarrow> None)"

definition wait_check :: "nat \<Rightarrow> ('k, 'v, 'e) batto \<Rightarrow> ('k, 'v, 'e) batto option" where
  "wait_check g s =
     (case place_of s g of
        HoldC k c ch \<Rightarrow>
          (case calls (grp s) c of
             None \<Rightarrow> None
           | Some cl \<Rightarrow>
               if finished cl then Some (move g (Recv c ch) (s\<lparr>cmu := (cmu s)(c := None)\<rparr>))
               else Some (move g (CWantG k c ch) s))
      | _ \<Rightarrow> None)"

definition wait_leave :: "nat \<Rightarrow> ('k, 'v, 'e) batto \<Rightarrow> ('k, 'v, 'e) batto option" where
  "wait_leave g s =
     (case place_of s g of
        HoldCG k c ch \<Rightarrow>
          (case calls (grp s) c of
             None \<Rightarrow> None
           | Some cl \<Rightarrow> Some (move g (Ret (Result None (Some CtxErr)))
               (s\<lparr>grp := leave k c ch cl (grp s), gmu := None, cmu := (cmu s)(c := None)\<rparr>)))
      | _ \<Rightarrow> None)"

text \<open>\<open>run\<close>: the end of \<open>fn\<close>, and the section under both mutexes. A send to a full channel blocks.\<close>

definition run_fn :: "nat \<Rightarrow> ('v \<times> 'e option) outcome \<Rightarrow> ('k, 'v, 'e) batto \<Rightarrow> ('k, 'v, 'e) batto option" where
  "run_fn g out s = (case place_of s g of InFn c \<Rightarrow> Some (move g (RWantG c out) s) | _ \<Rightarrow> None)"

definition sends_ready :: "('k, 'v, 'e) call \<Rightarrow> ('k, 'v, 'e) group \<Rightarrow> bool" where
  "sends_ready cl s \<longleftrightarrow> (\<forall>ch \<in> dom (waiters cl). bufs s ch = None)"

definition run_finish :: "nat \<Rightarrow> ('k, 'v, 'e) batto \<Rightarrow> ('k, 'v, 'e) batto option" where
  "run_finish g s =
     (case place_of s g of
        RHoldGC c out \<Rightarrow>
          (case calls (grp s) c of
             None \<Rightarrow> None
           | Some cl \<Rightarrow>
               if sends_ready cl (grp s)
               then Some (move g Rest (s\<lparr>grp := finish c out cl (grp s), gmu := None, cmu := (cmu s)(c := None)\<rparr>))
               else None)
      | _ \<Rightarrow> None)"

fun batto_step :: "('k, 'v, 'e) label \<Rightarrow> ('k, 'v, 'e) batto \<Rightarrow> ('k, 'v, 'e) batto option" where
  "batto_step (Do g k) s = call_do g k s"
| "batto_step (Expired g) s =
     (case place_of s g of Rest \<Rightarrow> Some (move g (Ret (Result None (Some CtxErr))) s) | _ \<Rightarrow> None)"
| "batto_step (CtxFires g) s = Some (s\<lparr>ctx_done := (ctx_done s)(g := True)\<rparr>)"
| "batto_step (LockG g) s = lock_g g s"
| "batto_step (LockC g) s = lock_c g s"
| "batto_step (Lookup g w) s = do_lookup g w s"
| "batto_step (Join g) s = do_join g s"
| "batto_step (Receive g) s = wait_receive g s"
| "batto_step (TakeDone g) s = wait_done g s"
| "batto_step (Check g) s = wait_check g s"
| "batto_step (Leave g) s = wait_leave g s"
| "batto_step (FnEnds g out) s = run_fn g out s"
| "batto_step (Finish g) s = run_finish g s"
| "batto_step (Again g) s = (case place_of s g of Ret r \<Rightarrow> Some (move g Rest s) | _ \<Rightarrow> None)"

abbreviation batto_reach :: "('k, 'v, 'e) batto \<Rightarrow> bool" where
  "batto_reach \<equiv> reach ((=) batto_start) (labelled batto_step)"

lemmas batto_section_defs = call_do_def lock_g_def lock_c_def do_lookup_def do_join_def
  wait_receive_def wait_done_def wait_check_def wait_leave_def run_fn_def run_finish_def
lemmas group_defs = create_def join_def leave_def finish_def

section \<open>One step, by cases\<close>

lemma batto_step_cases:
  assumes "batto_step l s = Some t"
  obtains
    (call) g k where "place_of s g = Rest" "t = move g (WantG k) (s\<lparr>ctx_done := (ctx_done s)(g := False)\<rparr>)"
  | (expired) g where "place_of s g = Rest" "t = move g (Ret (Result None (Some CtxErr))) s"
  | (ctx) g where "t = s\<lparr>ctx_done := (ctx_done s)(g := True)\<rparr>"
  | (do_g) g k where "place_of s g = WantG k" "gmu s = None" "t = move g (HoldG k) (s\<lparr>gmu := Some g\<rparr>)"
  | (wait_g) g k c ch where "place_of s g = CWantG k c ch" "gmu s = None"
      "t = move g (HoldCG k c ch) (s\<lparr>gmu := Some g\<rparr>)"
  | (run_g) g c out where "place_of s g = RWantG c out" "gmu s = None"
      "t = move g (RGWantC c out) (s\<lparr>gmu := Some g\<rparr>)"
  | (do_c) g k c where "place_of s g = GWantC k c" "cmu s c = None"
      "t = move g (HoldGC k c) (s\<lparr>cmu := (cmu s)(c := Some g)\<rparr>)"
  | (wait_c) g k c ch where "place_of s g = WantC k c ch" "cmu s c = None"
      "t = move g (HoldC k c ch) (s\<lparr>cmu := (cmu s)(c := Some g)\<rparr>)"
  | (run_c) g c out where "place_of s g = RGWantC c out" "cmu s c = None"
      "t = move g (RHoldGC c out) (s\<lparr>cmu := (cmu s)(c := Some g)\<rparr>)"
  | (found) g k c where "place_of s g = HoldG k" "m (grp s) k = Some c" "t = move g (GWantC k c) s"
  | (fresh) g k w where "place_of s g = HoldG k" "m (grp s) k = None" "place_of s w = Rest"
      "t = move w (InFn (next_call s)) (move g (Select k (next_call s) (next_chan s))
        (s\<lparr>grp := create g k (next_call s) (next_chan s) (grp s), gmu := None,
          next_call := Suc (next_call s), next_chan := Suc (next_chan s)\<rparr>))"
  | (join_panicked) g k c cl where "place_of s g = HoldGC k c" "calls (grp s) c = Some cl" "finished cl"
      "outcome_of cl = Some Panicked"
      "t = move g (Ret (Result None (Some ErrWorkerPanicked))) (s\<lparr>gmu := None, cmu := (cmu s)(c := None)\<rparr>)"
  | (join_fatal) g k c cl where "place_of s g = HoldGC k c" "calls (grp s) c = Some cl" "finished cl"
      "t = move g Fatal (s\<lparr>gmu := None, cmu := (cmu s)(c := None)\<rparr>)"
  | (joined) g k c cl where "place_of s g = HoldGC k c" "calls (grp s) c = Some cl" "\<not> finished cl"
      "t = move g (Select k c (next_chan s)) (s\<lparr>gmu := None, cmu := (cmu s)(c := None),
        grp := join g c (next_chan s) cl (grp s), next_chan := Suc (next_chan s)\<rparr>)"
  | (receive) g k c ch r where "place_of s g = Select k c ch \<or> place_of s g = Recv c ch" "bufs (grp s) ch = Some r"
      "t = move g (Ret r) (s\<lparr>grp := (grp s)\<lparr>bufs := (bufs (grp s))(ch := None)\<rparr>\<rparr>)"
  | (take_done) g k c ch where "place_of s g = Select k c ch" "ctx_done s g" "t = move g (WantC k c ch) s"
  | (check_done) g k c ch cl where "place_of s g = HoldC k c ch" "calls (grp s) c = Some cl" "finished cl"
      "t = move g (Recv c ch) (s\<lparr>cmu := (cmu s)(c := None)\<rparr>)"
  | (check_live) g k c ch cl where "place_of s g = HoldC k c ch" "calls (grp s) c = Some cl" "\<not> finished cl"
      "t = move g (CWantG k c ch) s"
  | (left) g k c ch cl where "place_of s g = HoldCG k c ch" "calls (grp s) c = Some cl"
      "t = move g (Ret (Result None (Some CtxErr)))
        (s\<lparr>grp := leave k c ch cl (grp s), gmu := None, cmu := (cmu s)(c := None)\<rparr>)"
  | (fn_ends) g c out where "place_of s g = InFn c" "t = move g (RWantG c out) s"
  | (finish) g c out cl where "place_of s g = RHoldGC c out" "calls (grp s) c = Some cl"
      "sends_ready cl (grp s)"
      "t = move g Rest (s\<lparr>grp := finish c out cl (grp s), gmu := None, cmu := (cmu s)(c := None)\<rparr>)"
  | (again) g r where "place_of s g = Ret r" "t = move g Rest s"
proof (cases l)
  case (Do g k)
  with assms show ?thesis by (auto simp: call_do_def split: place.splits intro: call)
next
  case (Expired g)
  with assms show ?thesis by (auto split: place.splits intro: expired)
next
  case (CtxFires g)
  with assms show ?thesis by (auto intro: ctx)
next
  case (LockG g)
  with assms show ?thesis
    by (auto simp: lock_g_def Let_def split: place.splits if_splits intro: do_g wait_g run_g)
next
  case (LockC g)
  with assms show ?thesis
    by (auto simp: lock_c_def split: place.splits if_splits intro: do_c wait_c run_c)
next
  case (Lookup g w)
  with assms show ?thesis
  proof (cases "place_of s g")
    case (HoldG k)
    show ?thesis
    proof (cases "m (grp s) k")
      case None
      with assms Lookup HoldG show ?thesis
        by (cases "place_of s w") (auto simp: do_lookup_def Let_def intro: fresh)
    next
      case (Some c)
      with assms Lookup HoldG show ?thesis by (auto simp: do_lookup_def intro: found)
    qed
  qed (auto simp: do_lookup_def)
next
  case (Join g)
  with assms show ?thesis
    by (auto simp: do_join_def Let_def split: place.splits option.splits if_splits
        intro: join_panicked join_fatal joined)
next
  case (Receive g)
  with assms show ?thesis
    by (auto simp: wait_receive_def split: place.splits option.splits intro: receive)
next
  case (TakeDone g)
  with assms show ?thesis
    by (auto simp: wait_done_def split: place.splits if_splits intro: take_done)
next
  case (Check g)
  with assms show ?thesis
    by (auto simp: wait_check_def split: place.splits option.splits if_splits intro: check_done check_live)
next
  case (Leave g)
  with assms show ?thesis
    by (auto simp: wait_leave_def split: place.splits option.splits intro: left)
next
  case (FnEnds g out)
  with assms show ?thesis by (auto simp: run_fn_def split: place.splits intro: fn_ends)
next
  case (Finish g)
  with assms show ?thesis
    by (auto simp: run_finish_def split: place.splits option.splits if_splits intro: finish)
next
  case (Again g)
  with assms show ?thesis by (auto split: place.splits intro: again)
qed

section \<open>The two mutexes\<close>

fun gheld :: "('k, 'v, 'e) place \<Rightarrow> bool" where
  "gheld (HoldG k) \<longleftrightarrow> True"
| "gheld (GWantC k c) \<longleftrightarrow> True"
| "gheld (HoldGC k c) \<longleftrightarrow> True"
| "gheld (HoldCG k c ch) \<longleftrightarrow> True"
| "gheld (RGWantC c out) \<longleftrightarrow> True"
| "gheld (RHoldGC c out) \<longleftrightarrow> True"
| "gheld _ \<longleftrightarrow> False"

fun cheld :: "('k, 'v, 'e) place \<Rightarrow> nat option" where
  "cheld (HoldGC k c) = Some c"
| "cheld (HoldC k c ch) = Some c"
| "cheld (CWantG k c ch) = Some c"
| "cheld (HoldCG k c ch) = Some c"
| "cheld (RHoldGC c out) = Some c"
| "cheld _ = None"

definition lock_inv :: "('k, 'v, 'e) batto \<Rightarrow> bool" where
  "lock_inv s \<longleftrightarrow> (\<forall>g. gheld (place_of s g) \<longleftrightarrow> gmu s = Some g) \<and>
     (\<forall>c g. cheld (place_of s g) = Some c \<longleftrightarrow> cmu s c = Some g)"

lemma lock_inv_g: "lock_inv s \<Longrightarrow> gheld (place_of s g) \<Longrightarrow> gmu s = Some g"
  by (simp add: lock_inv_def)

lemma lock_inv_c: "lock_inv s \<Longrightarrow> cheld (place_of s g) = Some c \<Longrightarrow> cmu s c = Some g"
  by (simp add: lock_inv_def)

lemma lock_inv_start: "lock_inv batto_start"
  by (simp add: lock_inv_def batto_start_def)

text \<open>A step of one goroutine that moves it and updates the two mutexes accordingly.\<close>

lemma lock_inv_move:
  assumes "lock_inv s" and "\<And>h. h \<noteq> g \<Longrightarrow> place_of t h = place_of s h"
    and "gmu t = (if gheld (place_of t g) then Some g else if gheld (place_of s g) then None else gmu s)"
    and "\<And>c. cmu t c = (if cheld (place_of t g) = Some c then Some g
                     else if cheld (place_of s g) = Some c then None else cmu s c)"
    and "gheld (place_of t g) \<Longrightarrow> gheld (place_of s g) \<or> gmu s = None"
    and "\<And>c. cheld (place_of t g) = Some c \<Longrightarrow> cheld (place_of s g) = Some c \<or> cmu s c = None"
  shows "lock_inv t"
  unfolding lock_inv_def
proof (intro conjI allI)
  fix h
  show "gheld (place_of t h) \<longleftrightarrow> gmu t = Some h"
    using assms(1,3,5) assms(2) [of h] unfolding lock_inv_def by (cases "h = g") (auto split: if_splits)
next
  fix c h
  show "cheld (place_of t h) = Some c \<longleftrightarrow> cmu t c = Some h"
    using assms(1) assms(4,6) [of c] assms(2) [of h] unfolding lock_inv_def
    by (cases "h = g") (auto split: if_splits)
qed

lemma lock_inv_moved:
  assumes "lock_inv s" and "place_of u = place_of s"
    and "gmu u = (if gheld p then Some g else if gheld (place_of s g) then None else gmu s)"
    and "\<And>c. cmu u c = (if cheld p = Some c then Some g
                     else if cheld (place_of s g) = Some c then None else cmu s c)"
    and "gheld p \<Longrightarrow> gheld (place_of s g) \<or> gmu s = None"
    and "\<And>c. cheld p = Some c \<Longrightarrow> cheld (place_of s g) = Some c \<or> cmu s c = None"
  shows "lock_inv (move g p u)"
  by (rule lock_inv_move [OF assms(1), of g]) (use assms in auto)

lemma lock_inv_step:
  assumes "lock_inv s" and "batto_step l s = Some t"
  shows "lock_inv t"
  using assms(2)
proof (cases rule: batto_step_cases)
  case (fresh g k w)
  then have "w \<noteq> g" by auto
  let ?u = "move g (Select k (next_call s) (next_chan s)) (s\<lparr>grp := create g k (next_call s) (next_chan s) (grp s),
    gmu := None, next_call := Suc (next_call s), next_chan := Suc (next_chan s)\<rparr>)"
  have "lock_inv ?u"
    by (rule lock_inv_move [of s g]) (use assms(1) fresh in auto)
  then show ?thesis
    using fresh \<open>w \<noteq> g\<close> lock_inv_move [of ?u w t] by simp
next
  case (ctx g)
  with assms(1) show ?thesis by (simp add: lock_inv_def)
next
  case (receive g k c ch r)
  show ?thesis
    unfolding receive(3) by (rule lock_inv_moved [OF assms(1)]) (use receive(1) in auto)
qed ((hypsubst, rule lock_inv_moved [OF assms(1)]);
     auto intro: lock_inv_c [OF assms(1)] lock_inv_g [OF assms(1)])+

section \<open>Calls in the map are live\<close>

text \<open>
  A key leads to a call of that key which is not finished; a goroutine of \<open>Do\<close> that found the key
  and holds \<open>g.mu\<close> still finds it there.
\<close>

definition map_inv :: "('k, 'v, 'e) batto \<Rightarrow> bool" where
  "map_inv s \<longleftrightarrow>
     (\<forall>k c. m (grp s) k = Some c \<longrightarrow> c < next_call s \<and>
        (\<exists>cl. calls (grp s) c = Some cl \<and> ckey cl = k \<and> \<not> finished cl)) \<and>
     (\<forall>g k c. place_of s g = GWantC k c \<or> place_of s g = HoldGC k c \<longrightarrow> m (grp s) k = Some c) \<and>
     (\<forall>g. place_of s g \<noteq> Fatal)"

lemma map_inv_start: "map_inv batto_start"
  by (simp add: map_inv_def batto_start_def)

text \<open>A step that changes neither the group nor the fresh addresses.\<close>

lemma map_inv_frame:
  assumes "map_inv s" and "grp t = grp s" and "next_call t = next_call s"
    and "\<And>h k c. place_of t h = GWantC k c \<or> place_of t h = HoldGC k c \<Longrightarrow>
        m (grp s) k = Some c \<or> place_of s h = GWantC k c \<or> place_of s h = HoldGC k c"
    and "\<And>h. place_of t h = Fatal \<Longrightarrow> place_of s h = Fatal"
  shows "map_inv t"
  unfolding map_inv_def
proof (intro conjI allI)
  fix k c
  show "m (grp t) k = Some c \<longrightarrow> c < next_call t \<and>
      (\<exists>cl. calls (grp t) c = Some cl \<and> ckey cl = k \<and> \<not> finished cl)"
    using assms(1-3) unfolding map_inv_def by simp
next
  fix g k c
  show "place_of t g = GWantC k c \<or> place_of t g = HoldGC k c \<longrightarrow> m (grp t) k = Some c"
    using assms(1) assms(2) assms(4) [of g k c] unfolding map_inv_def by auto
next
  fix g
  show "place_of t g \<noteq> Fatal"
    using assms(1) assms(5) [of g] unfolding map_inv_def by auto
qed

text \<open>A step that removes a key or updates one live call, when no other goroutine holds \<open>g.mu\<close>.\<close>

lemma map_inv_alone:
  assumes "lock_inv s" and "gheld (place_of s g)" and "h \<noteq> g"
  shows "place_of s h \<noteq> GWantC k c" "place_of s h \<noteq> HoldGC k c"
proof -
  have "\<not> gheld (place_of s h)"
    using assms by (auto simp: lock_inv_def)
  then show "place_of s h \<noteq> GWantC k c" "place_of s h \<noteq> HoldGC k c"
    by auto
qed

lemma map_inv_call:
  "map_inv s \<Longrightarrow> m (grp s) k = Some c \<Longrightarrow> calls (grp s) c = Some cl \<Longrightarrow>
   ckey cl = k \<and> \<not> finished cl \<and> c < next_call s"
  unfolding map_inv_def by fastforce

lemma map_inv_step:
  assumes "lock_inv s" and "map_inv s" and "batto_step l s = Some t"
  shows "map_inv t"
  using assms(3)
proof (cases rule: batto_step_cases)
  case (fresh g k w)
  have alone: "place_of s h \<noteq> GWantC k' c" "place_of s h \<noteq> HoldGC k' c" if "h \<noteq> g" for h k' c
    using map_inv_alone [OF assms(1), of g h] fresh(1) that by auto
  let ?nc = "next_call s"
  let ?cl = "\<lparr>ckey = k, cancelled = False, waiters = [next_chan s \<mapsto> g], initiator = next_chan s,
    finished = False, outcome_of = None\<rparr>"
  have grp: "m (grp t) = (m (grp s))(k \<mapsto> ?nc)" "calls (grp t) = (calls (grp s))(?nc \<mapsto> ?cl)"
    and pl: "place_of t h = (if h = w then InFn ?nc else if h = g then Select k ?nc (next_chan s) else place_of s h)"
    and nc: "next_call t = Suc ?nc" for h
    using fresh by (auto simp: create_def)
  have "c < next_call t \<and> (\<exists>cl. calls (grp t) c = Some cl \<and> ckey cl = k' \<and> \<not> finished cl)"
    if "m (grp t) k' = Some c" for k' c
  proof (cases "k' = k")
    case True
    with that grp nc show ?thesis by auto
  next
    case False
    with that grp have "m (grp s) k' = Some c" by simp
    with assms(2) have "c < ?nc" "\<exists>cl. calls (grp s) c = Some cl \<and> ckey cl = k' \<and> \<not> finished cl"
      by (auto simp: map_inv_def)
    with grp nc show ?thesis by auto
  qed
  moreover have "place_of t h \<noteq> GWantC k' c" "place_of t h \<noteq> HoldGC k' c" for h k' c
    using alone [of h k' c] pl [of h] by auto
  moreover have "place_of t h \<noteq> Fatal" for h
    using pl [of h] assms(2) by (auto simp: map_inv_def)
  ultimately show ?thesis
    unfolding map_inv_def by blast
next
  case (joined g k c cl)
  have alone: "place_of s h \<noteq> GWantC k' c'" "place_of s h \<noteq> HoldGC k' c'" if "h \<noteq> g" for h k' c'
    using map_inv_alone [OF assms(1), of g h] joined(1) that by auto
  note map_inv_call [OF assms(2) _ joined(2)]
  with alone joined assms(2) show ?thesis
    by (auto simp: map_inv_def join_def)
next
  case (left g k c ch cl)
  have alone: "place_of s h \<noteq> GWantC k' c'" "place_of s h \<noteq> HoldGC k' c'" if "h \<noteq> g" for h k' c'
    using map_inv_alone [OF assms(1), of g h] left(1) that by auto
  note map_inv_call [OF assms(2) _ left(2)]
  with alone left assms(2) show ?thesis
    by (auto simp: map_inv_def leave_def Let_def)
next
  case (finish g c out cl)
  have alone: "place_of s h \<noteq> GWantC k' c'" "place_of s h \<noteq> HoldGC k' c'" if "h \<noteq> g" for h k' c'
    using map_inv_alone [OF assms(1), of g h] finish(1) that by auto
  note map_inv_call [OF assms(2) _ finish(2)]
  with alone finish assms(2) show ?thesis
    by (auto simp: map_inv_def finish_def)
next
  case (join_fatal g k c cl)
  with assms(2) have "\<not> finished cl"
    unfolding map_inv_def by fastforce
  with join_fatal show ?thesis by simp
next
  case (receive g k c ch r)
  with assms(2) show ?thesis
    by (auto simp: map_inv_def)
qed ((hypsubst, rule map_inv_frame [OF assms(2)]); auto split: if_splits)+

section \<open>Results in the channels\<close>

fun waiting :: "('k, 'v, 'e) place \<Rightarrow> (nat \<times> nat) option" where
  "waiting (Select k c ch) = Some (c, ch)"
| "waiting (WantC k c ch) = Some (c, ch)"
| "waiting (HoldC k c ch) = Some (c, ch)"
| "waiting (CWantG k c ch) = Some (c, ch)"
| "waiting (HoldCG k c ch) = Some (c, ch)"
| "waiting (Recv c ch) = Some (c, ch)"
| "waiting _ = None"

fun worker :: "('k, 'v, 'e) place \<Rightarrow> nat option" where
  "worker (InFn c) = Some c"
| "worker (RWantG c out) = Some c"
| "worker (RGWantC c out) = Some c"
| "worker (RHoldGC c out) = Some c"
| "worker _ = None"

text \<open>The places at which the goroutine has seen \<open>c.done\<close> as false, or as true.\<close>

fun saw_done :: "('k, 'v, 'e) place \<Rightarrow> bool option" where
  "saw_done (CWantG k c ch) = Some False"
| "saw_done (HoldCG k c ch) = Some False"
| "saw_done (Recv c ch) = Some True"
| "saw_done _ = None"

definition promised :: "('k, 'v, 'e) call \<Rightarrow> nat \<Rightarrow> ('v, 'e) result option" where
  "promised cl ch = (if finished cl then map_option (\<lambda>out. delivery (initiator cl) out ch) (outcome_of cl) else None)"

definition wait_ok :: "('k, 'v, 'e) batto \<Rightarrow> nat \<Rightarrow> bool" where
  "wait_ok s g \<longleftrightarrow> (\<forall>c ch. waiting (place_of s g) = Some (c, ch) \<longrightarrow> ch < next_chan s \<and>
     (\<exists>cl. calls (grp s) c = Some cl \<and> waiters cl ch = Some g \<and> bufs (grp s) ch = promised cl ch \<and>
        (\<forall>d. saw_done (place_of s g) = Some d \<longrightarrow> finished cl = d)))"

definition worker_ok :: "('k, 'v, 'e) batto \<Rightarrow> nat \<Rightarrow> bool" where
  "worker_ok s g \<longleftrightarrow> (\<forall>c. worker (place_of s g) = Some c \<longrightarrow>
     (\<exists>cl. calls (grp s) c = Some cl \<and> \<not> finished cl) \<and> (\<forall>h. worker (place_of s h) = Some c \<longrightarrow> h = g))"

definition call_ok :: "('k, 'v, 'e) batto \<Rightarrow> nat \<Rightarrow> bool" where
  "call_ok s c \<longleftrightarrow> (\<forall>cl. calls (grp s) c = Some cl \<longrightarrow> c < next_call s \<and> (finished cl \<longrightarrow> outcome_of cl \<noteq> None) \<and>
     (\<not> finished cl \<longrightarrow> (\<forall>ch g. waiters cl ch = Some g \<longrightarrow> waiting (place_of s g) = Some (c, ch))))"

definition deliv_inv :: "('k, 'v, 'e) batto \<Rightarrow> bool" where
  "deliv_inv s \<longleftrightarrow> (\<forall>g. wait_ok s g) \<and> (\<forall>g. worker_ok s g) \<and> (\<forall>c. call_ok s c) \<and>
     (\<forall>g h c d ch. waiting (place_of s g) = Some (c, ch) \<longrightarrow> waiting (place_of s h) = Some (d, ch) \<longrightarrow> g = h) \<and>
     (\<forall>ch. bufs (grp s) ch \<noteq> None \<longrightarrow> ch < next_chan s)"

lemma deliv_inv_start: "deliv_inv batto_start"
  by (simp add: deliv_inv_def wait_ok_def worker_ok_def call_ok_def batto_start_def)

lemma deliv_wait:
  assumes "deliv_inv s" and "waiting (place_of s g) = Some (c, ch)"
  obtains cl where "calls (grp s) c = Some cl" "waiters cl ch = Some g" "bufs (grp s) ch = promised cl ch"
    "ch < next_chan s" "\<And>d. saw_done (place_of s g) = Some d \<Longrightarrow> finished cl = d"
  using assms unfolding deliv_inv_def wait_ok_def by metis

lemma deliv_wait_keep:
  assumes D: "deliv_inv s" and "waiting (place_of t h) = waiting (place_of s h)"
    and "saw_done (place_of t h) = saw_done (place_of s h)" and "next_chan s \<le> next_chan t"
    and "\<And>c ch cl. waiting (place_of s h) = Some (c, ch) \<Longrightarrow> calls (grp s) c = Some cl \<Longrightarrow> waiters cl ch = Some h \<Longrightarrow>
      \<exists>cl'. calls (grp t) c = Some cl' \<and> waiters cl' ch = Some h \<and> finished cl' = finished cl \<and>
        promised cl' ch = promised cl ch \<and> bufs (grp t) ch = bufs (grp s) ch"
  shows "wait_ok t h"
  unfolding wait_ok_def
proof (intro allI impI)
  fix c ch
  assume "waiting (place_of t h) = Some (c, ch)"
  with assms(2) have w: "waiting (place_of s h) = Some (c, ch)" by simp
  from deliv_wait [OF D w] obtain cl where
    cl: "calls (grp s) c = Some cl" "waiters cl ch = Some h" "bufs (grp s) ch = promised cl ch"
      "ch < next_chan s" "\<And>d. saw_done (place_of s h) = Some d \<Longrightarrow> finished cl = d" by blast
  from assms(5) [OF w cl(1,2)] obtain cl' where
    "calls (grp t) c = Some cl'" "waiters cl' ch = Some h" "finished cl' = finished cl"
    "promised cl' ch = promised cl ch" "bufs (grp t) ch = bufs (grp s) ch" by blast
  with cl assms(3,4)
  show "ch < next_chan t \<and> (\<exists>cl. calls (grp t) c = Some cl \<and> waiters cl ch = Some h \<and>
      bufs (grp t) ch = promised cl ch \<and> (\<forall>d. saw_done (place_of t h) = Some d \<longrightarrow> finished cl = d))"
    by auto
qed

lemma deliv_worker:
  assumes "deliv_inv s" and "worker (place_of s g) = Some c" and "calls (grp s) c = Some cl"
  shows "\<not> finished cl" "worker (place_of s h) = Some c \<Longrightarrow> h = g"
  using assms unfolding deliv_inv_def worker_ok_def by fastforce+

lemma deliv_worker_call:
  assumes "deliv_inv s" and "worker (place_of s g) = Some c"
  obtains cl where "calls (grp s) c = Some cl" "\<not> finished cl"
  using assms unfolding deliv_inv_def worker_ok_def by blast

lemma deliv_worker_keep:
  assumes D: "deliv_inv s" and "\<And>h. worker (place_of t h) = worker (place_of s h) \<or> worker (place_of t h) = None"
    and "\<And>c cl. worker (place_of t h) = Some c \<Longrightarrow> calls (grp s) c = Some cl \<Longrightarrow> \<not> finished cl \<Longrightarrow>
      \<exists>cl'. calls (grp t) c = Some cl' \<and> \<not> finished cl'"
  shows "worker_ok t h"
  unfolding worker_ok_def
proof (intro allI impI)
  fix c
  assume t: "worker (place_of t h) = Some c"
  then have s: "worker (place_of s h) = Some c" using assms(2) [of h] by auto
  from deliv_worker_call [OF D s] obtain cl where cl: "calls (grp s) c = Some cl" "\<not> finished cl" .
  have "h' = h" if "worker (place_of t h') = Some c" for h'
    using that assms(2) [of h'] deliv_worker(2) [OF D s cl(1), of h'] by auto
  with assms(3) [OF t cl]
  show "(\<exists>cl. calls (grp t) c = Some cl \<and> \<not> finished cl) \<and> (\<forall>h'. worker (place_of t h') = Some c \<longrightarrow> h' = h)"
    by blast
qed

lemma deliv_call:
  assumes "deliv_inv s" and "calls (grp s) c = Some cl"
  shows "c < next_call s" "finished cl \<Longrightarrow> outcome_of cl \<noteq> None"
    "\<not> finished cl \<Longrightarrow> waiters cl ch = Some g \<Longrightarrow> waiting (place_of s g) = Some (c, ch)"
  using assms unfolding deliv_inv_def call_ok_def by blast+

lemma deliv_unique:
  "deliv_inv s \<Longrightarrow> waiting (place_of s g) = Some (c, ch) \<Longrightarrow> waiting (place_of s h) = Some (d, ch) \<Longrightarrow> g = h"
  unfolding deliv_inv_def by blast

lemma deliv_bufs: "deliv_inv s \<Longrightarrow> bufs (grp s) ch \<noteq> None \<Longrightarrow> ch < next_chan s"
  unfolding deliv_inv_def by blast

lemma deliv_ready:
  assumes "deliv_inv s" and "worker (place_of s g) = Some c" and "calls (grp s) c = Some cl"
  shows "sends_ready cl (grp s)"
  unfolding sends_ready_def
proof
  fix ch
  assume "ch \<in> dom (waiters cl)"
  then obtain h where h: "waiters cl ch = Some h" by auto
  with deliv_worker(1) [OF assms] deliv_call(3) [OF assms(1,3)] have "waiting (place_of s h) = Some (c, ch)"
    by blast
  then show "bufs (grp s) ch = None"
    by (rule deliv_wait [OF assms(1)])
      (use assms(3) deliv_worker(1) [OF assms] in \<open>auto simp: promised_def\<close>)
qed

text \<open>A step of \<open>g\<close> that keeps the group and does not change what \<open>g\<close> waits for or works on.\<close>

lemma deliv_frame:
  assumes "deliv_inv s" and "grp u = grp s" and "place_of u = place_of s"
    and "next_call u = next_call s" and "next_chan u = next_chan s"
    and "waiting p = waiting (place_of s g)" and "worker p = worker (place_of s g)"
    and "\<And>c ch cl d. waiting p = Some (c, ch) \<Longrightarrow> calls (grp s) c = Some cl \<Longrightarrow> saw_done p = Some d \<Longrightarrow> finished cl = d"
  shows "deliv_inv (move g p u)"
proof -
  have w: "waiting (place_of (move g p u) h) = waiting (place_of s h)"
    and v: "worker (place_of (move g p u) h) = worker (place_of s h)" for h
    using assms(3,6,7) by auto
  have "wait_ok (move g p u) h" for h
  proof (cases "h = g")
    case True
    have "wait_ok s g" using assms(1) by (simp add: deliv_inv_def)
    with True assms show ?thesis by (auto simp: wait_ok_def)
  next
    case False
    have "wait_ok s h" using assms(1) by (simp add: deliv_inv_def)
    with False assms show ?thesis by (simp add: wait_ok_def)
  qed
  moreover have "worker_ok (move g p u) h" for h
    using assms(1,2) v unfolding deliv_inv_def worker_ok_def by simp
  moreover have "call_ok (move g p u) c" for c
    using assms(1,2,4) w unfolding deliv_inv_def call_ok_def by simp
  moreover have "h = h'" if "waiting (place_of (move g p u) h) = Some (c, ch)"
      "waiting (place_of (move g p u) h') = Some (d, ch)" for h h' c d ch
    using that deliv_unique [OF assms(1), of h c ch h' d] unfolding w by simp
  moreover have "ch < next_chan (move g p u)" if "bufs (grp (move g p u)) ch \<noteq> None" for ch
    using that deliv_bufs [OF assms(1), of ch] assms(2,5) by simp
  ultimately show ?thesis
    unfolding deliv_inv_def by blast
qed

text \<open>
  The parts of the invariant together, after a step in which only \<open>g\<close> changes what it waits for: it stops
  waiting, or waits on a fresh channel.
\<close>

lemma deliv_inv_intro:
  assumes D: "deliv_inv s" and old: "\<And>h. waiting (place_of t h) = (if h = g then x else waiting (place_of s h))"
    and new: "x = None \<or> snd (the x) = next_chan s \<or> x = waiting (place_of s g)"
    and "\<And>h. wait_ok t h" and "\<And>h. worker_ok t h" and "\<And>c. call_ok t c"
    and "\<And>ch. bufs (grp t) ch \<noteq> None \<Longrightarrow> ch < next_chan t"
  shows "deliv_inv t"
proof -
  have chl: "ch < next_chan s" if "waiting (place_of s h) = Some (c, ch)" for h c ch
    using deliv_wait [OF D that] by blast
  have "h = h'" if "waiting (place_of t h) = Some (c, ch)" "waiting (place_of t h') = Some (d, ch)" for h h' c d ch
    using that new old [of h] old [of h'] chl [of h c ch] chl [of h' d ch] deliv_unique [OF D, of h c ch h' d]
    by (auto split: if_splits)
  with assms(4-7) show ?thesis unfolding deliv_inv_def by blast
qed

text \<open>A new worker of a new call.\<close>

lemma deliv_worker_new:
  assumes D: "deliv_inv s" and old: "\<And>h. worker (place_of t h) = (if h = w then Some c else worker (place_of s h))"
    and gr: "calls (grp t) = (calls (grp s))(c \<mapsto> cl)" and "\<not> finished cl" and less: "\<And>d cd. calls (grp s) d = Some cd \<Longrightarrow> d < c"
  shows "worker_ok t h"
proof (cases "h = w")
  case True
  have "worker (place_of s h') \<noteq> Some c" for h'
  proof
    assume "worker (place_of s h') = Some c"
    from deliv_worker_call [OF D this] less show False by blast
  qed
  with True gr old assms(4) show ?thesis by (auto simp: worker_ok_def)
next
  case False
  show ?thesis
    unfolding worker_ok_def
  proof (intro allI impI)
    fix d
    assume "worker (place_of t h) = Some d"
    then have s: "worker (place_of s h) = Some d" using old False by simp
    from deliv_worker_call [OF D s] obtain cd where cd: "calls (grp s) d = Some cd" "\<not> finished cd" .
    have "h' = h" if "worker (place_of t h') = Some d" for h'
      using that old [of h'] deliv_worker(2) [OF D s cd(1), of h'] less [OF cd(1)] by (auto split: if_splits)
    with cd gr less [OF cd(1)]
    show "(\<exists>cl. calls (grp t) d = Some cl \<and> \<not> finished cl) \<and> (\<forall>h'. worker (place_of t h') = Some d \<longrightarrow> h' = h)"
      by auto
  qed
qed

text \<open>One lemma per step that changes the group.\<close>

lemma deliv_inv_fresh:
  assumes D: "deliv_inv s" and fresh: "place_of s g = HoldG k"
      "m (grp s) k = None"
      "place_of s w = Rest"
      "t = move w (InFn (next_call s)) (move g (Select k (next_call s) (next_chan s))
        (s\<lparr>grp := create g k (next_call s) (next_chan s) (grp s), gmu := None,
          next_call := Suc (next_call s), next_chan := Suc (next_chan s)\<rparr>))"
  shows "deliv_inv t"
proof -
  have "w \<noteq> g" using fresh(1,3) by auto
  let ?c = "next_call s" and ?ch = "next_chan s"
  let ?cl = "\<lparr>ckey = k, cancelled = False, waiters = [?ch \<mapsto> g], initiator = ?ch, finished = False,
    outcome_of = None\<rparr>"
  have pl: "place_of t h = (if h = w then InFn ?c else if h = g then Select k ?c ?ch else place_of s h)" for h
    using fresh by simp
  have gr: "calls (grp t) = (calls (grp s))(?c \<mapsto> ?cl)" "bufs (grp t) = bufs (grp s)"
    "next_call t = Suc ?c" "next_chan t = Suc ?ch"
    using fresh by (auto simp: create_def)
  have old: "waiting (place_of t h) = (if h = g then Some (?c, ?ch) else waiting (place_of s h))"
    "worker (place_of t h) = (if h = w then Some ?c else worker (place_of s h))" for h
    using fresh \<open>w \<noteq> g\<close> pl [of h] by auto
  have free: "bufs (grp s) ?ch = None"
    using deliv_bufs [OF D, of ?ch] by fastforce
  have less: "c < ?c" if "calls (grp s) c = Some cl" for c cl
    using deliv_call(1) [OF D that] .
  have W: "wait_ok t h" for h
  proof (cases "h = g")
    case True
    with free gr old pl [of h] \<open>w \<noteq> g\<close> show ?thesis by (auto simp: wait_ok_def promised_def)
  next
    case False
    have "saw_done (place_of t h) = saw_done (place_of s h)"
      using False pl [of h] fresh by auto
    with False show ?thesis
      by - (rule deliv_wait_keep [OF D], use gr old less in \<open>auto split: if_splits\<close>)
  qed
  have K: "worker_ok t h" for h
    by (rule deliv_worker_new [OF D old(2) gr(1) _ less]) simp
  have C: "call_ok t c" for c
  proof (cases "c = ?c")
    case True
    with gr old show ?thesis by (auto simp: call_ok_def split: if_splits)
  next
    case False
    have "call_ok s c" using D by (simp add: deliv_inv_def)
    moreover have "waiting (place_of s g) = None" using fresh by simp
    ultimately show ?thesis
      using False gr old unfolding call_ok_def by fastforce
  qed
  have B: "ch < next_chan t" if "bufs (grp t) ch \<noteq> None" for ch
    using deliv_bufs [OF D, of ch] that gr by simp
  show ?thesis
    by (rule deliv_inv_intro [OF D old(1) _ W K C B]) simp
qed

lemma deliv_inv_joined:
  assumes D: "deliv_inv s" and joined: "place_of s g = HoldGC k c"
      "calls (grp s) c = Some cl"
      "\<not> finished cl"
      "t = move g (Select k c (next_chan s)) (s\<lparr>gmu := None, cmu := (cmu s)(c := None),
        grp := join g c (next_chan s) cl (grp s), next_chan := Suc (next_chan s)\<rparr>)"
  shows "deliv_inv t"
proof -
  let ?ch = "next_chan s"
  have pl: "place_of t h = (if h = g then Select k c ?ch else place_of s h)" for h
    using joined by simp
  have gr: "calls (grp t) = (calls (grp s))(c \<mapsto> cl\<lparr>waiters := (waiters cl)(?ch \<mapsto> g)\<rparr>)"
    "bufs (grp t) = bufs (grp s)" "next_call t = next_call s" "next_chan t = Suc ?ch"
    using joined by (auto simp: join_def)
  have old: "waiting (place_of t h) = (if h = g then Some (c, ?ch) else waiting (place_of s h))"
    "worker (place_of t h) = worker (place_of s h)" for h
    using joined pl [of h] by auto
  have free: "bufs (grp s) ?ch = None"
    using deliv_bufs [OF D, of ?ch] by fastforce
  have chl: "ch < ?ch" if "waiting (place_of s h) = Some (c, ch)" for h c ch
    using deliv_wait [OF D that] by blast
  have W: "wait_ok t h" for h
  proof (cases "h = g")
    case True
    with free gr old pl [of h] joined(3) show ?thesis by (auto simp: wait_ok_def promised_def)
  next
    case False
    have "ch \<noteq> ?ch" if "waiting (place_of s h) = Some (d, ch)" for d ch
      using chl [OF that] by simp
    with False show ?thesis
      by - (rule deliv_wait_keep [OF D], use gr old pl [of h] joined(2) in \<open>auto simp: promised_def\<close>)
  qed
  have K: "worker_ok t h" for h
    by (rule deliv_worker_keep [OF D]) (use gr old joined(2) in \<open>auto split: if_splits\<close>)
  have C: "call_ok t d" for d
  proof -
    have "call_ok s d" using D by (simp add: deliv_inv_def)
    moreover have "waiting (place_of s g) = None" using joined by simp
    ultimately show ?thesis
      using gr(1,3) old(1) joined(2,3) unfolding call_ok_def by (cases "d = c") auto
  qed
  have B: "ch < next_chan t" if "bufs (grp t) ch \<noteq> None" for ch
    using deliv_bufs [OF D, of ch] that gr by simp
  show ?thesis
    by (rule deliv_inv_intro [OF D old(1) _ W K C B]) simp
qed

lemma deliv_inv_receive:
  assumes D: "deliv_inv s" and receive: "place_of s g = Select k c ch \<or> place_of s g = Recv c ch"
      "bufs (grp s) ch = Some r"
      "t = move g (Ret r) (s\<lparr>grp := (grp s)\<lparr>bufs := (bufs (grp s))(ch := None)\<rparr>\<rparr>)"
  shows "deliv_inv t"
proof -
  have gr: "calls (grp t) = calls (grp s)" "bufs (grp t) = (bufs (grp s))(ch := None)"
    "next_call t = next_call s" "next_chan t = next_chan s"
    using receive by auto
  have here: "waiting (place_of s g) = Some (c, ch)" "worker (place_of s g) = None"
    using receive(1) by auto
  have old: "waiting (place_of t h) = (if h = g then None else waiting (place_of s h))"
    "worker (place_of t h) = worker (place_of s h)" for h
    using receive here by auto
  obtain cl where cl: "calls (grp s) c = Some cl" "finished cl"
    by (rule deliv_wait [OF D here(1)]) (use receive(2) that in \<open>auto simp: promised_def split: if_splits\<close>)
  have W: "wait_ok t h" for h
  proof (cases "h = g")
    case True
    with old [of h] show ?thesis by (simp add: wait_ok_def)
  next
    case False
    have "ch' \<noteq> ch" if "waiting (place_of s h) = Some (d, ch')" for d ch'
      using deliv_unique [OF D here(1), of h d] that False by auto
    moreover have "saw_done (place_of t h) = saw_done (place_of s h)"
      using receive False by simp
    ultimately show ?thesis
      by - (rule deliv_wait_keep [OF D], use False gr old in auto)
  qed
  have K: "worker_ok t h" for h
    using D gr old unfolding deliv_inv_def worker_ok_def by simp
  have C: "call_ok t d" for d
    using D gr old cl here unfolding deliv_inv_def call_ok_def by auto
  have B: "ch < next_chan t" if "bufs (grp t) ch \<noteq> None" for ch
    using deliv_bufs [OF D, of ch] that gr by (simp split: if_splits)
  show ?thesis
    by (rule deliv_inv_intro [OF D old(1) _ W K C B]) simp
qed

lemma deliv_inv_left:
  assumes D: "deliv_inv s" and left: "place_of s g = HoldCG k c ch"
      "calls (grp s) c = Some cl"
      "t = move g (Ret (Result None (Some CtxErr)))
        (s\<lparr>grp := leave k c ch cl (grp s), gmu := None, cmu := (cmu s)(c := None)\<rparr>)"
  shows "deliv_inv t"
proof -
  let ?ws = "(waiters cl)(ch := None)"
  have here: "waiting (place_of s g) = Some (c, ch)" "worker (place_of s g) = None"
    using left(1) by auto
  have unfin: "\<not> finished cl"
    by (rule deliv_wait [OF D here(1)]) (use left(1,2) in auto)
  obtain b where gr: "calls (grp t) = (calls (grp s))(c \<mapsto> cl\<lparr>waiters := ?ws, cancelled := b\<rparr>)"
    and gs: "bufs (grp t) = bufs (grp s)" "next_call t = next_call s" "next_chan t = next_chan s"
  proof (cases "?ws = Map.empty")
    case True
    with left that [of True] show ?thesis by (simp add: leave_def)
  next
    case False
    with left that [of "cancelled cl"] show ?thesis by (simp add: leave_def)
  qed
  have old: "waiting (place_of t h) = (if h = g then None else waiting (place_of s h))"
    "worker (place_of t h) = worker (place_of s h)" for h
    using left here by auto
  have W: "wait_ok t h" for h
  proof (cases "h = g")
    case True
    with old [of h] show ?thesis by (simp add: wait_ok_def)
  next
    case False
    have "ch' \<noteq> ch" if "waiting (place_of s h) = Some (d, ch')" for d ch'
      using deliv_unique [OF D here(1), of h d] that False by auto
    moreover have "place_of t h = place_of s h"
      using left False by simp
    ultimately show ?thesis
      by - (rule deliv_wait_keep [OF D], use False gr gs left(2) in \<open>auto simp: promised_def\<close>)
  qed
  have K: "worker_ok t h" for h
    by (rule deliv_worker_keep [OF D]) (use gr old left(2) in \<open>auto split: if_splits\<close>)
  have C: "call_ok t d" for d
  proof -
    have "call_ok s d" using D by (simp add: deliv_inv_def)
    with gr gs old(1) left(2) unfin here show ?thesis
      unfolding call_ok_def by (cases "d = c") auto
  qed
  have B: "ch < next_chan t" if "bufs (grp t) ch \<noteq> None" for ch
    using deliv_bufs [OF D, of ch] that gs by simp
  show ?thesis
    by (rule deliv_inv_intro [OF D old(1) _ W K C B]) simp
qed

text \<open>While the worker holds \<open>c.mu\<close>, no waiter of its call is between its test of \<open>c.done\<close> and its departure.\<close>

lemma finish_alone:
  assumes L: "lock_inv s" and "place_of s g = RHoldGC c out" and "waiting (place_of s h) = Some (c, ch)"
  shows "saw_done (place_of s h) \<noteq> Some False"
proof
  assume "saw_done (place_of s h) = Some False"
  with assms(3) have "cheld (place_of s h) = Some c" by (cases "place_of s h") auto
  with L have "cmu s c = Some h" by (simp add: lock_inv_def)
  moreover have "cmu s c = Some g" using L assms(2) by (simp add: lock_inv_c)
  ultimately show False using assms(2,3) by auto
qed

lemma deliv_inv_finish:
  assumes L: "lock_inv s" and D: "deliv_inv s" and finish: "place_of s g = RHoldGC c out"
      "calls (grp s) c = Some cl"
      "sends_ready cl (grp s)"
      "t = move g Rest (s\<lparr>grp := finish c out cl (grp s), gmu := None, cmu := (cmu s)(c := None)\<rparr>)"
  shows "deliv_inv t"
proof -
  let ?cl = "cl\<lparr>finished := True, outcome_of := Some out\<rparr>"
  have here: "waiting (place_of s g) = None" "worker (place_of s g) = Some c"
    using finish(1) by auto
  have unfin: "\<not> finished cl" and one: "worker (place_of s h) = Some c \<Longrightarrow> h = g" for h
    using deliv_worker [OF D here(2) finish(2)] by auto
  have gr: "calls (grp t) = (calls (grp s))(c \<mapsto> ?cl)" "next_call t = next_call s" "next_chan t = next_chan s"
    "bufs (grp t) ch = (if waiters cl ch \<noteq> None then Some (delivery (initiator cl) out ch) else bufs (grp s) ch)" for ch
    using finish by (auto simp: finish_def)
  have old: "waiting (place_of t h) = (if h = g then waiting (place_of s g) else waiting (place_of s h))"
    "worker (place_of t h) = (if h = g then None else worker (place_of s h))" for h
    using finish here by auto
  have mine: "waiting (place_of s h) = Some (c, ch)" if "waiters cl ch = Some h" for h ch
    using deliv_call(3) [OF D finish(2) unfin that] .
  have W: "wait_ok t h" for h
    unfolding wait_ok_def
  proof (intro allI impI)
    fix d ch
    assume "waiting (place_of t h) = Some (d, ch)"
    then have w: "waiting (place_of s h) = Some (d, ch)" using old(1) [of h] by (simp split: if_splits)
    from deliv_wait [OF D w] obtain cd where
      cd: "calls (grp s) d = Some cd" "waiters cd ch = Some h" "bufs (grp s) ch = promised cd ch"
        "ch < next_chan s" "\<And>e. saw_done (place_of s h) = Some e \<Longrightarrow> finished cd = e" by blast
    have "h \<noteq> g" using here w by auto
    then have same: "place_of t h = place_of s h" using finish by simp
    show "ch < next_chan t \<and> (\<exists>cl. calls (grp t) d = Some cl \<and> waiters cl ch = Some h \<and>
      bufs (grp t) ch = promised cl ch \<and> (\<forall>e. saw_done (place_of t h) = Some e \<longrightarrow> finished cl = e))"
    proof (cases "d = c")
      case True
      with cd gr finish(2) same finish_alone [OF L finish(1), of h ch] w show ?thesis
        by (auto simp: promised_def)
    next
      case False
      have "waiters cl ch = None"
      proof (rule ccontr)
        assume "waiters cl ch \<noteq> None"
        then obtain h' where h': "waiting (place_of s h') = Some (c, ch)" using mine by auto
        with deliv_unique [OF D w h'] w False show False by auto
      qed
      with cd gr False same show ?thesis by simp
    qed
  qed
  have K: "worker_ok t h" for h
    by (rule deliv_worker_keep [OF D]) (use gr(1) old one in \<open>auto split: if_splits\<close>)
  have C: "call_ok t d" for d
  proof -
    have "call_ok s d" using D by (simp add: deliv_inv_def)
    with gr(1-3) old(1) finish(2) show ?thesis
      unfolding call_ok_def by (cases "d = c") auto
  qed
  have B: "ch < next_chan t" if "bufs (grp t) ch \<noteq> None" for ch
  proof (cases "waiters cl ch")
    case None
    with deliv_bufs [OF D, of ch] that gr show ?thesis by simp
  next
    case (Some h)
    from deliv_wait [OF D mine [OF Some]] gr show ?thesis by auto
  qed
  show ?thesis
    by (rule deliv_inv_intro [OF D old(1) _ W K C B]) simp
qed

lemma deliv_inv_step:
  assumes L: "lock_inv s" and M: "map_inv s" and D: "deliv_inv s" and "batto_step l s = Some t"
  shows "deliv_inv t"
  using assms(4)
proof (cases rule: batto_step_cases)
  case (ctx g)
  with D show ?thesis by (simp add: deliv_inv_def wait_ok_def worker_ok_def call_ok_def)
next
  case (fresh g k w)
  then show ?thesis by (rule deliv_inv_fresh [OF D])
next
  case (joined g k c cl)
  then show ?thesis by (rule deliv_inv_joined [OF D])
next
  case (receive g k c ch r)
  then show ?thesis by (rule deliv_inv_receive [OF D])
next
  case (left g k c ch cl)
  then show ?thesis by (rule deliv_inv_left [OF D])
next
  case (finish g c out cl)
  then show ?thesis by (rule deliv_inv_finish [OF L D])
next
  case (join_fatal g k c cl)
  with M have "\<not> finished cl"
    unfolding map_inv_def by fastforce
  with join_fatal show ?thesis by simp
next
  case (wait_g g k c ch)
  then have w: "waiting (place_of s g) = Some (c, ch)" "saw_done (place_of s g) = Some False"
    by simp_all
  obtain cl where "calls (grp s) c = Some cl" "\<not> finished cl"
    by (rule deliv_wait [OF D w(1)]) (use w(2) in blast)
  with wait_g show ?thesis
    by (hypsubst, intro deliv_frame [OF D]) auto
qed ((hypsubst, rule deliv_frame [OF D]); auto)+

section \<open>One live call per key\<close>

text \<open>As long as no call was cancelled, every call that still runs is the one its key leads to.\<close>

definition single_inv :: "('k, 'v, 'e) batto \<Rightarrow> bool" where
  "single_inv s \<longleftrightarrow> (\<forall>c cl. calls (grp s) c = Some cl \<longrightarrow> \<not> cancelled cl) \<longrightarrow>
     (\<forall>c cl. calls (grp s) c = Some cl \<and> \<not> finished cl \<longrightarrow> m (grp s) (ckey cl) = Some c)"

lemma single_inv_start: "single_inv batto_start"
  by (simp add: single_inv_def batto_start_def)

lemma single_inv_frame: "single_inv s \<Longrightarrow> m (grp t) = m (grp s) \<Longrightarrow> calls (grp t) = calls (grp s) \<Longrightarrow> single_inv t"
  by (simp add: single_inv_def)

lemma single_inv_fresh:
  assumes D: "deliv_inv s" and S: "single_inv s" and "m (grp s) k = None"
    and gr: "m (grp t) = (m (grp s))(k \<mapsto> next_call s)"
    and calls: "calls (grp t) = (calls (grp s))(next_call s \<mapsto> cn)" and cn: "ckey cn = k" "\<not> cancelled cn"
  shows "single_inv t"
  unfolding single_inv_def
proof (intro impI allI)
  fix c cl
  assume live: "\<forall>c cl. calls (grp t) c = Some cl \<longrightarrow> \<not> cancelled cl"
    and c: "calls (grp t) c = Some cl \<and> \<not> finished cl"
  have new: "calls (grp s) (next_call s) = None"
    using deliv_call(1) [OF D, of "next_call s"] by fastforce
  have "\<forall>c cl. calls (grp s) c = Some cl \<longrightarrow> \<not> cancelled cl"
  proof (intro allI impI)
    fix d cd
    assume "calls (grp s) d = Some cd"
    with new have "calls (grp t) d = Some cd" unfolding calls by auto
    with live show "\<not> cancelled cd" by blast
  qed
  with S have "calls (grp s) c = Some cl \<and> \<not> finished cl \<longrightarrow> m (grp s) (ckey cl) = Some c"
    by (simp add: single_inv_def)
  with c assms(3) cn show "m (grp t) (ckey cl) = Some c"
    unfolding gr calls by (auto split: if_splits)
qed

lemma single_inv_finish:
  assumes S: "single_inv s" and cl: "calls (grp s) c = Some cl" "\<not> finished cl"
    and gr: "m (grp t) = (m (grp s))(ckey cl := None)"
      "calls (grp t) = (calls (grp s))(c \<mapsto> cl\<lparr>finished := True, outcome_of := Some out\<rparr>)"
  shows "single_inv t"
  unfolding single_inv_def
proof (intro impI allI)
  fix d cd
  assume live: "\<forall>c cl. calls (grp t) c = Some cl \<longrightarrow> \<not> cancelled cl"
    and d: "calls (grp t) d = Some cd \<and> \<not> finished cd"
  then have "d \<noteq> c" using gr by (auto split: if_splits)
  with d gr have ds: "calls (grp s) d = Some cd" by simp
  have "\<not> cancelled ce" if e: "calls (grp s) i = Some ce" for i ce
  proof (cases "i = c")
    case True
    have "\<not> cancelled (cl\<lparr>finished := True, outcome_of := Some out\<rparr>)"
      using live gr by (metis fun_upd_same)
    with True e cl show ?thesis by simp
  next
    case False
    with e gr live show ?thesis by (metis fun_upd_other)
  qed
  with S have all: "\<And>c cl. calls (grp s) c = Some cl \<and> \<not> finished cl \<Longrightarrow> m (grp s) (ckey cl) = Some c"
    by (auto simp: single_inv_def)
  have "m (grp s) (ckey cl) = Some c" "m (grp s) (ckey cd) = Some d"
    using all [of c cl] all [of d cd] cl ds d by auto
  with \<open>d \<noteq> c\<close> show "m (grp t) (ckey cd) = Some d"
    using gr by auto
qed

lemma single_inv_step:
  assumes M: "map_inv s" and D: "deliv_inv s" and S: "single_inv s" and "batto_step l s = Some t"
  shows "single_inv t"
  using assms(4)
proof (cases rule: batto_step_cases)
  case (fresh g k w)
  then show ?thesis by (intro single_inv_fresh [OF D S]) (auto simp: create_def)
next
  case (joined g k c cl)
  have "m (grp t) = m (grp s)" "calls (grp t) = (calls (grp s))(c \<mapsto> cl\<lparr>waiters := (waiters cl)(next_chan s \<mapsto> g)\<rparr>)"
    using joined by (auto simp: join_def)
  with S joined(2) show ?thesis
    unfolding single_inv_def by (auto split: if_splits)
next
  case (left g k c ch cl)
  let ?ws = "(waiters cl)(ch := None)"
  show ?thesis
  proof (cases "?ws = Map.empty")
    case True
    then have "calls (grp t) c = Some (cl\<lparr>waiters := ?ws, cancelled := True\<rparr>)"
      using left by (simp add: leave_def)
    moreover have "cancelled (cl\<lparr>waiters := ?ws, cancelled := True\<rparr>)"
      by simp
    ultimately show ?thesis
      unfolding single_inv_def by blast
  next
    case False
    then have "m (grp t) = m (grp s)" "calls (grp t) = (calls (grp s))(c \<mapsto> cl\<lparr>waiters := ?ws\<rparr>)"
      using left by (auto simp: leave_def)
    with S left(2) show ?thesis
      unfolding single_inv_def by (auto split: if_splits)
  qed
next
  case (finish g c out cl)
  moreover have "\<not> finished cl"
    using deliv_worker(1) [OF D _ finish(2), of g] finish(1) by simp
  ultimately show ?thesis
    by (intro single_inv_finish [OF S finish(2)]) (auto simp: finish_def)
qed ((hypsubst, rule single_inv_frame [OF S]); simp)+

definition batto_inv :: "('k, 'v, 'e) batto \<Rightarrow> bool" where
  "batto_inv s \<longleftrightarrow> lock_inv s \<and> map_inv s \<and> deliv_inv s \<and> single_inv s"

interpretation batto: inductive_invariant "(=) batto_start" "labelled batto_step" batto_inv
  by unfold_locales
    (auto simp: batto_inv_def labelled_def lock_inv_start map_inv_start deliv_inv_start single_inv_start
      intro: lock_inv_step map_inv_step deliv_inv_step single_inv_step)

lemma batto_reach_run: "run batto_step ls batto_start = Some s \<Longrightarrow> batto_reach s"
  by (rule reach_run) (auto intro: reach_start)

lemmas batto_run_defs = batto_section_defs group_defs batto_start_def sends_ready_def delivery_def

section \<open>What the group promises\<close>

text \<open>
  C2 (safety): As long as no call was cancelled by the departure of all its waiters, at most one worker
  runs per key: two goroutines that execute the function of calls with the same key are the same.
\<close>

theorem batto_single_flight:
  assumes "batto_reach s" and "\<forall>c cl. calls (grp s) c = Some cl \<longrightarrow> \<not> cancelled cl"
    and "worker (place_of s g) = Some c" and "worker (place_of s h) = Some d"
    and "map_option ckey (calls (grp s) c) = map_option ckey (calls (grp s) d)"
  shows "g = h"
proof -
  from batto.inv_reachable [OF assms(1)] have D: "deliv_inv s" and S: "single_inv s"
    by (auto simp: batto_inv_def)
  obtain cl where c: "calls (grp s) c = Some cl" "\<not> finished cl"
    using deliv_worker_call [OF D assms(3)] .
  obtain cd where d: "calls (grp s) d = Some cd" "\<not> finished cd"
    using deliv_worker_call [OF D assms(4)] .
  have "m (grp s) (ckey cl) = Some c" "m (grp s) (ckey cd) = Some d"
    using S assms(2) c d unfolding single_inv_def by blast+
  with assms(5) c d have "c = d" by simp
  with deliv_worker(2) [OF D assms(4) d(1), of g] assms(3) show ?thesis by simp
qed

definition flight_trace :: "(nat, nat, unit) label list" where
  "flight_trace = [Do 0 7, LockG 0, Lookup 0 10, Do 1 7, LockG 1, Lookup 1 11, LockC 1, Join 1]"

theorem batto_single_flight_witness:
  "case run batto_step flight_trace batto_start of None \<Rightarrow> False
   | Some s \<Rightarrow> worker (place_of s 10) = Some 0 \<and> waiting (place_of s 1) = Some (0, 1) \<and> (11::nat) \<noteq> 10 \<and>
       worker (place_of s 11) \<noteq> Some 0"
proof -
  have "\<exists>s. run batto_step flight_trace batto_start = Some s \<and> worker (place_of s 10) = Some 0 \<and>
      waiting (place_of s 1) = Some (0, 1) \<and> (\<forall>c cl. calls (grp s) c = Some cl \<longrightarrow> \<not> cancelled cl)"
    by (simp add: flight_trace_def batto_run_defs)
  then obtain s where s: "run batto_step flight_trace batto_start = Some s" "worker (place_of s 10) = Some 0"
    "waiting (place_of s 1) = Some (0, 1)" "\<forall>c cl. calls (grp s) c = Some cl \<longrightarrow> \<not> cancelled cl" by blast
  have "worker (place_of s 11) \<noteq> Some 0"
    using batto_single_flight [OF batto_reach_run [OF s(1)] s(4), of 11 0 10 0] s(2) by auto
  with s show ?thesis by simp
qed

text \<open>
  C3 (functional): A goroutine that waits on the channel \<open>ch\<close> of call \<open>c\<close> is registered in its waiters, and its
  channel holds exactly what the call promised it: nothing while the call runs; once it finished,
  the worker's value and error, or on a panic the panic for the initiator and
  \<open>ErrWorkerPanicked\<close> for everybody else. Nobody else takes the result out of the channel.
\<close>

theorem batto_delivery:
  assumes "batto_reach s" and "waiting (place_of s g) = Some (c, ch)" and "calls (grp s) c = Some cl"
  shows "waiters cl ch = Some g \<and>
    bufs (grp s) ch = (if finished cl then
           Some (case the (outcome_of cl) of Returned (v, e) \<Rightarrow> Result (Some v) (map_option WorkerErr e)
                 | Panicked \<Rightarrow> if ch = initiator cl then PanicVal else Result None (Some ErrWorkerPanicked))
         else None) \<and>
    (finished cl \<longrightarrow> outcome_of cl \<noteq> None)"
proof -
  from batto.inv_reachable [OF assms(1)] have D: "deliv_inv s"
    by (simp add: batto_inv_def)
  note fin = deliv_call(2) [OF D assms(3)]
  obtain cl' where cl: "calls (grp s) c = Some cl'" "waiters cl' ch = Some g" "bufs (grp s) ch = promised cl' ch"
    using deliv_wait [OF D assms(2)] .
  with assms(3) fin show ?thesis
    by (auto simp: promised_def delivery_def)
qed

definition panic_trace :: "(nat, nat, unit) label list" where
  "panic_trace = flight_trace @ [FnEnds 10 Panicked, LockG 10, LockC 10, Finish 10]"

theorem batto_delivery_witness:
  "case run batto_step panic_trace batto_start of None \<Rightarrow> False
   | Some s \<Rightarrow> bufs (grp s) 0 = Some PanicVal \<and> bufs (grp s) 1 = Some (Result None (Some ErrWorkerPanicked))"
proof -
  have "\<exists>s cl. run batto_step panic_trace batto_start = Some s \<and> waiting (place_of s 0) = Some (0, 0) \<and>
      waiting (place_of s 1) = Some (0, 1) \<and> calls (grp s) 0 = Some cl \<and> finished cl \<and>
      outcome_of cl = Some Panicked \<and> initiator cl = 0"
    by (simp add: panic_trace_def flight_trace_def batto_run_defs)
  then obtain s cl where s: "run batto_step panic_trace batto_start = Some s" "waiting (place_of s 0) = Some (0, 0)"
    "waiting (place_of s 1) = Some (0, 1)" "calls (grp s) 0 = Some cl" "finished cl"
    "outcome_of cl = Some Panicked" "initiator cl = 0" by blast
  note r = batto_reach_run [OF s(1)]
  have "bufs (grp s) 0 = Some PanicVal" "bufs (grp s) 1 = Some (Result None (Some ErrWorkerPanicked))"
    using batto_delivery [OF r s(2,4)] batto_delivery [OF r s(3,4)] s(5-7) by simp_all
  with s(1) show ?thesis by simp
qed

text \<open>
  The worker's final section never blocks on a full channel and is enabled as soon as it holds
  both mutexes, and no goroutine ever releases a mutex it does not hold: the path in \<open>Do\<close> that
  falls through a finished call is dead, because a finished call is never found in the map.
\<close>

theorem batto_finish_enabled:
  assumes "batto_reach s" and "place_of s g = RHoldGC c out"
  shows "run_finish g s \<noteq> None \<and> place_of s h \<noteq> Fatal"
proof -
  from batto.inv_reachable [OF assms(1)] have D: "deliv_inv s" and M: "map_inv s"
    by (auto simp: batto_inv_def)
  have w: "worker (place_of s g) = Some c" using assms(2) by simp
  obtain cl where cl: "calls (grp s) c = Some cl"
    using deliv_worker_call [OF D w] .
  from deliv_ready [OF D w cl] cl assms(2) have "run_finish g s \<noteq> None"
    by (simp add: run_finish_def)
  with M show ?thesis
    by (simp add: map_inv_def)
qed

theorem batto_finish_enabled_witness:
  "case run batto_step (flight_trace @ [FnEnds 10 (Returned (5, None)), LockG 10, LockC 10]) batto_start of
     None \<Rightarrow> False | Some s \<Rightarrow> run_finish 10 s \<noteq> None \<and> place_of s 1 \<noteq> Fatal"
proof -
  let ?ls = "flight_trace @ [FnEnds 10 (Returned (5, None)), LockG 10, LockC 10]"
  have "\<exists>s. run batto_step ?ls batto_start = Some s \<and> place_of s 10 = RHoldGC 0 (Returned (5, None))"
    by (simp add: flight_trace_def batto_run_defs)
  then obtain s where s: "run batto_step ?ls batto_start = Some s" "place_of s 10 = RHoldGC 0 (Returned (5, None))"
    by blast
  from batto_finish_enabled [OF batto_reach_run [OF s(1)] s(2), of 1] s(1) show ?thesis by simp
qed

section \<open>Two orders of locking\<close>

lemma deadlock_step:
  assumes "lock_inv s" and "place_of s g = CWantG k c ch" and "place_of s h = GWantC k' c" and "batto_step l s = Some t"
  shows "place_of t g = CWantG k c ch \<and> place_of t h = GWantC k' c"
proof -
  have "gmu s = Some h" "cmu s c = Some g"
    using lock_inv_g [OF assms(1), of h] lock_inv_c [OF assms(1), of g c] assms(2,3) by simp_all
  with assms(2,3) show ?thesis
    by (cases rule: batto_step_cases [OF assms(4)]) auto
qed

text \<open>
  \<open>Do\<close> takes \<open>g.mu\<close> and then \<open>c.mu\<close>; \<open>wait\<close>, on a cancelled context, takes \<open>c.mu\<close> and then
  \<open>g.mu\<close>. Once a departing waiter of a call and a goroutine that found the key of the same call
  hold one mutex each, both stay blocked in every continuation, and \<open>g.mu\<close> is never released: no
  \<open>Do\<close> of any key makes progress again.
\<close>

theorem batto_deadlock:
  assumes "batto_reach s" and "place_of s g = CWantG k c ch" and "place_of s h = GWantC k' c"
    and "run batto_step ls s = Some t"
  shows "place_of t g = CWantG k c ch \<and> place_of t h = GWantC k' c \<and> gmu t = Some h \<and> lock_g i t = None"
  using assms
proof (induction ls arbitrary: s)
  case Nil
  then have "lock_inv t"
    using batto.inv_reachable by (auto simp: batto_inv_def)
  with Nil show ?case
    using lock_inv_g [of t h] by (auto simp: lock_g_def)
next
  case (Cons l ls)
  then obtain u where u: "batto_step l s = Some u" "run batto_step ls u = Some t"
    by (auto split: option.splits)
  have "lock_inv s"
    using batto.inv_reachable [OF Cons.prems(1)] by (simp add: batto_inv_def)
  note next_places = deadlock_step [OF this Cons.prems(2,3) u(1)]
  have "labelled batto_step s u"
    using u(1) by (auto simp: labelled_def)
  then have "batto_reach u"
    by (rule reach_step [OF Cons.prems(1)])
  with next_places u(2) show ?case
    by (intro Cons.IH) auto
qed

definition deadlock_trace :: "(nat, nat, unit) label list" where
  "deadlock_trace = [Do 0 7, LockG 0, Lookup 0 10, CtxFires 0, TakeDone 0, LockC 0, Check 0,
     Do 1 7, LockG 1, Lookup 1 11]"

theorem batto_deadlock_witness:
  "case run batto_step (deadlock_trace @ [FnEnds 10 (Returned (5, None)), Do 2 8]) batto_start of None \<Rightarrow> False
   | Some t \<Rightarrow> place_of t 0 = CWantG 7 0 0 \<and> place_of t 1 = GWantC 7 0 \<and> lock_g 2 t = None"
proof -
  let ?ls = "[FnEnds 10 (Returned (5, None)), Do 2 8]"
  have "\<exists>s t. run batto_step deadlock_trace batto_start = Some s \<and> place_of s 0 = CWantG 7 0 0 \<and>
      place_of s 1 = GWantC 7 0 \<and> run batto_step ?ls s = Some t"
    by (simp add: deadlock_trace_def batto_run_defs)
  then obtain s t where s: "run batto_step deadlock_trace batto_start = Some s" "place_of s 0 = CWantG 7 0 0"
      "place_of s 1 = GWantC 7 0" and t: "run batto_step ?ls s = Some t" by blast
  from batto_deadlock [OF batto_reach_run [OF s(1)] s(2,3) t, of 2] s(1) t show ?thesis
    by (simp add: run_append)
qed

section \<open>A stale deletion\<close>

definition stale_trace :: "'k \<Rightarrow> ('k, nat, unit) label list" where
  "stale_trace k = [Do 0 k, LockG 0, Lookup 0 10, CtxFires 0, TakeDone 0, LockC 0, Check 0, LockG 0, Leave 0,
     Do 1 k, LockG 1, Lookup 1 11,
     FnEnds 10 (Returned (5, None)), LockG 10, LockC 10, Finish 10,
     Do 2 k, LockG 2, Lookup 2 12]"

text \<open>
  A worker whose waiters all left deletes the key when it ends, also when the key meanwhile
  leads to a newer call: then a third call of \<open>Do\<close> starts a second worker for the key while the
  first one runs with its waiter still there, that is, duplicates are not suppressed.
\<close>

theorem batto_stale_delete:
  "case run batto_step (stale_trace k) batto_start of None \<Rightarrow> False
   | Some s \<Rightarrow> place_of s 11 = InFn 1 \<and> place_of s 12 = InFn 2 \<and>
       place_of s 1 = Select k 1 1 \<and> place_of s 2 = Select k 2 2 \<and>
       map_option (\<lambda>cl. (ckey cl, cancelled cl)) (calls (grp s) 1) = Some (k, False) \<and>
       map_option (\<lambda>cl. (ckey cl, cancelled cl)) (calls (grp s) 2) = Some (k, False)"
  by (simp add: stale_trace_def batto_run_defs)

end
