(* ===== verification/Jobs.thy ===== *)
theory Jobs
  imports Prelude
begin

text \<open>
  \<open>jobs/jobs.go\<close>: correlation of requests and responses. The manager keeps its entries in a
  pluggable \<open>Store\<close>, which is a record of functions here and the locale \<open>job_store\<close> states what the
  manager relies on; \<open>memoryStore\<close> discharges it. Entries live at addresses, since \<open>Resolve\<close>,
  \<open>Remove\<close> and \<open>Close\<close> go on using an entry after they have released the manager's lock and
  \<open>entryPool\<close> recycles it. Each method is split into the section under \<open>m.mu\<close> and the tail after it;
  each of the two is atomic in the interleaving of goroutines.
\<close>

section \<open>Data\<close>

datatype 'e job_error =
    ErrJobTimeout | ErrJobClosed | ErrJobCancelled | ErrJobDuplicate | ErrJobNotFound | ErrWaitFor
  | CapacityReached int | StoreLen 'e | StoreGet 'e | StoreAdd 'e | Other 'e

text \<open>\<open>CallbackStrategy\<close>: the two of the package, and the caller's own.\<close>

datatype strategy = AsyncStrategy | SyncStrategy | CustomStrategy nat

record ('c, 'b) entry =
  callback :: "'b option"
  waitCh :: "nat option"
  keepAlive :: bool
  strategy :: "strategy option"
  ectx :: "'c go_ctx option"
  timerStop :: "nat option"
  ctxStop :: "nat option"

text \<open>A result channel of capacity one.\<close>

record ('v, 'e) job_chan =
  buf :: "('v \<times> 'e job_error option) option"
  shut :: bool

text \<open>The interface \<open>Store\<close>.\<close>

record ('s, 'k, 'c, 'e) store_ops =
  sAdd :: "'c go_ctx option \<Rightarrow> 'k \<Rightarrow> nat \<Rightarrow> 's \<Rightarrow> 'e option \<times> 's"
  sGet :: "'c go_ctx option \<Rightarrow> 'k \<Rightarrow> 's \<Rightarrow> 'e + nat option"
  sDelete :: "'c go_ctx option \<Rightarrow> 'k \<Rightarrow> 's \<Rightarrow> ('e + bool) \<times> 's"
  sLen :: "'c go_ctx option \<Rightarrow> 's \<Rightarrow> 'e + nat"
  sGetAll :: "'c go_ctx option \<Rightarrow> 's \<Rightarrow> 'e + ('k \<rightharpoonup> nat)"

text \<open>\<open>config\<close> and the options.\<close>

record 'c config =
  timeout :: int
  cctx :: "'c go_ctx option"
  ckeepAlive :: bool
  cwait :: bool
  cstrategy :: "strategy option"

definition defaultConfig :: "'c config" where
  "defaultConfig = \<lparr>timeout = 30 * 10 ^ 9, cctx = Some Background, ckeepAlive = False, cwait = False,
     cstrategy = None\<rparr>"

definition withTimeout :: "int \<Rightarrow> 'c config \<Rightarrow> 'c config" where
  "withTimeout d c = c\<lparr>timeout := d\<rparr>"

definition withContext :: "'c go_ctx option \<Rightarrow> 'c config \<Rightarrow> 'c config" where
  "withContext ctx c = c\<lparr>cctx := ctx\<rparr>"

definition withKeepAlive :: "bool \<Rightarrow> 'c config \<Rightarrow> 'c config" where
  "withKeepAlive k c = c\<lparr>ckeepAlive := k\<rparr>"

definition withWait :: "'c config \<Rightarrow> 'c config" where
  "withWait c = c\<lparr>cwait := True\<rparr>"

definition withCallbackStrategy :: "strategy option \<Rightarrow> 'c config \<Rightarrow> 'c config" where
  "withCallbackStrategy s c = c\<lparr>cstrategy := s\<rparr>"

text \<open>One execution of a callback: how, which, with which context, response and error.\<close>

datatype ('c, 'v, 'e, 'b) invocation = Invoked strategy 'b "'c go_ctx" 'v "'e job_error option"

text \<open>
  The manager. \<open>entryPool\<close> holds the addresses put into the \<open>sync.Pool\<close>; \<open>watchers\<close> are the armed
  timers and context watchers, each with the key it resolves and the error it resolves it with;
  \<open>called\<close> is the log of callback executions; \<open>panicked\<close> is set by a send on, or a second close of, a
  closed channel.
\<close>

record ('s, 'k, 'c, 'v, 'e, 'b) manager =
  store :: 's
  counter :: "64 word"
  closed :: bool
  capacity :: int
  mstrategy :: "strategy option"
  entries :: "nat \<Rightarrow> ('c, 'b) entry"
  entryPool :: "nat list"
  next_entry :: nat
  chans :: "nat \<Rightarrow> ('v, 'e) job_chan"
  next_chan :: nat
  watchers :: "nat \<rightharpoonup> 'k \<times> 'e job_error"
  next_watch :: nat
  called :: "('c, 'v, 'e, 'b) invocation list"
  panicked :: bool

definition empty_entry :: "('c, 'b) entry" where
  "empty_entry = \<lparr>callback = None, waitCh = None, keepAlive = False, strategy = None, ectx = None,
     timerStop = None, ctxStop = None\<rparr>"

definition newManagerWithStore :: "int \<Rightarrow> 's \<Rightarrow> ('s, 'k, 'c, 'v, 'e, 'b) manager" where
  "newManagerWithStore cap st = \<lparr>store = st, counter = 0, closed = False, capacity = cap,
     mstrategy = None, entries = (\<lambda>_. empty_entry), entryPool = [], next_entry = 0,
     chans = (\<lambda>_. \<lparr>buf = None, shut = False\<rparr>), next_chan = 0, watchers = Map.empty, next_watch = 0,
     called = [], panicked = False\<rparr>"

section \<open>The memory store\<close>

definition newMemoryStore :: "'k \<rightharpoonup> nat" where
  "newMemoryStore = Map.empty"

definition memAdd :: "'c go_ctx option \<Rightarrow> 'k \<Rightarrow> nat \<Rightarrow> ('k \<rightharpoonup> nat) \<Rightarrow> 'e option \<times> ('k \<rightharpoonup> nat)" where
  "memAdd ctx jid a s = (None, s(jid \<mapsto> a))"

definition memGet :: "'c go_ctx option \<Rightarrow> 'k \<Rightarrow> ('k \<rightharpoonup> nat) \<Rightarrow> 'e + nat option" where
  "memGet ctx jid s = Inr (s jid)"

definition memDelete :: "'c go_ctx option \<Rightarrow> 'k \<Rightarrow> ('k \<rightharpoonup> nat) \<Rightarrow> ('e + bool) \<times> ('k \<rightharpoonup> nat)" where
  "memDelete ctx jid s = (case s jid of None \<Rightarrow> (Inr False, s) | Some a \<Rightarrow> (Inr True, s(jid := None)))"

definition memLen :: "'c go_ctx option \<Rightarrow> ('k \<rightharpoonup> nat) \<Rightarrow> 'e + nat" where
  "memLen ctx s = Inr (card (dom s))"

definition memGetAll :: "'c go_ctx option \<Rightarrow> ('k \<rightharpoonup> nat) \<Rightarrow> 'e + ('k \<rightharpoonup> nat)" where
  "memGetAll ctx s = Inr s"

definition memoryStore :: "('k \<rightharpoonup> nat, 'k, 'c, 'e) store_ops" where
  "memoryStore = \<lparr>sAdd = memAdd, sGet = memGet, sDelete = memDelete, sLen = memLen, sGetAll = memGetAll\<rparr>"

definition newManager :: "int \<Rightarrow> ('k \<rightharpoonup> nat, 'k, 'c, 'v, 'e, 'b) manager" where
  "newManager cap = newManagerWithStore cap newMemoryStore"

lemmas mem_defs = memAdd_def memGet_def memDelete_def memLen_def memGetAll_def memoryStore_def newMemoryStore_def

section \<open>Entries, channels and watchers\<close>

text \<open>\<open>entryPool.Get\<close> returns any pooled entry (\<open>pick\<close>) or a new one.\<close>

definition pool_get :: "nat option \<Rightarrow> ('s, 'k, 'c, 'v, 'e, 'b) manager \<Rightarrow> nat \<times> ('s, 'k, 'c, 'v, 'e, 'b) manager" where
  "pool_get pick m =
     (case pick of
        Some a \<Rightarrow> if a \<in> set (entryPool m) then (a, m\<lparr>entryPool := remove1 a (entryPool m)\<rparr>)
                  else (next_entry m, m\<lparr>next_entry := Suc (next_entry m)\<rparr>)
      | None \<Rightarrow> (next_entry m, m\<lparr>next_entry := Suc (next_entry m)\<rparr>))"

text \<open>The end of an entry's life: its fields are cleared and it goes back to the pool.\<close>

definition release_entry :: "nat \<Rightarrow> ('s, 'k, 'c, 'v, 'e, 'b) manager \<Rightarrow> ('s, 'k, 'c, 'v, 'e, 'b) manager" where
  "release_entry a m = m\<lparr>entries := (entries m)(a := (entries m a)\<lparr>callback := None, timerStop := None,
     ctxStop := None, ectx := None\<rparr>), entryPool := a # entryPool m\<rparr>"

text \<open>\<open>time.AfterFunc\<close> and \<open>context.AfterFunc\<close>, and stopping what they returned.\<close>

definition arm :: "bool \<Rightarrow> 'k \<Rightarrow> 'e job_error \<Rightarrow> ('s, 'k, 'c, 'v, 'e, 'b) manager \<Rightarrow>
    nat option \<times> ('s, 'k, 'c, 'v, 'e, 'b) manager" where
  "arm b jid err m =
     (if b then (Some (next_watch m), m\<lparr>watchers := (watchers m)(next_watch m \<mapsto> (jid, err)), next_watch := Suc (next_watch m)\<rparr>)
      else (None, m))"

definition stop :: "nat option \<Rightarrow> ('s, 'k, 'c, 'v, 'e, 'b) manager \<Rightarrow> ('s, 'k, 'c, 'v, 'e, 'b) manager" where
  "stop w m = (case w of None \<Rightarrow> m | Some i \<Rightarrow> m\<lparr>watchers := (watchers m)(i := None)\<rparr>)"

definition make_chan :: "bool \<Rightarrow> ('s, 'k, 'c, 'v, 'e, 'b) manager \<Rightarrow> nat option \<times> ('s, 'k, 'c, 'v, 'e, 'b) manager" where
  "make_chan b m =
     (if b then (Some (next_chan m), m\<lparr>chans := (chans m)(next_chan m := \<lparr>buf = None, shut = False\<rparr>),
        next_chan := Suc (next_chan m)\<rparr>)
      else (None, m))"

definition send_close :: "nat option \<Rightarrow> 'v \<times> 'e job_error option \<Rightarrow> ('s, 'k, 'c, 'v, 'e, 'b) manager \<Rightarrow>
    ('s, 'k, 'c, 'v, 'e, 'b) manager" where
  "send_close w r m =
     (case w of
        None \<Rightarrow> m
      | Some ch \<Rightarrow> if shut (chans m ch) then m\<lparr>panicked := True\<rparr>
                   else m\<lparr>chans := (chans m)(ch := \<lparr>buf = Some r, shut = True\<rparr>)\<rparr>)"

definition close_chan :: "nat option \<Rightarrow> ('s, 'k, 'c, 'v, 'e, 'b) manager \<Rightarrow> ('s, 'k, 'c, 'v, 'e, 'b) manager" where
  "close_chan w m =
     (case w of
        None \<Rightarrow> m
      | Some ch \<Rightarrow> if shut (chans m ch) then m\<lparr>panicked := True\<rparr>
                   else m\<lparr>chans := (chans m)(ch := (chans m ch)\<lparr>shut := True\<rparr>)\<rparr>)"

text \<open>A callback runs with the entry's strategy, else the manager's, else asynchronously.\<close>

definition effective :: "strategy option \<Rightarrow> strategy option \<Rightarrow> strategy" where
  "effective s t = (case s of Some x \<Rightarrow> x | None \<Rightarrow> (case t of Some x \<Rightarrow> x | None \<Rightarrow> AsyncStrategy))"

definition invoke :: "'b option \<Rightarrow> strategy option \<Rightarrow> 'c go_ctx \<Rightarrow> 'v \<Rightarrow> 'e job_error option \<Rightarrow>
    ('s, 'k, 'c, 'v, 'e, 'b) manager \<Rightarrow> ('s, 'k, 'c, 'v, 'e, 'b) manager" where
  "invoke cb st ctx v err m =
     (case cb of None \<Rightarrow> m
      | Some f \<Rightarrow> m\<lparr>called := called m @ [Invoked (effective st (mstrategy m)) f ctx v err]\<rparr>)"

lemmas part_defs = pool_get_def release_entry_def arm_def stop_def make_chan_def send_close_def close_chan_def
  invoke_def

section \<open>The methods of the manager\<close>

text \<open>\<open>SetStore\<close>, \<open>SetCallbackStrategy\<close>: a \<open>nil\<close> argument changes nothing.\<close>

definition setStore :: "'s option \<Rightarrow> ('s, 'k, 'c, 'v, 'e, 'b) manager \<Rightarrow> ('s, 'k, 'c, 'v, 'e, 'b) manager" where
  "setStore st m = (case st of None \<Rightarrow> m | Some x \<Rightarrow> m\<lparr>store := x\<rparr>)"

definition setCallbackStrategy :: "strategy option \<Rightarrow> ('s, 'k, 'c, 'v, 'e, 'b) manager \<Rightarrow> ('s, 'k, 'c, 'v, 'e, 'b) manager" where
  "setCallbackStrategy st m = (case st of None \<Rightarrow> m | Some x \<Rightarrow> m\<lparr>mstrategy := Some x\<rparr>)"

text \<open>\<open>Add\<close>, with its checks in order; all of it runs under the lock.\<close>

definition track :: "('s, 'k, 'c, 'e) store_ops \<Rightarrow> nat option \<Rightarrow> 'k \<Rightarrow> 'b option \<Rightarrow> 'c config \<Rightarrow>
    ('s, 'k, 'c, 'v, 'e, 'b) manager \<Rightarrow> 'e job_error option \<times> ('s, 'k, 'c, 'v, 'e, 'b) manager" where
  "track ops pick jid cb cfg m =
     (let (a, m1) = pool_get pick m;
          (wc, m2) = make_chan (cwait cfg) m1;
          (ts, m3) = arm (timeout cfg > 0) jid ErrJobTimeout m2;
          (cs, m4) = arm (cctx cfg \<noteq> None \<and> cctx cfg \<noteq> Some Background) jid ErrJobCancelled m3;
          m5 = m4\<lparr>entries := (entries m4)(a := \<lparr>callback = cb, waitCh = wc, keepAlive = ckeepAlive cfg,
                 strategy = cstrategy cfg, ectx = cctx cfg, timerStop = ts, ctxStop = cs\<rparr>)\<rparr>
      in case sAdd ops (cctx cfg) jid a (store m5) of
           (None, st) \<Rightarrow> (None, m5\<lparr>store := st\<rparr>)
         | (Some e, st) \<Rightarrow>
             let m6 = stop cs (stop ts (m5\<lparr>store := st\<rparr>))
             in (Some (StoreAdd e), m6\<lparr>entryPool := a # entryPool m6\<rparr>))"

definition addJob :: "('s, 'k, 'c, 'e) store_ops \<Rightarrow> nat option \<Rightarrow> 'k \<Rightarrow> 'b option \<Rightarrow> ('c config \<Rightarrow> 'c config) list \<Rightarrow>
    ('s, 'k, 'c, 'v, 'e, 'b) manager \<Rightarrow> 'e job_error option \<times> ('s, 'k, 'c, 'v, 'e, 'b) manager" where
  "addJob ops pick jid cb opts m =
     (let cfg = fold (\<lambda>opt c. opt c) opts defaultConfig in
      if closed m then (Some ErrJobClosed, m)
      else case sLen ops (cctx cfg) (store m) of
        Inl e \<Rightarrow> (Some (StoreLen e), m)
      | Inr n \<Rightarrow>
          if capacity m > 0 \<and> int n \<ge> capacity m then (Some (CapacityReached (capacity m)), m)
          else case sGet ops (cctx cfg) jid (store m) of
            Inl e \<Rightarrow> (Some (StoreGet e), m)
          | Inr (Some _) \<Rightarrow> (Some ErrJobDuplicate, m)
          | Inr None \<Rightarrow> track ops pick jid cb cfg m)"

text \<open>\<open>ResolveContext\<close>: under the lock, and after it. \<open>None\<close>: it returned \<open>false\<close>.\<close>

definition resolve_section :: "('s, 'k, 'c, 'e) store_ops \<Rightarrow> 'c go_ctx option \<Rightarrow> 'k \<Rightarrow>
    ('s, 'k, 'c, 'v, 'e, 'b) manager \<Rightarrow> (nat \<times> nat option \<times> 'b option) option \<times> ('s, 'k, 'c, 'v, 'e, 'b) manager" where
  "resolve_section ops ctx jid m =
     (if closed m then (None, m)
      else case sGet ops ctx jid (store m) of
        Inl e \<Rightarrow> (None, m)
      | Inr None \<Rightarrow> (None, m)
      | Inr (Some a) \<Rightarrow>
          let e = entries m a;
              m1 = (if keepAlive e then m else m\<lparr>store := snd (sDelete ops ctx jid (store m))\<rparr>)
          in (Some (a, waitCh e, callback e), m1\<lparr>entries := (entries m1)(a := e\<lparr>waitCh := None\<rparr>)\<rparr>))"

definition callback_ctx :: "'c go_ctx option \<Rightarrow> 'c go_ctx option \<Rightarrow> 'c go_ctx" where
  "callback_ctx ctx ec =
     (let c = (case ctx of None \<Rightarrow> Background | Some x \<Rightarrow> x)
      in case ec of Some x \<Rightarrow> if c = Background then x else c | None \<Rightarrow> c)"

definition resolve_tail :: "'c go_ctx option \<Rightarrow> nat \<Rightarrow> nat option \<Rightarrow> 'b option \<Rightarrow> 'v \<Rightarrow> 'e job_error option \<Rightarrow>
    ('s, 'k, 'c, 'v, 'e, 'b) manager \<Rightarrow> ('s, 'k, 'c, 'v, 'e, 'b) manager" where
  "resolve_tail ctx a w cb v err m =
     (let e = entries m a;
          m1 = send_close w (v, err) (stop (ctxStop e) (stop (timerStop e) m))
      in if panicked m1 then m1
         else let m2 = invoke cb (strategy e) (callback_ctx ctx (ectx e)) v err m1
              in if keepAlive e then m2 else release_entry a m2)"

definition resolveContext :: "('s, 'k, 'c, 'e) store_ops \<Rightarrow> 'c go_ctx option \<Rightarrow> 'k \<Rightarrow> 'v \<Rightarrow> 'e job_error option \<Rightarrow>
    ('s, 'k, 'c, 'v, 'e, 'b) manager \<Rightarrow> bool \<times> ('s, 'k, 'c, 'v, 'e, 'b) manager" where
  "resolveContext ops ctx jid v err m =
     (case resolve_section ops ctx jid m of
        (None, m1) \<Rightarrow> (False, m1)
      | (Some (a, w, cb), m1) \<Rightarrow> (True, resolve_tail ctx a w cb v err m1))"

definition resolve :: "('s, 'k, 'c, 'e) store_ops \<Rightarrow> 'k \<Rightarrow> 'v \<Rightarrow> 'e job_error option \<Rightarrow>
    ('s, 'k, 'c, 'v, 'e, 'b) manager \<Rightarrow> bool \<times> ('s, 'k, 'c, 'v, 'e, 'b) manager" where
  "resolve ops jid v err m = resolveContext ops (Some Background) jid v err m"

text \<open>\<open>RemoveContext\<close>: the entry leaves the store under the lock and is cleaned up after it.\<close>

definition remove_section :: "('s, 'k, 'c, 'e) store_ops \<Rightarrow> 'c go_ctx option \<Rightarrow> 'k \<Rightarrow>
    ('s, 'k, 'c, 'v, 'e, 'b) manager \<Rightarrow> nat option \<times> ('s, 'k, 'c, 'v, 'e, 'b) manager" where
  "remove_section ops ctx jid m =
     (if closed m then (None, m)
      else case sGet ops ctx jid (store m) of
        Inl e \<Rightarrow> (None, m)
      | Inr None \<Rightarrow> (None, m)
      | Inr (Some a) \<Rightarrow> (Some a, m\<lparr>store := snd (sDelete ops ctx jid (store m))\<rparr>))"

definition shut_entry :: "nat \<Rightarrow> ('s, 'k, 'c, 'v, 'e, 'b) manager \<Rightarrow> ('s, 'k, 'c, 'v, 'e, 'b) manager" where
  "shut_entry a m =
     (let e = entries m a in close_chan (waitCh e) (stop (ctxStop e) (stop (timerStop e) m)))"

definition drop_entry :: "nat \<Rightarrow> ('s, 'k, 'c, 'v, 'e, 'b) manager \<Rightarrow> ('s, 'k, 'c, 'v, 'e, 'b) manager" where
  "drop_entry a m = release_entry a (m\<lparr>entries := (entries m)(a := (entries m a)\<lparr>waitCh := None\<rparr>)\<rparr>)"

definition remove_tail :: "nat \<Rightarrow> ('s, 'k, 'c, 'v, 'e, 'b) manager \<Rightarrow> ('s, 'k, 'c, 'v, 'e, 'b) manager" where
  "remove_tail a m = (let m1 = shut_entry a m in if panicked m1 then m1 else drop_entry a m1)"

definition removeContext :: "('s, 'k, 'c, 'e) store_ops \<Rightarrow> 'c go_ctx option \<Rightarrow> 'k \<Rightarrow>
    ('s, 'k, 'c, 'v, 'e, 'b) manager \<Rightarrow> bool \<times> ('s, 'k, 'c, 'v, 'e, 'b) manager" where
  "removeContext ops ctx jid m =
     (case remove_section ops ctx jid m of
        (None, m1) \<Rightarrow> (False, m1)
      | (Some a, m1) \<Rightarrow> (True, remove_tail a m1))"

definition removeJob :: "('s, 'k, 'c, 'e) store_ops \<Rightarrow> 'k \<Rightarrow> ('s, 'k, 'c, 'v, 'e, 'b) manager \<Rightarrow>
    bool \<times> ('s, 'k, 'c, 'v, 'e, 'b) manager" where
  "removeJob ops jid m = removeContext ops (Some Background) jid m"

text \<open>\<open>WaitFor\<close>: the lookup under the lock, then the receive branch of its \<open>select\<close>.\<close>

definition wait_section :: "('s, 'k, 'c, 'e) store_ops \<Rightarrow> 'c go_ctx option \<Rightarrow> 'k \<Rightarrow>
    ('s, 'k, 'c, 'v, 'e, 'b) manager \<Rightarrow> 'e job_error + nat" where
  "wait_section ops ctx jid m =
     (case sGet ops ctx jid (store m) of
        Inl e \<Rightarrow> Inl (Other e)
      | Inr None \<Rightarrow> Inl ErrJobNotFound
      | Inr (Some a) \<Rightarrow> (case waitCh (entries m a) of None \<Rightarrow> Inl ErrWaitFor | Some ch \<Rightarrow> Inr ch))"

definition wait_recv :: "nat \<Rightarrow> ('s, 'k, 'c, 'v::zero, 'e, 'b) manager \<Rightarrow>
    (('v \<times> 'e job_error option) \<times> ('s, 'k, 'c, 'v, 'e, 'b) manager) option" where
  "wait_recv ch m =
     (case buf (chans m ch) of
        Some r \<Rightarrow> Some (r, m\<lparr>chans := (chans m)(ch := (chans m ch)\<lparr>buf := None\<rparr>)\<rparr>)
      | None \<Rightarrow> if shut (chans m ch) then Some ((0, Some ErrJobClosed), m) else None)"

text \<open>
  \<open>closePending\<close> over the entries of the snapshot, in the order \<open>ps\<close> in which Go ranges over the map,
  and the two sections that take such a snapshot and empty the store.
\<close>

definition close_one :: "'e job_error option \<Rightarrow> nat \<Rightarrow> ('s, 'k, 'c, 'v::zero, 'e, 'b) manager \<Rightarrow>
    ('s, 'k, 'c, 'v, 'e, 'b) manager" where
  "close_one err a m =
     (let e = entries m a; m1 = shut_entry a m
      in if panicked m1 then m1
         else drop_entry a (invoke (callback e) (strategy e) (case ectx e of None \<Rightarrow> Background | Some c \<Rightarrow> c) 0 err m1))"

definition closePending :: "(  'k \<times> nat) list \<Rightarrow> 'e job_error option \<Rightarrow> ('s, 'k, 'c, 'v::zero, 'e, 'b) manager \<Rightarrow>
    ('s, 'k, 'c, 'v, 'e, 'b) manager" where
  "closePending ps err m = fold (\<lambda>(jid, a). close_one err a) ps m"

definition lists_map :: "('k \<times> nat) list \<Rightarrow> ('k \<rightharpoonup> nat) \<Rightarrow> bool" where
  "lists_map ps pending \<longleftrightarrow> distinct (map fst ps) \<and> map_of ps = pending"

definition sweep_section :: "('s, 'k, 'c, 'e) store_ops \<Rightarrow> 'c go_ctx option \<Rightarrow> ('k \<times> nat) list \<Rightarrow>
    ('s, 'k, 'c, 'v, 'e, 'b) manager \<Rightarrow> (('k \<times> nat) list \<times> ('s, 'k, 'c, 'v, 'e, 'b) manager) option" where
  "sweep_section ops ctx ps m =
     (case sGetAll ops ctx (store m) of
        Inl e \<Rightarrow> Some ([], m)
      | Inr pending \<Rightarrow>
          if lists_map ps pending
          then Some (ps, m\<lparr>store := fold (\<lambda>(jid, a) st. snd (sDelete ops ctx jid st)) ps (store m)\<rparr>)
          else None)"

definition cancelAllContext :: "('s, 'k, 'c, 'e) store_ops \<Rightarrow> 'c go_ctx option \<Rightarrow> ('k \<times> nat) list \<Rightarrow>
    'e job_error option \<Rightarrow> ('s, 'k, 'c, 'v::zero, 'e, 'b) manager \<Rightarrow> ('s, 'k, 'c, 'v, 'e, 'b) manager option" where
  "cancelAllContext ops ctx ps err m =
     map_option (\<lambda>(qs, m1). closePending qs err m1) (sweep_section ops ctx ps m)"

definition cancelAll :: "('s, 'k, 'c, 'e) store_ops \<Rightarrow> ('k \<times> nat) list \<Rightarrow> 'e job_error option \<Rightarrow>
    ('s, 'k, 'c, 'v::zero, 'e, 'b) manager \<Rightarrow> ('s, 'k, 'c, 'v, 'e, 'b) manager option" where
  "cancelAll ops ps err m = cancelAllContext ops (Some Background) ps err m"

definition close_section :: "('s, 'k, 'c, 'e) store_ops \<Rightarrow> ('k \<times> nat) list \<Rightarrow>
    ('s, 'k, 'c, 'v, 'e, 'b) manager \<Rightarrow> (('k \<times> nat) list \<times> ('s, 'k, 'c, 'v, 'e, 'b) manager) option" where
  "close_section ops ps m =
     (if closed m then Some ([], m) else sweep_section ops (Some Background) ps (m\<lparr>closed := True\<rparr>))"

definition closeManager :: "('s, 'k, 'c, 'e) store_ops \<Rightarrow> ('k \<times> nat) list \<Rightarrow> ('k \<times> nat) list \<Rightarrow>
    ('s, 'k, 'c, 'v::zero, 'e, 'b) manager \<Rightarrow> ('s, 'k, 'c, 'v, 'e, 'b) manager option" where
  "closeManager ops ps qs m =
     (case cancelAllContext ops (Some Background) ps (Some ErrJobClosed) m of
        None \<Rightarrow> None
      | Some m1 \<Rightarrow> map_option (\<lambda>(rs, m2). closePending rs (Some ErrJobClosed) m2) (close_section ops qs m1))"

definition count :: "('s, 'k, 'c, 'e) store_ops \<Rightarrow> ('s, 'k, 'c, 'v, 'e, 'b) manager \<Rightarrow> nat" where
  "count ops m = (case sLen ops (Some Background) (store m) of Inl e \<Rightarrow> 0 | Inr n \<Rightarrow> n)"

lemmas method_defs = track_def addJob_def resolve_section_def resolve_tail_def resolveContext_def resolve_def
  remove_section_def shut_entry_def drop_entry_def remove_tail_def removeContext_def wait_section_def
  wait_recv_def close_one_def closePending_def sweep_section_def cancelAllContext_def close_section_def

section \<open>Correlation identifiers\<close>

text \<open>\<open>strconv.FormatUint\<close> in base 10.\<close>

fun formatUint :: "nat \<Rightarrow> string" where
  "formatUint n = (if n < 10 then [char_of (48 + n)] else formatUint (n div 10) @ [char_of (48 + n mod 10)])"

declare formatUint.simps [simp del]

text \<open>The kinds of key type \<open>NextID\<close> distinguishes, and the value it makes of the counter.\<close>

datatype key_kind = U64 | I64 | U32 | I32 | UIntKey | IntKey | StrKey | OtherKey

datatype job_id = IdU64 "64 word" | IdI64 "64 word" | IdU32 "32 word" | IdI32 "32 word"
  | IdUInt "64 word" | IdInt "64 word" | IdStr string | IdZero

fun id_of_counter :: "key_kind \<Rightarrow> 64 word \<Rightarrow> job_id" where
  "id_of_counter U64 v = IdU64 v"
| "id_of_counter I64 v = IdI64 v"
| "id_of_counter U32 v = IdU32 (ucast v)"
| "id_of_counter I32 v = IdI32 (ucast v)"
| "id_of_counter UIntKey v = IdUInt v"
| "id_of_counter IntKey v = IdInt v"
| "id_of_counter StrKey v = IdStr (formatUint (unat v))"
| "id_of_counter OtherKey v = IdZero"

definition nextID :: "key_kind \<Rightarrow> ('s, 'k, 'c, 'v, 'e, 'b) manager \<Rightarrow> job_id \<times> ('s, 'k, 'c, 'v, 'e, 'b) manager" where
  "nextID kind m = (let v = counter m + 1 in (id_of_counter kind v, m\<lparr>counter := v\<rparr>))"

text \<open>The identifier of the call number \<open>i\<close> (from 0) on a new manager.\<close>

definition nth_id :: "key_kind \<Rightarrow> nat \<Rightarrow> job_id" where
  "nth_id kind i = fst (nextID kind (((\<lambda>m. snd (nextID kind m)) ^^ i)
     (newManager 0 :: (nat \<rightharpoonup> nat, nat, unit, nat, unit, nat) manager)))"

definition parseUint :: "string \<Rightarrow> nat" where
  "parseUint s = foldl (\<lambda>n c. n * 10 + (of_char c - 48)) 0 s"

lemma parse_format: "parseUint (formatUint n) = n"
proof (induction n rule: formatUint.induct)
  case (1 n)
  show ?case
  proof (cases "n < 10")
    case True
    then show ?thesis by (simp add: formatUint.simps [of n] parseUint_def)
  next
    case False
    with 1 show ?thesis by (simp add: formatUint.simps [of n] parseUint_def)
  qed
qed

lemma formatUint_inj [simp]: "formatUint i = formatUint j \<longleftrightarrow> i = j"
  by (metis parse_format)

lemma counter_after: "counter (((\<lambda>m. snd (nextID kind m)) ^^ i) m) = counter m + of_nat i"
  by (induction i) (auto simp: nextID_def Let_def)

lemma fst_nextID: "fst (nextID kind m) = id_of_counter kind (counter m + 1)"
  by (simp add: nextID_def Let_def)

lemma nth_id_eq: "nth_id kind i = id_of_counter kind (of_nat (Suc i))"
  by (simp add: nth_id_def fst_nextID counter_after newManager_def newManagerWithStore_def add.commute)

lemma Suc_mod_cancel:
  assumes "(0::nat) < n"
  shows "Suc i mod n = Suc j mod n \<longleftrightarrow> i mod n = j mod n"
proof
  assume "Suc i mod n = Suc j mod n"
  then have "(Suc i + (n - 1)) mod n = (Suc j + (n - 1)) mod n"
    by (metis mod_add_left_eq)
  with assms show "i mod n = j mod n" by simp
next
  assume "i mod n = j mod n"
  then show "Suc i mod n = Suc j mod n" by (metis mod_Suc_eq)
qed

lemma of_nat64_eq: "(of_nat i :: 64 word) = of_nat j \<longleftrightarrow> i mod 2 ^ 64 = j mod 2 ^ 64"
  by (simp add: word_unat_eq_iff unat_of_nat)

lemma of_nat32_eq: "(ucast (of_nat i :: 64 word) :: 32 word) = ucast (of_nat j :: 64 word) \<longleftrightarrow> i mod 2 ^ 32 = j mod 2 ^ 32"
proof -
  have "unat (ucast (of_nat i :: 64 word) :: 32 word) = i mod 2 ^ 32" for i
    by (simp add: unsigned_ucast_eq unat_of_nat take_bit_eq_mod mod_mod_cancel)
  then show ?thesis
    by (simp only: word_unat_eq_iff)
qed

section \<open>What the manager relies on\<close>

text \<open>The contract of a store: \<open>view\<close> is the map it keeps; a failed operation leaves it alone.\<close>

locale job_store =
  fixes ops :: "('s, 'k, 'c, 'e) store_ops"
    and view :: "'s \<Rightarrow> 'k \<rightharpoonup> nat"
  assumes get_view: "sGet ops ctx k st = Inr r \<Longrightarrow> r = view st k"
    and add_view: "sAdd ops ctx k a st = (None, st') \<Longrightarrow> view st' = (view st)(k \<mapsto> a)"
    and add_failed: "sAdd ops ctx k a st = (Some e, st') \<Longrightarrow> view st' = view st"
    and delete_view: "sDelete ops ctx k st = (Inr b, st') \<Longrightarrow> view st' = (view st)(k := None)"
    and delete_failed: "sDelete ops ctx k st = (Inl e, st') \<Longrightarrow> view st' = view st"
    and len_view: "finite (dom (view st)) \<Longrightarrow> sLen ops ctx st = Inr n \<Longrightarrow> n = card (dom (view st))"
    and getAll_view: "sGetAll ops ctx st = Inr p \<Longrightarrow> p = view st"

text \<open>The number of tracked jobs respects the capacity.\<close>

definition cap_inv :: "('s \<Rightarrow> 'k \<rightharpoonup> nat) \<Rightarrow> ('s, 'k, 'c, 'v, 'e, 'b) manager \<Rightarrow> bool" where
  "cap_inv view m \<longleftrightarrow> finite (dom (view (store m))) \<and>
     (capacity m > 0 \<longrightarrow> int (card (dom (view (store m)))) \<le> capacity m)"

lemma cap_inv_shrink:
  assumes "cap_inv view m" and "dom (view (store m')) \<subseteq> dom (view (store m))" and "capacity m' = capacity m"
  shows "cap_inv view m'"
  using assms card_mono [of "dom (view (store m))" "dom (view (store m'))"]
  by (auto simp: cap_inv_def finite_subset)

lemma part_fields [simp]:
  "store (stop w m) = store m" "capacity (stop w m) = capacity m" "closed (stop w m) = closed m"
  "store (send_close w r m) = store m" "capacity (send_close w r m) = capacity m" "closed (send_close w r m) = closed m"
  "store (close_chan w m) = store m" "capacity (close_chan w m) = capacity m" "closed (close_chan w m) = closed m"
  "store (release_entry a m) = store m" "capacity (release_entry a m) = capacity m" "closed (release_entry a m) = closed m"
  "store (invoke cb sg ctx v err m) = store m" "capacity (invoke cb sg ctx v err m) = capacity m"
  "closed (invoke cb sg ctx v err m) = closed m"
  by (auto simp: part_defs split: option.splits)

lemma tail_fields [simp]:
  "store (resolve_tail ctx a w cb v err m) = store m" "closed (resolve_tail ctx a w cb v err m) = closed m"
  "capacity (resolve_tail ctx a w cb v err m) = capacity m"
  "store (remove_tail a m) = store m" "closed (remove_tail a m) = closed m" "capacity (remove_tail a m) = capacity m"
  "store (close_one err a m) = store m" "closed (close_one err a m) = closed m" "capacity (close_one err a m) = capacity m"
  by (auto simp: resolve_tail_def remove_tail_def close_one_def drop_entry_def shut_entry_def Let_def)

lemma make_fields:
  "pool_get pick m = (a, m') \<Longrightarrow> store m' = store m \<and> capacity m' = capacity m \<and> closed m' = closed m"
  "make_chan b m = (w, m') \<Longrightarrow> store m' = store m \<and> capacity m' = capacity m \<and> closed m' = closed m"
  "arm b k err m = (w, m') \<Longrightarrow> store m' = store m \<and> capacity m' = capacity m \<and> closed m' = closed m"
  by (auto simp: part_defs split: option.splits if_splits)

text \<open>\<open>track\<close>, cut into its steps.\<close>

lemma track_cases:
  assumes "track ops pick k cb cfg m = (r, m')"
  obtains a wc ts cs m1 m2 m3 m4 m5 st where
    "pool_get pick m = (a, m1)" "make_chan (cwait cfg) m1 = (wc, m2)" "arm (timeout cfg > 0) k ErrJobTimeout m2 = (ts, m3)"
    "arm (cctx cfg \<noteq> None \<and> cctx cfg \<noteq> Some Background) k ErrJobCancelled m3 = (cs, m4)"
    "m5 = m4\<lparr>entries := (entries m4)(a := \<lparr>callback = cb, waitCh = wc, keepAlive = ckeepAlive cfg,
       strategy = cstrategy cfg, ectx = cctx cfg, timerStop = ts, ctxStop = cs\<rparr>)\<rparr>"
    "store m5 = store m" "capacity m5 = capacity m" "closed m5 = closed m"
    "sAdd ops (cctx cfg) k a (store m) = (None, st) \<and> r = None \<and> m' = m5\<lparr>store := st\<rparr> \<or>
     (\<exists>e. sAdd ops (cctx cfg) k a (store m) = (Some e, st) \<and> r = Some (StoreAdd e) \<and>
        m' = (stop cs (stop ts (m5\<lparr>store := st\<rparr>)))\<lparr>entryPool := a # entryPool (stop cs (stop ts (m5\<lparr>store := st\<rparr>)))\<rparr>)"
proof -
  obtain a m1 where p: "pool_get pick m = (a, m1)" by fastforce
  obtain wc m2 where c: "make_chan (cwait cfg) m1 = (wc, m2)" by fastforce
  obtain ts m3 where t: "arm (timeout cfg > 0) k ErrJobTimeout m2 = (ts, m3)" by fastforce
  obtain cs m4 where w: "arm (cctx cfg \<noteq> None \<and> cctx cfg \<noteq> Some Background) k ErrJobCancelled m3 = (cs, m4)" by fastforce
  define m5 where "m5 = m4\<lparr>entries := (entries m4)(a := \<lparr>callback = cb, waitCh = wc, keepAlive = ckeepAlive cfg,
       strategy = cstrategy cfg, ectx = cctx cfg, timerStop = ts, ctxStop = cs\<rparr>)\<rparr>"
  have f: "store m5 = store m" "capacity m5 = capacity m" "closed m5 = closed m"
    using make_fields(1) [OF p] make_fields(2) [OF c] make_fields(3) [OF t] make_fields(3) [OF w] by (simp_all add: m5_def)
  obtain er st where s: "sAdd ops (cctx cfg) k a (store m) = (er, st)" by fastforce
  have "(r, m') = (case er of None \<Rightarrow> (None, m5\<lparr>store := st\<rparr>)
      | Some e \<Rightarrow> (Some (StoreAdd e), (stop cs (stop ts (m5\<lparr>store := st\<rparr>)))\<lparr>entryPool := a # entryPool (stop cs (stop ts (m5\<lparr>store := st\<rparr>)))\<rparr>))"
    using assms p c t w s f m5_def unfolding track_def by (simp add: Let_def split: option.splits)
  with that [OF p c t w m5_def f] s show thesis
    by (cases er) auto
qed

lemma track_store:
  assumes "track ops pick k cb cfg m = (r, m')"
  obtains a st where "closed m' = closed m" "capacity m' = capacity m" "store m' = st"
    "sAdd ops (cctx cfg) k a (store m) = (None, st) \<and> r = None \<or>
     (\<exists>e. sAdd ops (cctx cfg) k a (store m) = (Some e, st) \<and> r = Some (StoreAdd e))"
  using assms by (rule track_cases) (rule that, auto)

text \<open>\<open>Add\<close>: it is refused, with the manager unchanged, or it reaches \<open>track\<close>.\<close>

lemma addJob_cases:
  assumes "addJob ops pick k cb opts m = (r, m')"
  obtains (refused) e where "r = Some e" "m' = m"
  | (tracked) cfg n where "cfg = fold (\<lambda>opt c. opt c) opts defaultConfig" "\<not> closed m"
      "sLen ops (cctx cfg) (store m) = Inr n" "capacity m > 0 \<Longrightarrow> int n < capacity m"
      "sGet ops (cctx cfg) k (store m) = Inr None" "track ops pick k cb cfg m = (r, m')"
proof -
  define cfg where "cfg = fold (\<lambda>opt c. opt c) opts defaultConfig"
  show thesis
    using assms refused tracked [OF cfg_def]
    unfolding addJob_def Let_def cfg_def [symmetric]
    by (auto split: if_splits sum.splits option.splits)
qed

context job_store
begin

lemma add_store:
  assumes "addJob ops pick k cb opts m = (r, m')"
  shows "closed m' = closed m \<and> capacity m' = capacity m \<and>
    (r = None \<longrightarrow> \<not> closed m \<and> view (store m) k = None \<and> (\<exists>a. view (store m') = (view (store m))(k \<mapsto> a))) \<and>
    (r \<noteq> None \<longrightarrow> view (store m') = view (store m))"
  using assms
proof (cases rule: addJob_cases)
  case (tracked cfg n)
  note none = get_view [OF tracked(5)]
  from tracked(6) show ?thesis
  proof (rule track_store)
    fix a st
    assume "closed m' = closed m" "capacity m' = capacity m" "store m' = st"
      "sAdd ops (cctx cfg) k a (store m) = (None, st) \<and> r = None \<or>
       (\<exists>e. sAdd ops (cctx cfg) k a (store m) = (Some e, st) \<and> r = Some (StoreAdd e))"
    then show ?thesis
      using none tracked(2) add_view [of "cctx cfg" k a "store m" st] add_failed [of "cctx cfg" k a "store m" _ st]
      by auto
  qed
qed simp

lemma add_within:
  assumes "addJob ops pick k cb opts m = (r, m')" and "cap_inv view m"
  shows "cap_inv view m'"
  using assms(1)
proof (cases rule: addJob_cases)
  case refused
  with assms(2) show ?thesis by simp
next
  case (tracked cfg n)
  have fin: "finite (dom (view (store m)))"
    using assms(2) by (simp add: cap_inv_def)
  note len = len_view [OF fin tracked(3)]
  from add_store [OF assms(1)] show ?thesis
  proof (cases r)
    case None
    with add_store [OF assms(1)] obtain a where "view (store m') = (view (store m))(k \<mapsto> a)" "view (store m) k = None"
      "capacity m' = capacity m" by auto
    with fin len tracked(4) show ?thesis
      by (auto simp: cap_inv_def card_insert_if domIff)
  next
    case (Some e)
    with add_store [OF assms(1)] assms(2) show ?thesis
      by (simp add: cap_inv_def)
  qed
qed

lemma delete_some:
  assumes "view (snd (sDelete ops ctx k st)) x = Some y"
  shows "view st x = Some y"
proof (cases "sDelete ops ctx k st")
  case (Pair r st')
  with assms show ?thesis
    by (cases r) (auto dest!: delete_view delete_failed split: if_splits)
qed

lemma deletes_some:
  "view (fold (\<lambda>(k, a) st. snd (sDelete ops ctx k st)) ps st) x = Some y \<Longrightarrow> view st x = Some y"
  by (induction ps arbitrary: st) (auto dest: delete_some)

lemma resolve_section_within:
  assumes "resolve_section ops ctx k m = (r, m')" and "cap_inv view m"
  shows "cap_inv view m'"
  by (rule cap_inv_shrink [OF assms(2)], unfold dom_def)
    (use assms(1) in \<open>auto simp: resolve_section_def Let_def split: if_splits sum.splits option.splits
      dest!: delete_some\<close>)

lemma remove_section_within:
  assumes "remove_section ops ctx k m = (r, m')" and "cap_inv view m"
  shows "cap_inv view m'"
  by (rule cap_inv_shrink [OF assms(2)], unfold dom_def)
    (use assms(1) in \<open>auto simp: remove_section_def split: if_splits sum.splits option.splits dest!: delete_some\<close>)

lemma sweep_section_within:
  assumes "sweep_section ops ctx ps m = Some (qs, m')" and "cap_inv view m"
  shows "cap_inv view m'"
  by (rule cap_inv_shrink [OF assms(2)], unfold dom_def)
    (use assms(1) in \<open>auto simp: sweep_section_def split: sum.splits if_splits dest!: deletes_some\<close>)

end

text \<open>A store whose operations never fail: then a snapshot empties it.\<close>

locale reliable_store = job_store ops view
  for ops :: "('s, 'k, 'c, 'e) store_ops" and view :: "'s \<Rightarrow> 'k \<rightharpoonup> nat" +
  assumes get_total: "sGet ops ctx k st = Inr (view st k)"
    and delete_total: "\<exists>b. fst (sDelete ops ctx k st) = Inr b"
    and getAll_total: "sGetAll ops ctx st = Inr (view st)"
begin

lemma delete_exact: "view (snd (sDelete ops ctx k st)) = (view st)(k := None)"
  using delete_total [of ctx k st] delete_view by (metis prod.collapse)

lemma deletes_exact:
  "view (fold (\<lambda>(k, a) st. snd (sDelete ops ctx k st)) ps st) = (\<lambda>k. if k \<in> fst ` set ps then None else view st k)"
  by (induction ps arbitrary: st) (auto simp: delete_exact fun_eq_iff)

lemma sweep_empties:
  assumes "sweep_section ops ctx ps m = Some (qs, m')"
  shows "qs = ps \<and> lists_map ps (view (store m)) \<and> view (store m') = Map.empty \<and> closed m' = closed m"
proof -
  from assms have ps: "qs = ps" "lists_map ps (view (store m))"
    and m': "m' = m\<lparr>store := fold (\<lambda>(k, a) st. snd (sDelete ops ctx k st)) ps (store m)\<rparr>"
    by (auto simp: sweep_section_def getAll_total split: if_splits)
  have "view (store m) k = None" if "k \<notin> fst ` set ps" for k
    using ps(2) that unfolding lists_map_def by (metis map_of_eq_None_iff)
  then show ?thesis
    using ps m' by (auto simp: deletes_exact fun_eq_iff)
qed

end

interpretation mem: reliable_store memoryStore "\<lambda>st. st"
  by unfold_locales (auto simp: mem_defs split: option.splits)

section \<open>Interleaved goroutines\<close>

text \<open>
  A goroutine that uses the manager: between a section and its tail it holds what the section gave
  it. A fired timer or context watcher is a goroutine that calls \<open>Resolve\<close>.
\<close>

datatype ('k, 'c, 'v, 'e, 'b) job_place =
    Idle
  | Fired 'k "'e job_error"
  | Resolving nat "nat option" "'b option" "'c go_ctx option" 'v "'e job_error option"
  | Removing nat
  | Waiting nat
  | Sweeping "('k \<times> nat) list" "'e job_error option" bool
  | ClosingNow
  | Answer bool
  | Got 'v "'e job_error option"

record ('s, 'k, 'c, 'v, 'e, 'b) job_sys =
  mgr :: "('s, 'k, 'c, 'v, 'e, 'b) manager"
  jplace :: "nat \<Rightarrow> ('k, 'c, 'v, 'e, 'b) job_place"

datatype ('k, 'c, 'v, 'e, 'b) job_label =
    Add "nat option" 'k "'b option" "('c config \<Rightarrow> 'c config) list"
  | SetStrategy "strategy option"
  | Resolve nat "'c go_ctx option" 'k 'v "'e job_error option"
  | Fire nat nat | ResolveFired nat | ResolveTail nat
  | Remove nat "'c go_ctx option" 'k | RemoveTail nat
  | Wait nat "'c go_ctx option" 'k | Receive nat | WaitCancelled nat 'e
  | CancelAll nat "'c go_ctx option" "('k \<times> nat) list" "'e job_error option"
  | CloseAll nat "('k \<times> nat) list" | Sweep nat | CloseSection nat "('k \<times> nat) list"
  | Return nat

definition job_start :: "int \<Rightarrow> 's \<Rightarrow> ('s, 'k, 'c, 'v, 'e, 'b) job_sys" where
  "job_start cap st = \<lparr>mgr = newManagerWithStore cap st, jplace = (\<lambda>_. Idle)\<rparr>"

abbreviation at_place :: "nat \<Rightarrow> ('k, 'c, 'v, 'e, 'b) job_place \<Rightarrow> ('s, 'k, 'c, 'v, 'e, 'b) manager \<Rightarrow>
    ('s, 'k, 'c, 'v, 'e, 'b) job_sys \<Rightarrow> ('s, 'k, 'c, 'v, 'e, 'b) job_sys" where
  "at_place g p m s \<equiv> s\<lparr>mgr := m, jplace := (jplace s)(g := p)\<rparr>"

definition begin_resolve :: "('s, 'k, 'c, 'e) store_ops \<Rightarrow> nat \<Rightarrow> 'c go_ctx option \<Rightarrow> 'k \<Rightarrow> 'v \<Rightarrow>
    'e job_error option \<Rightarrow> ('s, 'k, 'c, 'v, 'e, 'b) job_sys \<Rightarrow> ('s, 'k, 'c, 'v, 'e, 'b) job_sys" where
  "begin_resolve ops g ctx k v err s =
     (case resolve_section ops ctx k (mgr s) of
        (None, m1) \<Rightarrow> at_place g (Answer False) m1 s
      | (Some (a, w, cb), m1) \<Rightarrow> at_place g (Resolving a w cb ctx v err) m1 s)"

definition begin_sweep :: "('s, 'k, 'c, 'e) store_ops \<Rightarrow> nat \<Rightarrow> 'c go_ctx option \<Rightarrow> ('k \<times> nat) list \<Rightarrow>
    'e job_error option \<Rightarrow> bool \<Rightarrow> ('s, 'k, 'c, 'v, 'e, 'b) job_sys \<Rightarrow> ('s, 'k, 'c, 'v, 'e, 'b) job_sys option" where
  "begin_sweep ops g ctx ps err goon s =
     (case sweep_section ops ctx ps (mgr s) of
        None \<Rightarrow> None | Some (qs, m1) \<Rightarrow> Some (at_place g (Sweeping qs err goon) m1 s))"

text \<open>A send to a full channel would block.\<close>

definition can_send :: "nat option \<Rightarrow> ('s, 'k, 'c, 'v, 'e, 'b) manager \<Rightarrow> bool" where
  "can_send w m \<longleftrightarrow> (case w of None \<Rightarrow> True | Some ch \<Rightarrow> buf (chans m ch) = None \<or> shut (chans m ch))"

fun job_step :: "('s, 'k, 'c, 'e) store_ops \<Rightarrow> ('k, 'c, 'v::zero, 'e, 'b) job_label \<Rightarrow>
    ('s, 'k, 'c, 'v, 'e, 'b) job_sys \<Rightarrow> ('s, 'k, 'c, 'v, 'e, 'b) job_sys option" where
  "job_step ops (Add pick k cb opts) s = Some (s\<lparr>mgr := snd (addJob ops pick k cb opts (mgr s))\<rparr>)"
| "job_step ops (SetStrategy st) s = Some (s\<lparr>mgr := setCallbackStrategy st (mgr s)\<rparr>)"
| "job_step ops (Resolve g ctx k v err) s =
     (case jplace s g of Idle \<Rightarrow> Some (begin_resolve ops g ctx k v err s) | _ \<Rightarrow> None)"
| "job_step ops (Fire g i) s =
     (case (jplace s g, watchers (mgr s) i) of
        (Idle, Some (k, err)) \<Rightarrow> Some (at_place g (Fired k err) (stop (Some i) (mgr s)) s)
      | _ \<Rightarrow> None)"
| "job_step ops (ResolveFired g) s =
     (case jplace s g of Fired k err \<Rightarrow> Some (begin_resolve ops g (Some Background) k 0 (Some err) s) | _ \<Rightarrow> None)"
| "job_step ops (ResolveTail g) s =
     (case jplace s g of
        Resolving a w cb ctx v err \<Rightarrow>
          if can_send w (mgr s) then Some (at_place g (Answer True) (resolve_tail ctx a w cb v err (mgr s)) s) else None
      | _ \<Rightarrow> None)"
| "job_step ops (Remove g ctx k) s =
     (case jplace s g of
        Idle \<Rightarrow> (case remove_section ops ctx k (mgr s) of
            (None, m1) \<Rightarrow> Some (at_place g (Answer False) m1 s)
          | (Some a, m1) \<Rightarrow> Some (at_place g (Removing a) m1 s))
      | _ \<Rightarrow> None)"
| "job_step ops (RemoveTail g) s =
     (case jplace s g of Removing a \<Rightarrow> Some (at_place g (Answer True) (remove_tail a (mgr s)) s) | _ \<Rightarrow> None)"
| "job_step ops (Wait g ctx k) s =
     (case jplace s g of
        Idle \<Rightarrow> (case wait_section ops ctx k (mgr s) of
            Inl e \<Rightarrow> Some (at_place g (Got 0 (Some e)) (mgr s) s)
          | Inr ch \<Rightarrow> Some (at_place g (Waiting ch) (mgr s) s))
      | _ \<Rightarrow> None)"
| "job_step ops (Receive g) s =
     (case jplace s g of
        Waiting ch \<Rightarrow> (case wait_recv ch (mgr s) of
            None \<Rightarrow> None | Some ((v, err), m1) \<Rightarrow> Some (at_place g (Got v err) m1 s))
      | _ \<Rightarrow> None)"
| "job_step ops (WaitCancelled g e) s =
     (case jplace s g of Waiting ch \<Rightarrow> Some (at_place g (Got 0 (Some (Other e))) (mgr s) s) | _ \<Rightarrow> None)"
| "job_step ops (CancelAll g ctx ps err) s =
     (case jplace s g of Idle \<Rightarrow> begin_sweep ops g ctx ps err False s | _ \<Rightarrow> None)"
| "job_step ops (CloseAll g ps) s =
     (case jplace s g of Idle \<Rightarrow> begin_sweep ops g (Some Background) ps (Some ErrJobClosed) True s | _ \<Rightarrow> None)"
| "job_step ops (Sweep g) s =
     (case jplace s g of
        Sweeping [] err goon \<Rightarrow> Some (at_place g (if goon then ClosingNow else Answer True) (mgr s) s)
      | Sweeping ((k, a) # ps) err goon \<Rightarrow> Some (at_place g (Sweeping ps err goon) (close_one err a (mgr s)) s)
      | _ \<Rightarrow> None)"
| "job_step ops (CloseSection g ps) s =
     (case jplace s g of
        ClosingNow \<Rightarrow> (case close_section ops ps (mgr s) of
            None \<Rightarrow> None | Some (qs, m1) \<Rightarrow> Some (at_place g (Sweeping qs (Some ErrJobClosed) False) m1 s))
      | _ \<Rightarrow> None)"
| "job_step ops (Return g) s =
     (case jplace s g of Answer b \<Rightarrow> Some (at_place g Idle (mgr s) s)
      | Got v err \<Rightarrow> Some (at_place g Idle (mgr s) s) | _ \<Rightarrow> None)"

section \<open>Ownership of the result channels\<close>

text \<open>
  A channel that an entry still carries, or that a resolving goroutine took from its entry, is open
  and empty and has no second owner.
\<close>

fun held :: "('k, 'c, 'v, 'e, 'b) job_place \<Rightarrow> nat option" where
  "held (Resolving a w cb ctx v err) = w"
| "held _ = None"

definition owner :: "('s, 'k, 'c, 'v, 'e, 'b) manager \<Rightarrow> (nat \<Rightarrow> nat option) \<Rightarrow> nat + nat \<Rightarrow> nat option" where
  "owner m h x = (case x of Inl a \<Rightarrow> waitCh (entries m a) | Inr g \<Rightarrow> h g)"

definition owned :: "(nat + nat \<Rightarrow> nat option) \<Rightarrow> (nat \<Rightarrow> ('v, 'e) job_chan) \<Rightarrow> nat \<Rightarrow> bool" where
  "owned f chs n \<longleftrightarrow>
     (\<forall>x ch. f x = Some ch \<longrightarrow> ch < n \<and> buf (chs ch) = None \<and> \<not> shut (chs ch)) \<and>
     (\<forall>x y ch. f x = Some ch \<longrightarrow> f y = Some ch \<longrightarrow> x = y)"

lemma owned_mono: "owned f chs n \<Longrightarrow> (\<And>x ch. f' x = Some ch \<Longrightarrow> f x = Some ch) \<Longrightarrow> owned f' chs n"
  unfolding owned_def by blast

lemma owned_new: "owned f chs n \<Longrightarrow> owned (f(x := Some n)) (chs(n := \<lparr>buf = None, shut = False\<rparr>)) (Suc n)"
  unfolding owned_def by (fastforce split: if_splits)

lemma owned_move: "owned f chs n \<Longrightarrow> x \<noteq> y \<Longrightarrow> owned (f(x := None, y := f x)) chs n"
  unfolding owned_def by (auto split: if_splits)

lemma owned_drop: "owned f chs n \<Longrightarrow> owned (f(x := None)) chs n"
  unfolding owned_def by (auto split: if_splits)

lemma owned_spend: "owned f chs n \<Longrightarrow> f x = Some ch \<Longrightarrow> owned (f(x := None)) (chs(ch := c)) n"
  unfolding owned_def by (auto split: if_splits)

lemma owned_other: "owned f chs n \<Longrightarrow> (\<And>x. f x \<noteq> Some ch) \<Longrightarrow> owned f (chs(ch := c)) n"
  unfolding owned_def by auto

definition chan_inv :: "(nat \<Rightarrow> nat option) \<Rightarrow> ('s, 'k, 'c, 'v, 'e, 'b) manager \<Rightarrow> bool" where
  "chan_inv h m \<longleftrightarrow> \<not> panicked m \<and> owned (owner m h) (chans m) (next_chan m)"

lemma chan_inv_cong:
  assumes "chan_inv h m" and "panicked m' = panicked m" and "chans m' = chans m" and "next_chan m' = next_chan m"
    and "\<And>a. waitCh (entries m' a) = waitCh (entries m a)"
  shows "chan_inv h m'"
proof -
  have "owner m' h = owner m h"
    using assms(5) by (auto simp: owner_def fun_eq_iff split: sum.splits)
  with assms(1-4) show ?thesis by (simp add: chan_inv_def)
qed

lemma stop_chans [simp]:
  "panicked (stop w m) = panicked m" "chans (stop w m) = chans m" "next_chan (stop w m) = next_chan m"
  "entries (stop w m) = entries m"
  by (auto simp: stop_def split: option.splits)

lemma release_chans [simp]:
  "panicked (release_entry a m) = panicked m" "chans (release_entry a m) = chans m"
  "next_chan (release_entry a m) = next_chan m" "waitCh (entries (release_entry a m) b) = waitCh (entries m b)"
  by (auto simp: release_entry_def)

lemma invoke_chans [simp]:
  "panicked (invoke cb sg ctx v err m) = panicked m" "chans (invoke cb sg ctx v err m) = chans m"
  "next_chan (invoke cb sg ctx v err m) = next_chan m" "entries (invoke cb sg ctx v err m) = entries m"
  by (auto simp: invoke_def split: option.splits)

lemma chan_inv_add:
  assumes "chan_inv h m" and "addJob ops pick k cb opts m = (r, m')"
  shows "chan_inv h m'"
  using assms(2)
proof (cases rule: addJob_cases)
  case refused
  with assms(1) show ?thesis by simp
next
  case (tracked cfg n)
  from tracked(6) show ?thesis
  proof (rule track_cases)
    fix a wc ts cs m1 m2 m3 m4 m5 st
    assume p: "pool_get pick m = (a, m1)" and c: "make_chan (cwait cfg) m1 = (wc, m2)"
      and t: "arm (timeout cfg > 0) k ErrJobTimeout m2 = (ts, m3)"
      and w: "arm (cctx cfg \<noteq> None \<and> cctx cfg \<noteq> Some Background) k ErrJobCancelled m3 = (cs, m4)"
      and m5: "m5 = m4\<lparr>entries := (entries m4)(a := \<lparr>callback = cb, waitCh = wc, keepAlive = ckeepAlive cfg,
        strategy = cstrategy cfg, ectx = cctx cfg, timerStop = ts, ctxStop = cs\<rparr>)\<rparr>"
      and r: "sAdd ops (cctx cfg) k a (store m) = (None, st) \<and> r = None \<and> m' = m5\<lparr>store := st\<rparr> \<or>
       (\<exists>e. sAdd ops (cctx cfg) k a (store m) = (Some e, st) \<and> r = Some (StoreAdd e) \<and>
        m' = (stop cs (stop ts (m5\<lparr>store := st\<rparr>)))\<lparr>entryPool := a # entryPool (stop cs (stop ts (m5\<lparr>store := st\<rparr>)))\<rparr>)"
    have one: "entries m1 = entries m \<and> chans m1 = chans m \<and> next_chan m1 = next_chan m \<and> panicked m1 = panicked m"
      using p by (auto simp: pool_get_def split: option.splits if_splits)
    have two: "entries m4 = entries m2 \<and> chans m4 = chans m2 \<and> next_chan m4 = next_chan m2 \<and> panicked m4 = panicked m2"
      using t w by (auto simp: arm_def split: if_splits)
    have own: "owner m5 h = (owner m h)(Inl a := wc)"
      using one two c by (auto simp: m5 make_chan_def owner_def fun_eq_iff split: sum.splits if_splits)
    have "chan_inv h m5"
    proof (cases "cwait cfg")
      case True
      with c one two have "wc = Some (next_chan m)" "chans m5 = (chans m)(next_chan m := \<lparr>buf = None, shut = False\<rparr>)"
        "next_chan m5 = Suc (next_chan m)" "panicked m5 = panicked m"
        by (auto simp: make_chan_def m5)
      with assms(1) own show ?thesis
        by (simp add: chan_inv_def owned_new)
    next
      case False
      with c one two have "wc = None" "chans m5 = chans m" "next_chan m5 = next_chan m" "panicked m5 = panicked m"
        by (auto simp: make_chan_def m5)
      with assms(1) own show ?thesis
        by (simp add: chan_inv_def owned_drop)
    qed
    then show ?thesis
      by (rule chan_inv_cong) (use r in auto)
  qed
qed

lemma chan_inv_resolve_section:
  assumes "chan_inv h m" and "h g = None" and "resolve_section ops ctx k m = (r, m')"
  shows "chan_inv (h(g := (case r of None \<Rightarrow> None | Some (a, w, cb) \<Rightarrow> w))) m'"
proof (cases r)
  case None
  then have "m' = m"
    using assms(3) by (auto simp: resolve_section_def Let_def split: if_splits sum.splits option.splits)
  with None assms(1,2) show ?thesis by (simp add: fun_upd_idem)
next
  case (Some x)
  then obtain a where r: "r = Some (a, waitCh (entries m a), callback (entries m a))"
    and m': "entries m' = (entries m)(a := (entries m a)\<lparr>waitCh := None\<rparr>)" "chans m' = chans m"
      "next_chan m' = next_chan m" "panicked m' = panicked m"
    using assms(3) by (auto simp: resolve_section_def Let_def split: if_splits sum.splits option.splits)
  have "owner m' (h(g := waitCh (entries m a))) = (owner m h)(Inl a := None, Inr g := owner m h (Inl a))"
    using m' by (auto simp: owner_def fun_eq_iff split: sum.splits)
  with owned_move [of "owner m h" "chans m" "next_chan m" "Inl a" "Inr g"] assms(1) m' r show ?thesis
    by (simp add: chan_inv_def)
qed

lemma chan_inv_resolve_tail:
  assumes "chan_inv h m" and "h g = w"
  shows "chan_inv (h(g := None)) (resolve_tail ctx a w cb v err m)"
proof -
  define m1 where "m1 = send_close w (v, err) (stop (ctxStop (entries m a)) (stop (timerStop (entries m a)) m))"
  have "chan_inv (h(g := None)) m1"
  proof (cases w)
    case None
    with assms show ?thesis by (auto simp: m1_def send_close_def fun_upd_idem intro: chan_inv_cong)
  next
    case (Some ch)
    then have "owner m h (Inr g) = Some ch" using assms by (simp add: owner_def)
    with assms(1) have open_ch: "\<not> shut (chans m ch)" and ow: "owned ((owner m h)(Inr g := None)) ((chans m)(ch := c)) (next_chan m)" for c
      by (auto simp: chan_inv_def owned_def) 
    have "owner m1 (h(g := None)) = (owner m h)(Inr g := None)"
      using Some open_ch by (auto simp: m1_def send_close_def owner_def fun_eq_iff split: sum.splits)
    with ow open_ch Some assms(1) show ?thesis
      by (simp add: m1_def send_close_def chan_inv_def)
  qed
  moreover have "resolve_tail ctx a w cb v err m = (let m2 = invoke cb (strategy (entries m a)) (callback_ctx ctx (ectx (entries m a))) v err m1
      in if keepAlive (entries m a) then m2 else release_entry a m2)"
    using calculation by (simp add: resolve_tail_def m1_def [symmetric] Let_def chan_inv_def)
  ultimately show ?thesis
    by (auto simp: Let_def intro: chan_inv_cong)
qed

lemma shut_entry_panicked:
  assumes "chan_inv h m"
  shows "\<not> panicked (shut_entry a m)"
proof -
  have "\<not> shut (chans m ch)" if "waitCh (entries m a) = Some ch" for ch
  proof -
    have "owner m h (Inl a) = Some ch" using that by (simp add: owner_def)
    with assms show ?thesis by (auto simp: chan_inv_def owned_def)
  qed
  with assms show ?thesis
    by (auto simp: shut_entry_def close_chan_def chan_inv_def Let_def split: option.splits)
qed

lemma chan_inv_shut_entry:
  assumes "chan_inv h m" and "chans m' = chans (shut_entry a m)" and "next_chan m' = next_chan m"
    and "panicked m' = panicked (shut_entry a m)" and "\<And>b. waitCh (entries m' b) = (if b = a then None else waitCh (entries m b))"
  shows "chan_inv h m'"
proof -
  have own: "owner m' h = (owner m h)(Inl a := None)"
    using assms(5) by (auto simp: owner_def fun_eq_iff split: sum.splits)
  have "owned ((owner m h)(Inl a := None)) (chans (shut_entry a m)) (next_chan m)"
  proof (cases "waitCh (entries m a)")
    case None
    with assms(1) show ?thesis
      by (auto simp: shut_entry_def close_chan_def Let_def chan_inv_def intro: owned_drop)
  next
    case (Some ch)
    then have o: "owner m h (Inl a) = Some ch" by (simp add: owner_def)
    with assms(1) have "\<not> shut (chans m ch)" by (auto simp: chan_inv_def owned_def)
    with Some o assms(1) show ?thesis
      by (simp add: shut_entry_def close_chan_def Let_def chan_inv_def owned_spend [where ch = ch])
  qed
  with own assms(2-4) shut_entry_panicked [OF assms(1)] show ?thesis
    by (simp add: chan_inv_def)
qed

lemma shut_entry_fields [simp]:
  "entries (shut_entry a m) = entries m" "next_chan (shut_entry a m) = next_chan m"
  "mstrategy (shut_entry a m) = mstrategy m"
  by (auto simp: shut_entry_def close_chan_def stop_def Let_def split: option.splits)

lemma drop_entry_fields [simp]:
  "chans (drop_entry a m) = chans m" "next_chan (drop_entry a m) = next_chan m" "panicked (drop_entry a m) = panicked m"
  "waitCh (entries (drop_entry a m) b) = (if b = a then None else waitCh (entries m b))"
  by (auto simp: drop_entry_def)

lemma chan_inv_remove_tail: "chan_inv h m \<Longrightarrow> chan_inv h (remove_tail a m)"
  using shut_entry_panicked [of h m a]
  by (auto simp: remove_tail_def Let_def intro: chan_inv_shut_entry)

lemma chan_inv_close_one: "chan_inv h m \<Longrightarrow> chan_inv h (close_one err a m)"
  using shut_entry_panicked [of h m a]
  by (auto simp: close_one_def Let_def intro: chan_inv_shut_entry)

lemma chan_inv_recv:
  assumes "chan_inv h m" and "wait_recv ch m = Some (r, m')"
  shows "chan_inv h m'"
proof (cases "buf (chans m ch)")
  case None
  with assms show ?thesis by (auto simp: wait_recv_def split: if_splits)
next
  case (Some x)
  have "owner m h y \<noteq> Some ch" for y
    using assms(1) Some by (auto simp: chan_inv_def owned_def)
  then have "owned (owner m h) ((chans m)(ch := c)) (next_chan m)" for c
    using assms(1) by (auto simp: chan_inv_def intro: owned_other)
  moreover have "owner m' h = owner m h"
    using assms(2) Some by (auto simp: wait_recv_def owner_def fun_eq_iff split: sum.splits)
  ultimately show ?thesis
    using assms Some by (auto simp: wait_recv_def chan_inv_def)
qed

section \<open>The invariant of the system\<close>

definition job_inv :: "('s \<Rightarrow> 'k \<rightharpoonup> nat) \<Rightarrow> ('s, 'k, 'c, 'v, 'e, 'b) job_sys \<Rightarrow> bool" where
  "job_inv view s \<longleftrightarrow> chan_inv (\<lambda>g. held (jplace s g)) (mgr s) \<and> cap_inv view (mgr s) \<and>
     (closed (mgr s) \<longrightarrow> view (store (mgr s)) = Map.empty)"

lemma held_at_place [simp]:
  "(\<lambda>h. held (jplace (at_place g p m s) h)) = (\<lambda>h. held (jplace s h))(g := held p)"
  by (auto simp: fun_eq_iff)

lemma held_same: "held (jplace s g) = held p \<Longrightarrow> (\<lambda>h. held (jplace s h))(g := held p) = (\<lambda>h. held (jplace s h))"
  by (auto simp: fun_eq_iff)

text \<open>A step that leaves the store, the capacity and the closed flag alone.\<close>

lemma job_inv_tail:
  assumes "job_inv view s" and "chan_inv ((\<lambda>h. held (jplace s h))(g := held p)) m"
    and "store m = store (mgr s)" and "capacity m = capacity (mgr s)" and "closed m = closed (mgr s)"
  shows "job_inv view (at_place g p m s)"
  using assms by (simp only: job_inv_def held_at_place) (simp add: cap_inv_def)

lemma job_inv_start: "view st = Map.empty \<Longrightarrow> job_inv view (job_start cap st)"
  by (auto simp: job_inv_def job_start_def chan_inv_def owned_def owner_def newManagerWithStore_def
      empty_entry_def cap_inv_def split: sum.splits)

context reliable_store
begin

lemma resolve_section_closed:
  assumes "resolve_section ops ctx k m = (r, m')"
  shows "closed m' = closed m \<and> (closed m \<longrightarrow> m' = m)"
  using assms by (auto simp: resolve_section_def Let_def split: if_splits sum.splits option.splits)

lemma remove_section_closed:
  assumes "remove_section ops ctx k m = (r, m')"
  shows "closed m' = closed m \<and> (closed m \<longrightarrow> m' = m) \<and> chans m' = chans m \<and> next_chan m' = next_chan m \<and>
    panicked m' = panicked m \<and> entries m' = entries m"
  using assms by (auto simp: remove_section_def split: if_splits sum.splits option.splits)

lemma sweep_section_frame:
  assumes "sweep_section ops ctx ps m = Some (qs, m')"
  shows "chans m' = chans m \<and> next_chan m' = next_chan m \<and> panicked m' = panicked m \<and> entries m' = entries m"
  using assms by (auto simp: sweep_section_def split: if_splits sum.splits)

lemma job_inv_begin_resolve:
  fixes s :: "('s, 'k, 'c, 'v, 'e, 'b) job_sys"
  assumes "job_inv view s" and "held (jplace s g) = None"
  shows "job_inv view (begin_resolve ops g ctx k v err s)"
proof -
  obtain r m' where r: "resolve_section ops ctx k (mgr s) = (r, m')" by fastforce
  define p :: "('k, 'c, 'v, 'e, 'b) job_place" where "p = (case r of None \<Rightarrow> Answer False | Some (a, w, cb) \<Rightarrow> Resolving a w cb ctx v err)"
  have t: "begin_resolve ops g ctx k v err s = at_place g p m' s"
    using r by (auto simp: begin_resolve_def p_def split: option.splits)
  have "held p = (case r of None \<Rightarrow> None | Some (a, w, cb) \<Rightarrow> w)"
    by (auto simp: p_def split: option.splits)
  with chan_inv_resolve_section [OF _ _ r, of "\<lambda>g. held (jplace s g)" g] assms
  have "chan_inv ((\<lambda>h. held (jplace s h))(g := held p)) m'"
    by (simp add: job_inv_def)
  moreover have "cap_inv view m'"
    using resolve_section_within [OF r] assms(1) by (simp add: job_inv_def)
  moreover have "closed m' \<longrightarrow> view (store m') = Map.empty"
    using resolve_section_closed [OF r] assms(1) by (auto simp: job_inv_def)
  ultimately show ?thesis
    unfolding t by (simp only: job_inv_def held_at_place) simp
qed

lemma job_inv_sweep:
  fixes s :: "('s, 'k, 'c, 'v, 'e, 'b) job_sys"
  assumes "job_inv view s" and "held (jplace s g) = None" and "held p = None"
    and "sweep_section ops ctx ps m = Some (qs, m')" and "store m = store (mgr s)" and "capacity m = capacity (mgr s)"
    and "chans m = chans (mgr s)" "next_chan m = next_chan (mgr s)" "panicked m = panicked (mgr s)" "entries m = entries (mgr s)"
  shows "job_inv view (at_place g p m' s)"
proof -
  have "chan_inv (\<lambda>h. held (jplace s h)) m'"
    using sweep_section_frame [OF assms(4)] assms(1,7-) by (auto simp: job_inv_def intro: chan_inv_cong)
  moreover have "(\<lambda>h. held (jplace s h))(g := held p) = (\<lambda>h. held (jplace s h))"
    using assms(2,3) by (intro held_same) simp
  moreover have "cap_inv view m'"
    using sweep_section_within [OF assms(4)] assms(1,5,6) by (simp add: job_inv_def cap_inv_def)
  moreover have "view (store m') = Map.empty"
    using sweep_empties [OF assms(4)] by simp
  ultimately show ?thesis
    by (simp only: job_inv_def held_at_place) simp
qed

lemma job_inv_idle:
  assumes "job_inv view s" and "held (jplace s g) = None" and "held p = None"
  shows "job_inv view (s\<lparr>jplace := (jplace s)(g := p)\<rparr>)"
proof -
  have "job_inv view (at_place g p (mgr s) s)"
    by (rule job_inv_tail [OF assms(1)]) (use assms in \<open>simp_all add: held_same fun_upd_idem job_inv_def\<close>)
  then show ?thesis by simp
qed

lemma chan_inv_same:
  fixes s :: "('s, 'k, 'c, 'v, 'e, 'b) job_sys" and p :: "('k, 'c, 'v, 'e, 'b) job_place"
  assumes "held (jplace s g) = None" and "held p = None" and "chan_inv (\<lambda>h. held (jplace s h)) m"
  shows "chan_inv ((\<lambda>h. held (jplace s h))(g := held p)) m"
  using assms by (simp add: fun_upd_idem)

lemma job_inv_remove:
  fixes s :: "('s, 'k, 'c, 'v::zero, 'e, 'b) job_sys"
  assumes J: "job_inv view s" and i: "jplace s g = Idle" and r: "remove_section ops ctx k (mgr s) = (r, m')"
  shows "job_inv view (at_place g (case r of None \<Rightarrow> Answer False | Some a \<Rightarrow> Removing a) m' s)"
proof -
  have "chan_inv (\<lambda>h. held (jplace s h)) (mgr s)" using J by (simp add: job_inv_def)
  then have "chan_inv (\<lambda>h. held (jplace s h)) m'"
    by (rule chan_inv_cong) (use remove_section_closed [OF r] in auto)
  moreover have "held (case r of None \<Rightarrow> Answer False | Some a \<Rightarrow> Removing a) = None"
    by (simp split: option.splits)
  moreover have "cap_inv view m'"
    using remove_section_within [OF r] J by (simp add: job_inv_def)
  moreover have "closed m' \<longrightarrow> view (store m') = Map.empty"
    using remove_section_closed [OF r] J by (auto simp: job_inv_def)
  ultimately show ?thesis
    using i by (simp only: job_inv_def held_at_place) (auto simp: fun_upd_idem split: option.splits)
qed

lemma job_inv_receive:
  fixes s :: "('s, 'k, 'c, 'v::zero, 'e, 'b) job_sys"
  assumes J: "job_inv view s" and "jplace s g = Waiting ch" and r: "wait_recv ch (mgr s) = Some ((v, err), m')"
  shows "job_inv view (at_place g (Got v err) m' s)"
proof -
  have "chan_inv (\<lambda>h. held (jplace s h)) (mgr s)" using J by (simp add: job_inv_def)
  moreover have "store m' = store (mgr s)" "capacity m' = capacity (mgr s)" "closed m' = closed (mgr s)"
    using r by (auto simp: wait_recv_def split: option.splits if_splits)
  ultimately show ?thesis
    using job_inv_tail [OF J chan_inv_same [of s g "Got v err"]] chan_inv_recv [OF _ r] assms(2) by simp
qed

lemma job_inv_close:
  fixes s :: "('s, 'k, 'c, 'v::zero, 'e, 'b) job_sys"
  assumes J: "job_inv view s" and i: "jplace s g = ClosingNow" and c: "close_section ops ps (mgr s) = Some (qs, m')"
  shows "job_inv view (at_place g (Sweeping qs (Some ErrJobClosed) False) m' s)"
proof (cases "closed (mgr s)")
  case True
  with c have "m' = mgr s" by (simp add: close_section_def)
  with i show ?thesis by (auto intro!: job_inv_idle [OF J])
next
  case False
  with c have "sweep_section ops (Some Background) ps (mgr s\<lparr>closed := True\<rparr>) = Some (qs, m')"
    by (simp add: close_section_def)
  with i show ?thesis
    using job_inv_sweep [OF J, of g _ _ _ "mgr s\<lparr>closed := True\<rparr>"] by simp
qed

lemma job_inv_step:
  fixes s :: "('s, 'k, 'c, 'v::zero, 'e, 'b) job_sys"
  assumes J: "job_inv view s" and "job_step ops l s = Some t"
  shows "job_inv view t"
proof -
  have C: "chan_inv (\<lambda>h. held (jplace s h)) (mgr s)" using J by (simp add: job_inv_def)
  note same = chan_inv_same [of s]
  show ?thesis
  proof (cases l)
    case (Add pick k cb opts)
    obtain r m' where a: "addJob ops pick k cb opts (mgr s) = (r, m')" by fastforce
    with assms(2) Add have t: "t = s\<lparr>mgr := m'\<rparr>" by simp
    have "closed m' \<longrightarrow> view (store m') = Map.empty"
      using add_store [OF a] J by (cases r) (auto simp: job_inv_def)
    with chan_inv_add [OF C a] add_within [OF a] J t show ?thesis
      by (simp add: job_inv_def)
  next
    case (SetStrategy st)
    with assms(2) C J show ?thesis
      by (auto simp: setCallbackStrategy_def job_inv_def cap_inv_def split: option.splits intro: chan_inv_cong)
  next
    case (Resolve g ctx k v err)
    with assms(2) show ?thesis
      by (auto split: job_place.splits intro: job_inv_begin_resolve [OF J])
  next
    case (ResolveFired g)
    with assms(2) show ?thesis
      by (auto split: job_place.splits intro: job_inv_begin_resolve [OF J])
  next
    case (Fire g i)
    with assms(2) obtain k err where "jplace s g = Idle" "t = at_place g (Fired k err) (stop (Some i) (mgr s)) s"
      by (auto split: job_place.splits option.splits)
    moreover have "chan_inv (\<lambda>h. held (jplace s h)) (stop (Some i) (mgr s))"
      by (rule chan_inv_cong [OF C]) auto
    ultimately show ?thesis
      using job_inv_tail [OF J same [of g "Fired k err"]] by simp
  next
    case (ResolveTail g)
    with assms(2) obtain a w cb ctx v err where p: "jplace s g = Resolving a w cb ctx v err"
      and t: "t = at_place g (Answer True) (resolve_tail ctx a w cb v err (mgr s)) s"
      by (auto split: job_place.splits if_splits)
    have "chan_inv ((\<lambda>h. held (jplace s h))(g := held (Answer True))) (resolve_tail ctx a w cb v err (mgr s))"
      using chan_inv_resolve_tail [OF C, of g w] p by simp
    then show ?thesis
      unfolding t by (rule job_inv_tail [OF J]) auto
  next
    case (Remove g ctx k)
    obtain r m' where r: "remove_section ops ctx k (mgr s) = (r, m')" by fastforce
    with assms(2) Remove have "jplace s g = Idle"
      and "t = at_place g (case r of None \<Rightarrow> Answer False | Some a \<Rightarrow> Removing a) m' s"
      by (auto split: job_place.splits option.splits)
    with job_inv_remove [OF J _ r] show ?thesis by simp
  next
    case (RemoveTail g)
    with assms(2) obtain a where "jplace s g = Removing a" "t = at_place g (Answer True) (remove_tail a (mgr s)) s"
      by (auto split: job_place.splits)
    with job_inv_tail [OF J same [of g "Answer True"]] chan_inv_remove_tail [OF C] show ?thesis by simp
  next
    case (Wait g ctx k)
    with assms(2) show ?thesis
      by (auto split: job_place.splits sum.splits intro!: job_inv_idle [OF J])
  next
    case (Receive g)
    with assms(2) obtain ch v err m' where "jplace s g = Waiting ch" "wait_recv ch (mgr s) = Some ((v, err), m')"
      and "t = at_place g (Got v err) m' s"
      by (auto split: job_place.splits option.splits)
    with job_inv_receive [OF J] show ?thesis by blast
  next
    case (WaitCancelled g e)
    with assms(2) show ?thesis
      by (auto split: job_place.splits intro!: job_inv_idle [OF J])
  next
    case (CancelAll g ctx ps err)
    with assms(2) obtain qs m' where "jplace s g = Idle" "sweep_section ops ctx ps (mgr s) = Some (qs, m')"
      "t = at_place g (Sweeping qs err False) m' s"
      by (auto simp: begin_sweep_def split: job_place.splits option.splits)
    then show ?thesis
      using job_inv_sweep [OF J] by simp
  next
    case (CloseAll g ps)
    with assms(2) obtain qs m' where "jplace s g = Idle" "sweep_section ops (Some Background) ps (mgr s) = Some (qs, m')"
      "t = at_place g (Sweeping qs (Some ErrJobClosed) True) m' s"
      by (auto simp: begin_sweep_def split: job_place.splits option.splits)
    then show ?thesis
      using job_inv_sweep [OF J] by simp
  next
    case (Sweep g)
    then show ?thesis
    proof (cases "jplace s g")
      case (Sweeping ps err b)
      with assms(2) Sweep chan_inv_close_one [OF C] show ?thesis
        by (cases ps) (auto intro!: job_inv_idle [OF J] job_inv_tail [OF J] same)
    qed (use assms(2) in simp_all)
  next
    case (CloseSection g ps)
    with assms(2) obtain qs m' where "jplace s g = ClosingNow" "close_section ops ps (mgr s) = Some (qs, m')"
      and "t = at_place g (Sweeping qs (Some ErrJobClosed) False) m' s"
      by (auto split: job_place.splits option.splits)
    with job_inv_close [OF J] show ?thesis by blast
  next
    case (Return g)
    with assms(2) show ?thesis
      by (auto split: job_place.splits intro!: job_inv_idle [OF J])
  qed
qed

end

interpretation jobs: inductive_invariant "(=) (job_start cap newMemoryStore)" "labelled (job_step memoryStore)"
  "job_inv (\<lambda>st. st)" for cap
  by unfold_locales (auto simp: labelled_def mem_defs(7) intro: job_inv_start mem.job_inv_step)

abbreviation jobs_reach :: "int \<Rightarrow> ('k \<rightharpoonup> nat, 'k, 'c, 'v::zero, 'e, 'b) job_sys \<Rightarrow> bool" where
  "jobs_reach cap \<equiv> reach ((=) (job_start cap newMemoryStore)) (labelled (job_step memoryStore))"

lemma jobs_reach_run: "run (job_step memoryStore) ls (job_start cap newMemoryStore) = Some s \<Longrightarrow> jobs_reach cap s"
  by (rule reach_run) (auto intro: reach_start)

lemmas job_run_defs = job_start_def newManagerWithStore_def method_defs part_defs mem_defs begin_resolve_def
  begin_sweep_def defaultConfig_def withKeepAlive_def withTimeout_def withWait_def can_send_def lists_map_def
  callback_ctx_def effective_def empty_entry_def

section \<open>Sweeping\<close>









section \<open>What the manager promises\<close>

text \<open>
  C4 (invariant): Under every interleaving of all methods, timers and context watchers, the memory store
  never tracks more jobs than the capacity; once the manager is closed it tracks none, for ever.
\<close>

theorem jobs_bounded:
  assumes "jobs_reach cap s"
  shows "(capacity (mgr s) > 0 \<longrightarrow> int (card (dom (store (mgr s)))) \<le> capacity (mgr s)) \<and>
    (closed (mgr s) \<longrightarrow> store (mgr s) = Map.empty)"
  using jobs.inv_reachable [OF assms] by (simp add: job_inv_def cap_inv_def)

definition full_trace :: "(nat, unit, nat, unit, nat) job_label list" where
  "full_trace = [Add None 1 (Some 100) [], Add None 2 (Some 200) []]"

theorem jobs_bounded_witness:
  "case run (job_step memoryStore) full_trace (job_start 1 newMemoryStore) of None \<Rightarrow> False
   | Some s \<Rightarrow> store (mgr s) = [1 \<mapsto> 0] \<and> int (card (dom (store (mgr s)))) \<le> 1"
proof -
  have "\<exists>s. run (job_step memoryStore) full_trace (job_start 1 newMemoryStore) = Some s \<and>
      store (mgr s) = [1 \<mapsto> 0] \<and> capacity (mgr s) = 1"
    by (simp add: full_trace_def job_run_defs)
  then obtain s where s: "run (job_step memoryStore) full_trace (job_start 1 newMemoryStore) = Some s"
      "store (mgr s) = [1 \<mapsto> 0]" "capacity (mgr s) = 1" by blast
  with jobs_bounded [OF jobs_reach_run [OF s(1)]] show ?thesis by simp
qed









definition reuse_trace :: "(nat, unit, nat, unit, nat) job_label list" where
  "reuse_trace =
    [Add None 1 (Some 100) [withKeepAlive True, withTimeout 0], Resolve 0 (Some Background) 1 7 None,
     Remove 1 (Some Background) 1, RemoveTail 1, Add (Some 0) 2 (Some 200) [], ResolveTail 0,
     Add (Some 0) 3 (Some 300) [], Resolve 2 (Some Background) 2 8 None, ResolveTail 2]"

text \<open>
  The tail of \<open>Resolve\<close> on a kept-alive job goes on using the entry after the lock is released. If
  meanwhile the job is removed and a new job takes the entry from the pool, the tail clears the new
  job's callback, disarms its timeout and puts its entry into the pool a second time: a third job
  then shares the entry, and the response of job 2 is delivered to the callback of job 3.
\<close>

theorem jobs_entry_reuse:
  "case run (job_step memoryStore) reuse_trace (job_start 0 newMemoryStore) of None \<Rightarrow> False
   | Some s \<Rightarrow> called (mgr s) = [Invoked AsyncStrategy 100 Background 7 None, Invoked AsyncStrategy 300 Background 8 None]
       \<and> jplace s 2 = Answer True \<and> store (mgr s) = [3 \<mapsto> 0] \<and> callback (entries (mgr s) 0) = None"
  by (simp add: reuse_trace_def job_run_defs)

text \<open>
  \<open>NextID\<close>: the identifiers of two calls are equal exactly when the call numbers agree modulo
  2 to the width of the key type, 64 bits for \<open>uint64\<close>, \<open>int64\<close>, \<open>uint\<close>, \<open>int\<close> and the decimal strings, 32 for
  \<open>uint32\<close> and \<open>int32\<close>; for any other key type every identifier is the same zero value.
\<close>

theorem jobs_next_id:
  "nth_id kind i = nth_id kind j \<longleftrightarrow>
    (case kind of OtherKey \<Rightarrow> True | U32 \<Rightarrow> i mod 2 ^ 32 = j mod 2 ^ 32 | I32 \<Rightarrow> i mod 2 ^ 32 = j mod 2 ^ 32
     | _ \<Rightarrow> i mod 2 ^ 64 = j mod 2 ^ 64)"
  by (cases kind) (simp_all add: nth_id_eq of_nat64_eq of_nat32_eq Suc_mod_cancel word_unat_eq_iff [symmetric]
      del: of_nat_Suc)

end
