(* ===== verification/JobsSpec.thy ===== *)
theory JobsSpec
  imports Jobs
begin

text \<open>
  What the job manager promises, as a specification: a registry of pending keys with a bound, which can be shut
  down. The interleaved sections of the manager over any store that does not fail refine it: entries,
  channels, timers, pools and the halves of the methods disappear under the map \<open>registry_of\<close>.
\<close>

record 'k registry =
  pending :: "'k set"
  shutdown :: bool
  bound :: int

inductive registry_step :: "'k registry \<Rightarrow> 'k registry \<Rightarrow> bool" where
  reg_add: "\<not> shutdown r \<Longrightarrow> k \<notin> pending r \<Longrightarrow> (bound r > 0 \<Longrightarrow> int (card (pending r)) < bound r) \<Longrightarrow>
    registry_step r (r\<lparr>pending := insert k (pending r)\<rparr>)"
| reg_take: "\<not> shutdown r \<Longrightarrow> k \<in> pending r \<Longrightarrow> registry_step r (r\<lparr>pending := pending r - {k}\<rparr>)"
| reg_clear: "\<not> shutdown r \<Longrightarrow> registry_step r (r\<lparr>pending := {}\<rparr>)"
| reg_close: "registry_step r (r\<lparr>pending := {}, shutdown := True\<rparr>)"

definition registry_ok :: "'k registry \<Rightarrow> bool" where
  "registry_ok r \<longleftrightarrow> finite (pending r) \<and> (bound r > 0 \<longrightarrow> int (card (pending r)) \<le> bound r) \<and>
     (shutdown r \<longrightarrow> pending r = {})"

lemma registry_ok_step: "registry_step r r' \<Longrightarrow> registry_ok r \<Longrightarrow> registry_ok r'"
proof (induction rule: registry_step.induct)
  case (reg_add r k)
  then show ?case by (auto simp: registry_ok_def)
next
  case (reg_take r k)
  then have "card (pending r - {k}) \<le> card (pending r)" by (intro card_mono) (auto simp: registry_ok_def)
  with reg_take show ?case by (auto simp: registry_ok_def)
qed (auto simp: registry_ok_def)

definition reg_start :: "int \<Rightarrow> 'k registry" where
  "reg_start cap = \<lparr>pending = {}, shutdown = False, bound = cap\<rparr>"

interpretation registry: inductive_invariant "(=) (reg_start cap)" registry_step registry_ok for cap
  by unfold_locales (auto simp: reg_start_def registry_ok_def [of "\<lparr>pending = {}, shutdown = False, bound = cap\<rparr>"] intro: registry_ok_step)

definition registry_of :: "('s \<Rightarrow> 'k \<rightharpoonup> nat) \<Rightarrow> ('s, 'k, 'c, 'v, 'e, 'b) job_sys \<Rightarrow> 'k registry" where
  "registry_of view s = \<lparr>pending = dom (view (store (mgr s))), shutdown = closed (mgr s), bound = capacity (mgr s)\<rparr>"

text \<open>The registry depends on the manager's store, closed flag and capacity only.\<close>

definition reg_of_mgr :: "('s \<Rightarrow> 'k \<rightharpoonup> nat) \<Rightarrow> ('s, 'k, 'c, 'v, 'e, 'b) manager \<Rightarrow> 'k registry" where
  "reg_of_mgr view m = \<lparr>pending = dom (view (store m)), shutdown = closed m, bound = capacity m\<rparr>"

lemma registry_of_mgr: "registry_of view s = reg_of_mgr view (mgr s)"
  by (simp add: registry_of_def reg_of_mgr_def)

definition simulated :: "'k registry \<Rightarrow> 'k registry \<Rightarrow> bool" where
  "simulated r r' \<longleftrightarrow> registry_step r r' \<or> r' = r"

lemma simulated_same: "store m' = store m \<Longrightarrow> closed m' = closed m \<Longrightarrow> capacity m' = capacity m \<Longrightarrow>
    simulated (reg_of_mgr view m) (reg_of_mgr view m')"
  by (simp add: simulated_def reg_of_mgr_def)

context reliable_store
begin

lemma add_simulated:
  fixes m :: "('s, 'k, 'c, 'v, 'e, 'b) manager"
  assumes "cap_inv view m"
  shows "simulated (reg_of_mgr view m) (reg_of_mgr view (snd (addJob ops pick k cb opts m)))"
proof -
  obtain r m' where a: "addJob ops pick k cb opts m = (r, m')" by fastforce
  note f = add_store [OF a]
  show ?thesis
  proof (cases r)
    case (Some e)
    with a f show ?thesis by (simp add: simulated_def reg_of_mgr_def)
  next
    case None
    with f obtain x where x: "\<not> closed m" "view (store m) k = None" "view (store m') = (view (store m))(k \<mapsto> x)" by auto
    have room: "int (card (dom (view (store m)))) < capacity m" if "capacity m > 0"
      using a
    proof (cases rule: addJob_cases)
      case (tracked cfg n)
      from len_view [OF _ tracked(3)] assms tracked(4) that show ?thesis by (simp add: cap_inv_def)
    qed (use None in simp)
    have "registry_step (reg_of_mgr view m) ((reg_of_mgr view m)\<lparr>pending := insert k (pending (reg_of_mgr view m))\<rparr>)"
      by (rule reg_add) (use x room in \<open>auto simp: reg_of_mgr_def\<close>)
    with a x(3) f show ?thesis by (simp add: simulated_def reg_of_mgr_def)
  qed
qed

lemma take_simulated:
  assumes "\<not> closed m" and "view (store m) k = Some a" and "view st = (view (store m))(k := None)"
    and "store m' = st" and "closed m' = closed m" and "capacity m' = capacity m"
  shows "simulated (reg_of_mgr view m) (reg_of_mgr view m')"
proof -
  have "registry_step (reg_of_mgr view m) ((reg_of_mgr view m)\<lparr>pending := pending (reg_of_mgr view m) - {k}\<rparr>)"
    by (rule reg_take) (use assms in \<open>auto simp: reg_of_mgr_def\<close>)
  with assms show ?thesis by (simp add: simulated_def reg_of_mgr_def)
qed

lemma resolve_simulated:
  assumes "resolve_section ops ctx k m = (r, m')"
  shows "simulated (reg_of_mgr view m) (reg_of_mgr view m')"
proof (cases "m' = m")
  case False
  with assms obtain a where a: "\<not> closed m" "view (store m) k = Some a"
    and m': "m' = (if keepAlive (entries m a) then m else m\<lparr>store := snd (sDelete ops ctx k (store m))\<rparr>)
      \<lparr>entries := (entries m)(a := (entries m a)\<lparr>waitCh := None\<rparr>)\<rparr>"
    by (auto simp: resolve_section_def get_total Let_def split: if_splits option.splits)
  show ?thesis
  proof (cases "keepAlive (entries m a)")
    case True
    with m' show ?thesis by (intro simulated_same) simp_all
  next
    case False
    with m' show ?thesis by (intro take_simulated [OF a delete_exact [of ctx k "store m"]]) simp_all
  qed
qed (simp add: simulated_def)

lemma remove_simulated:
  assumes "remove_section ops ctx k m = (r, m')"
  shows "simulated (reg_of_mgr view m) (reg_of_mgr view m')"
proof (cases "m' = m")
  case False
  with assms obtain a where a: "\<not> closed m" "view (store m) k = Some a"
    and m': "m' = m\<lparr>store := snd (sDelete ops ctx k (store m))\<rparr>"
    by (auto simp: remove_section_def get_total split: if_splits option.splits)
  with m' show ?thesis by (intro take_simulated [OF a delete_exact [of ctx k "store m"]]) simp_all
qed (simp add: simulated_def)

lemma sweep_simulated:
  assumes "sweep_section ops ctx ps m = Some (qs, m')" and "closed m \<longrightarrow> view (store m) = Map.empty"
  shows "simulated (reg_of_mgr view m) (reg_of_mgr view m')"
proof -
  have s: "view (store m') = Map.empty" "closed m' = closed m" "capacity m' = capacity m"
    using sweep_empties [OF assms(1)] assms(1) by (auto simp: sweep_section_def split: sum.splits if_splits)
  show ?thesis
  proof (cases "closed m")
    case False
    then have "registry_step (reg_of_mgr view m) ((reg_of_mgr view m)\<lparr>pending := {}\<rparr>)" by (intro reg_clear) (simp add: reg_of_mgr_def)
    with s show ?thesis by (simp add: simulated_def reg_of_mgr_def)
  qed (use s assms(2) in \<open>simp add: simulated_def reg_of_mgr_def\<close>)
qed

lemma close_simulated:
  assumes "close_section ops ps m = Some (qs, m')"
  shows "simulated (reg_of_mgr view m) (reg_of_mgr view m')"
proof (cases "closed m")
  case True
  with assms show ?thesis by (simp add: close_section_def simulated_def)
next
  case False
  with assms have sw: "sweep_section ops (Some Background) ps (m\<lparr>closed := True\<rparr>) = Some (qs, m')" by (simp add: close_section_def)
  have s: "view (store m') = Map.empty" "closed m'" "capacity m' = capacity m"
    using sweep_empties [OF sw] sw by (auto simp: sweep_section_def split: sum.splits if_splits)
  have "registry_step (reg_of_mgr view m) ((reg_of_mgr view m)\<lparr>pending := {}, shutdown := True\<rparr>)" by (rule reg_close)
  with s show ?thesis by (simp add: simulated_def reg_of_mgr_def)
qed

lemma begin_resolve_simulated:
  "simulated (reg_of_mgr view (mgr s)) (reg_of_mgr view (mgr (begin_resolve ops g ctx k v err s)))"
proof -
  obtain r m' where r: "resolve_section ops ctx k (mgr s) = (r, m')" by fastforce
  then have "mgr (begin_resolve ops g ctx k v err s) = m'" by (auto simp: begin_resolve_def split: option.splits)
  with resolve_simulated [OF r] show ?thesis by simp
qed

lemma job_step_simulated:
  fixes s :: "('s, 'k, 'c, 'v::zero, 'e, 'b) job_sys"
  assumes J: "job_inv view s" and st: "job_step ops l s = Some t"
  shows "simulated (registry_of view s) (registry_of view t)"
proof -
  have cap: "cap_inv view (mgr s)" and cl: "closed (mgr s) \<longrightarrow> view (store (mgr s)) = Map.empty"
    using J by (simp_all add: job_inv_def)
  have same: "simulated (reg_of_mgr view (mgr s)) (reg_of_mgr view m)"
    if "store m = store (mgr s)" "closed m = closed (mgr s)" "capacity m = capacity (mgr s)" for m
    using that by (rule simulated_same)
  show ?thesis
    unfolding registry_of_mgr
  proof (cases l)
    case (Add pick k cb opts)
    with st add_simulated [OF cap] show "simulated (reg_of_mgr view (mgr s)) (reg_of_mgr view (mgr t))" by auto
  next
    case (Resolve g ctx k v err)
    with st begin_resolve_simulated show "simulated (reg_of_mgr view (mgr s)) (reg_of_mgr view (mgr t))" by (auto split: job_place.splits)
  next
    case (ResolveFired g)
    with st begin_resolve_simulated show "simulated (reg_of_mgr view (mgr s)) (reg_of_mgr view (mgr t))" by (auto split: job_place.splits)
  next
    case (Remove g ctx k)
    obtain r m' where r: "remove_section ops ctx k (mgr s) = (r, m')" by fastforce
    with Remove st have "mgr t = m'" by (auto split: job_place.splits option.splits)
    with remove_simulated [OF r] show "simulated (reg_of_mgr view (mgr s)) (reg_of_mgr view (mgr t))" by simp
  next
    case (CancelAll g ctx ps err)
    with st obtain qs m' where "sweep_section ops ctx ps (mgr s) = Some (qs, m')" "mgr t = m'"
      by (auto simp: begin_sweep_def split: job_place.splits option.splits)
    with sweep_simulated cl show "simulated (reg_of_mgr view (mgr s)) (reg_of_mgr view (mgr t))" by blast
  next
    case (CloseAll g ps)
    with st obtain qs m' where "sweep_section ops (Some Background) ps (mgr s) = Some (qs, m')" "mgr t = m'"
      by (auto simp: begin_sweep_def split: job_place.splits option.splits)
    with sweep_simulated cl show "simulated (reg_of_mgr view (mgr s)) (reg_of_mgr view (mgr t))" by blast
  next
    case (CloseSection g ps)
    with st obtain qs m' where "close_section ops ps (mgr s) = Some (qs, m')" "mgr t = m'"
      by (auto split: job_place.splits option.splits)
    with close_simulated show "simulated (reg_of_mgr view (mgr s)) (reg_of_mgr view (mgr t))" by blast
  next
    case (SetStrategy sg)
    with st show "simulated (reg_of_mgr view (mgr s)) (reg_of_mgr view (mgr t))"
      by (auto simp: setCallbackStrategy_def intro!: simulated_same split: option.splits)
  next
    case (Receive g)
    with st show "simulated (reg_of_mgr view (mgr s)) (reg_of_mgr view (mgr t))"
      by (auto simp: wait_recv_def intro!: same split: job_place.splits option.splits if_splits)
  next
    case (Sweep g)
    with st show "simulated (reg_of_mgr view (mgr s)) (reg_of_mgr view (mgr t))"
      by (auto intro!: same split: job_place.splits list.splits)
  qed (use st in \<open>auto intro!: same split: job_place.splits option.splits sum.splits if_splits\<close>)
qed

end




end
