(* ===== verification/Locked.thy ===== *)
theory Locked
  imports TryMutex
begin

text \<open>
  Objects whose operations run under one mutex from beginning to end. The operation is a machine of small
  steps on the object's data, each a step of the system, so that other goroutines run in between; the
  lock is any that meets the contract \<open>try_mutex\<close>. The locale \<open>locked_object\<close> says that the machine computes
  a function \<open>effect\<close>; then every execution is equivalent to the operations one after the other, in the order
  in which they released the mutex. This is what justifies one atomic step for each locked section in
  the other theories.
\<close>

section \<open>Machines\<close>

text \<open>\<open>n\<close> steps from a program point; once there is a result nothing more happens.\<close>

fun exec :: "('pc \<Rightarrow> 'd \<Rightarrow> 'd \<times> ('pc + 'r)) \<Rightarrow> nat \<Rightarrow> 'pc \<Rightarrow> 'd \<Rightarrow> 'd \<times> ('pc + 'r)" where
  "exec micro 0 p d = (d, Inl p)"
| "exec micro (Suc n) p d = (case exec micro n p d of (d', Inl q) \<Rightarrow> micro q d' | (d', Inr r) \<Rightarrow> (d', Inr r))"

lemma exec_more: "exec micro n p d = (d', Inr r) \<Longrightarrow> exec micro (n + m) p d = (d', Inr r)"
  by (induction m) simp_all

lemma exec_result_unique:
  assumes "exec micro n p d = (d1, Inr r1)" and "exec micro m p d = (d2, Inr r2)"
  shows "d1 = d2 \<and> r1 = r2"
proof -
  have "exec micro (n + m) p d = (d1, Inr r1)" by (rule exec_more [OF assms(1)])
  moreover have "exec micro (n + m) p d = (d2, Inr r2)" using exec_more [OF assms(2), of n] by (simp add: add.commute)
  ultimately show ?thesis by simp
qed

text \<open>A machine reaches a result: by its first step, or from where that leads.\<close>

definition leads :: "('pc \<Rightarrow> 'd \<Rightarrow> 'd \<times> ('pc + 'r)) \<Rightarrow> 'pc \<Rightarrow> 'd \<Rightarrow> 'r \<times> 'd \<Rightarrow> bool" where
  "leads micro p d out \<longleftrightarrow> (\<exists>n. exec micro n p d = (snd out, Inr (fst out)))"

lemma exec_first:
  "exec micro (Suc n) p d = (case micro p d of (d', Inl q) \<Rightarrow> exec micro n q d' | (d', Inr r) \<Rightarrow> (d', Inr r))"
  by (induction n) (simp_all split: prod.splits sum.splits)

lemma leads_unfold:
  "leads micro p d out \<longleftrightarrow> (case micro p d of (d', Inl q) \<Rightarrow> leads micro q d' out | (d', Inr r) \<Rightarrow> out = (r, d'))"
proof -
  have "leads micro p d out \<longleftrightarrow> (\<exists>n. exec micro (Suc n) p d = (snd out, Inr (fst out)))"
  proof
    assume "leads micro p d out"
    then obtain n where n: "exec micro n p d = (snd out, Inr (fst out))" by (auto simp: leads_def)
    then obtain k where "n = Suc k" by (cases n) auto
    with n show "\<exists>n. exec micro (Suc n) p d = (snd out, Inr (fst out))" by blast
  qed (auto simp only: leads_def)
  moreover obtain d' x where "micro p d = (d', x)" by fastforce
  ultimately show ?thesis
    by (cases out; cases x) (auto simp: exec_first leads_def simp del: exec.simps)
qed

lemma leads_computes: "leads micro p d out \<Longrightarrow> \<exists>n. exec micro n p d = (case out of (r, d') \<Rightarrow> (d', Inr r))"
  by (cases out) (simp add: leads_def)

text \<open>A machine inside a larger one: \<open>w\<close> embeds its program points and \<open>r\<close> its results.\<close>

definition embed :: "('p \<Rightarrow> 'q) \<Rightarrow> ('r \<Rightarrow> 's) \<Rightarrow> 'd \<times> ('p + 'r) \<Rightarrow> 'd \<times> ('q + 's)" where
  "embed w r out = map_prod (\<lambda>d. d) (map_sum w r) out"

lemma leads_embed:
  assumes "leads micro p d out" and "\<And>p d. big (w p) d = embed w r (micro p d)"
  shows "leads big (w p) d (map_prod r (\<lambda>d. d) out)"
proof -
  have "exec big n (w p) d = embed w r (exec micro n p d)" for n
    by (induction n) (auto simp: embed_def assms(2) split: prod.splits sum.splits)
  moreover obtain n where "exec micro n p d = (snd out, Inr (fst out))" using assms(1) by (auto simp: leads_def)
  ultimately have "exec big n (w p) d = (snd out, Inr (r (fst out)))" by (simp add: embed_def)
  then show ?thesis unfolding leads_def by (intro exI [of _ n]) simp
qed

section \<open>The system\<close>

text \<open>
  A goroutine is away, attempts to take the mutex for an operation, or is inside one, at a program point or with
  its result. \<open>log\<close> is the history of the operations that released the mutex, with their results.
\<close>

datatype ('o, 'p, 'r) spot = Away | Waits 'o | Inner 'o "'p + 'r"

record ('m, 'd, 'o, 'p, 'r) locked_sys =
  mutex :: 'm
  data :: 'd
  spot :: "nat \<Rightarrow> ('o, 'p, 'r) spot"
  log :: "('o \<times> 'r) list"

definition locked_start :: "'m \<Rightarrow> 'd \<Rightarrow> ('m, 'd, 'o, 'p, 'r) locked_sys" where
  "locked_start w d = \<lparr>mutex = w, data = d, spot = (\<lambda>_. Away), log = []\<rparr>"

datatype 'o locked_label = Begin nat 'o | Take nat | Micro nat | Finish nat

fun locked_step :: "('m \<Rightarrow> 'm \<times> bool) \<Rightarrow> ('m \<Rightarrow> 'm) \<Rightarrow> ('o \<Rightarrow> 'p) \<Rightarrow> ('p \<Rightarrow> 'd \<Rightarrow> 'd \<times> ('p + 'r)) \<Rightarrow>
    'o locked_label \<Rightarrow> ('m, 'd, 'o, 'p, 'r) locked_sys \<Rightarrow> ('m, 'd, 'o, 'p, 'r) locked_sys option" where
  "locked_step attempt unlock entry micro (Begin g opn) s =
     (case spot s g of Away \<Rightarrow> Some (s\<lparr>spot := (spot s)(g := Waits opn)\<rparr>) | _ \<Rightarrow> None)"
| "locked_step attempt unlock entry micro (Take g) s =
     (case spot s g of
        Waits opn \<Rightarrow>
          (case attempt (mutex s) of
             (w, True) \<Rightarrow> Some (s\<lparr>mutex := w, spot := (spot s)(g := Inner opn (Inl (entry opn)))\<rparr>)
           | (w, False) \<Rightarrow> Some (s\<lparr>mutex := w\<rparr>))
      | _ \<Rightarrow> None)"
| "locked_step attempt unlock entry micro (Micro g) s =
     (case spot s g of
        Inner opn (Inl p) \<Rightarrow> (case micro p (data s) of (d, x) \<Rightarrow> Some (s\<lparr>data := d, spot := (spot s)(g := Inner opn x)\<rparr>))
      | _ \<Rightarrow> None)"
| "locked_step attempt unlock entry micro (Finish g) s =
     (case spot s g of
        Inner opn (Inr r) \<Rightarrow> Some (s\<lparr>mutex := unlock (mutex s), spot := (spot s)(g := Away), log := log s @ [(opn, r)]\<rparr>)
      | _ \<Rightarrow> None)"

text \<open>One operation after the other.\<close>

fun replay :: "('o \<Rightarrow> 'd \<Rightarrow> 'r \<times> 'd) \<Rightarrow> 'o list \<Rightarrow> 'd \<Rightarrow> 'r list \<times> 'd" where
  "replay effect [] d = ([], d)"
| "replay effect (opn # ops) d = (case effect opn d of (r, d1) \<Rightarrow> (case replay effect ops d1 of (rs, d2) \<Rightarrow> (r # rs, d2)))"

lemma replay_snoc:
  "replay effect (ops @ [opn]) d =
    (case replay effect ops d of (rs, d1) \<Rightarrow> (case effect opn d1 of (r, d2) \<Rightarrow> (rs @ [r], d2)))"
  by (induction ops arbitrary: d) (auto split: prod.splits)

section \<open>The contract and its consequence\<close>

fun is_inner :: "('o, 'p, 'r) spot \<Rightarrow> bool" where
  "is_inner (Inner opn x) \<longleftrightarrow> True"
| "is_inner _ \<longleftrightarrow> False"

fun mutex_spot :: "('o, 'p, 'r) spot \<Rightarrow> mutex_place" where
  "mutex_spot Away = Out"
| "mutex_spot (Waits opn) = Spinning"
| "mutex_spot (Inner opn x) = Inside"

definition mutex_view :: "('m, 'd, 'o, 'p, 'r) locked_sys \<Rightarrow> 'm mutex_sys" where
  "mutex_view s = \<lparr>word = mutex s, at = (\<lambda>g. mutex_spot (spot s g))\<rparr>"

lemma mutex_view_fields [simp]: "word (mutex_view s) = mutex s" "at (mutex_view s) g = mutex_spot (spot s g)"
  by (simp_all add: mutex_view_def)

lemma mutex_view_upd:
  "mutex_view (s\<lparr>spot := (spot s)(g := x)\<rparr>) = (mutex_view s)\<lparr>at := (at (mutex_view s))(g := mutex_spot x)\<rparr>"
  "mutex_view (s\<lparr>mutex := w\<rparr>) = (mutex_view s)\<lparr>word := w\<rparr>"
  "mutex_view (s\<lparr>mutex := w, spot := (spot s)(g := x)\<rparr>) = (mutex_view s)\<lparr>word := w, at := (at (mutex_view s))(g := mutex_spot x)\<rparr>"
  "mutex_view (s\<lparr>mutex := w, spot := (spot s)(g := x), log := ls\<rparr>) =
     (mutex_view s)\<lparr>word := w, at := (at (mutex_view s))(g := mutex_spot x)\<rparr>"
  by (auto simp: mutex_view_def)

lemma mutex_spot_inside [simp]: "mutex_spot x = Inside \<longleftrightarrow> is_inner x"
  by (cases x) auto

locale locked_object = try_mutex locked attempt unlock
  for locked :: "'m \<Rightarrow> bool" and attempt :: "'m \<Rightarrow> 'm \<times> bool" and unlock :: "'m \<Rightarrow> 'm" +
  fixes entry :: "'o \<Rightarrow> 'p"
    and micro :: "'p \<Rightarrow> 'd \<Rightarrow> 'd \<times> ('p + 'r)"
    and effect :: "'o \<Rightarrow> 'd \<Rightarrow> 'r \<times> 'd"
  assumes computes: "\<exists>n. exec micro n (entry opn) d = (case effect opn d of (r, d') \<Rightarrow> (d', Inr r))"
begin

abbreviation lstep where
  "lstep \<equiv> locked_step attempt unlock entry micro"

text \<open>Under \<open>mutex_view\<close> a step is one of the lock's or none.\<close>

lemma mutex_view_step:
  assumes "lstep l s = Some t"
  shows "mutex_step attempt unlock (mutex_view s) (mutex_view t) \<or> mutex_view t = mutex_view s"
proof (cases l)
  case (Begin g opn)
  with assms show ?thesis
    using mutex_call [of "mutex_view s" g attempt unlock]
    by (auto simp: mutex_view_upd split: spot.splits)
next
  case (Take g)
  with assms show ?thesis
    using mutex_lock [of "mutex_view s" g attempt _ unlock] mutex_again [of "mutex_view s" g attempt _ unlock]
    by (auto simp: mutex_view_upd split: spot.splits prod.splits bool.splits)
next
  case (Micro g)
  with assms obtain opn p d x where p: "spot s g = Inner opn (Inl p)" "t = s\<lparr>data := d, spot := (spot s)(g := Inner opn x)\<rparr>"
    by (auto split: spot.splits sum.splits prod.splits)
  then show ?thesis by (auto simp: mutex_view_def fun_eq_iff)
next
  case (Finish g)
  with assms show ?thesis
    using mutex_unlock [of "mutex_view s" g attempt unlock]
    by (auto simp: mutex_view_upd split: spot.splits sum.splits)
qed

definition linear :: "'d \<Rightarrow> ('m, 'd, 'o, 'p, 'r) locked_sys \<Rightarrow> bool" where
  "linear d0 s \<longleftrightarrow> mutex_inv (mutex_view s) \<and>
     (case replay effect (map fst (log s)) d0 of (rs, d) \<Rightarrow> rs = map snd (log s) \<and>
        ((\<forall>g. \<not> is_inner (spot s g)) \<longrightarrow> data s = d) \<and>
        (\<forall>g opn x. spot s g = Inner opn x \<longrightarrow> (\<exists>n. exec micro n (entry opn) d = (data s, x))))"

lemma one_inner:
  assumes "mutex_inv (mutex_view s)" and "is_inner (spot s g)" and "is_inner (spot s h)"
  shows "g = h"
proof -
  have t: "tracked Out (at (mutex_view s))" and c: "cnt (\<lambda>p. p = Inside) (at (mutex_view s)) \<le> 1"
    using assms(1) by (auto simp: mutex_inv_def)
  show ?thesis
    by (rule cnt_le_one_unique [OF t _ c]) (use assms(2,3) in \<open>auto simp: mutex_view_def\<close>)
qed

lemma free_outside:
  assumes "mutex_inv (mutex_view s)" and "attempt (mutex s) = (w, True)"
  shows "\<not> is_inner (spot s g)"
proof
  assume i: "is_inner (spot s g)"
  have t: "tracked Out (at (mutex_view s))" using assms(1) by (simp add: mutex_inv_def)
  have "0 < cnt (\<lambda>p. p = Inside) (at (mutex_view s))"
    by (rule cnt_pos [OF t, where g = g]) (use i in \<open>auto simp: mutex_view_def\<close>)
  then have "locked (mutex s)" using assms(1) by (auto simp: mutex_inv_def mutex_view_def)
  with assms(2) attempt_held show False by auto
qed

lemma linear_step:
  assumes L: "linear d0 s" and st: "lstep l s = Some t"
  shows "linear d0 t"
proof -
  have M: "mutex_inv (mutex_view s)" using L by (simp add: linear_def)
  then have M': "mutex_inv (mutex_view t)" using mutex_view_step [OF st] mutex_inv_step by auto
  obtain rs d where rp: "replay effect (map fst (log s)) d0 = (rs, d)" by fastforce
  have rs: "rs = map snd (log s)" and idle: "(\<forall>g. \<not> is_inner (spot s g)) \<Longrightarrow> data s = d"
    and busy: "\<And>g opn x. spot s g = Inner opn x \<Longrightarrow> \<exists>n. exec micro n (entry opn) d = (data s, x)"
    using L rp by (auto simp: linear_def)
  show ?thesis
  proof (cases l)
    case (Begin g opn)
    with st obtain "spot s g = Away" "t = s\<lparr>spot := (spot s)(g := Waits opn)\<rparr>" by (auto split: spot.splits)
    then have "is_inner (spot t h) = is_inner (spot s h)" for h by (cases "h = g") auto
    with Begin st M' rp rs idle busy show ?thesis by (auto simp: linear_def split: spot.splits if_splits)
  next
    case (Take g)
    with st obtain opn w b where o: "spot s g = Waits opn" "attempt (mutex s) = (w, b)"
      "t = (if b then s\<lparr>mutex := w, spot := (spot s)(g := Inner opn (Inl (entry opn)))\<rparr> else s\<lparr>mutex := w\<rparr>)"
      by (auto split: spot.splits prod.splits bool.splits)
    show ?thesis
    proof (cases b)
      case True
      with free_outside [OF M] o have out: "\<not> is_inner (spot s h)" for h by simp
      with idle have "\<exists>n. exec micro n (entry opn) d = (data s, Inl (entry opn))" by (intro exI [of _ 0]) simp
      moreover have "spot s h \<noteq> Inner opn' x" for h opn' x using out [of h] by auto
      ultimately show ?thesis using M' rp rs o True by (auto simp: linear_def fun_upd_apply)
    next
      case False
      with M' rp rs idle busy o show ?thesis by (simp add: linear_def)
    qed
  next
    case (Micro g)
    with st obtain opn p d' x where p: "spot s g = Inner opn (Inl p)" "micro p (data s) = (d', x)"
      "t = s\<lparr>data := d', spot := (spot s)(g := Inner opn x)\<rparr>"
      by (auto split: spot.splits sum.splits prod.splits)
    obtain n where "exec micro n (entry opn) d = (data s, Inl p)" using busy [OF p(1)] by blast
    with p(2) have ex: "\<exists>n. exec micro n (entry opn) d = (d', x)" by (intro exI [of _ "Suc n"]) simp
    have "spot s h \<noteq> Inner o' y" if "h \<noteq> g" for h o' y
      using one_inner [OF M, of g h] p(1) that by auto
    with ex M' rp rs p show ?thesis by (auto simp: linear_def fun_upd_apply)
  next
    case (Finish g)
    with st obtain opn r where p: "spot s g = Inner opn (Inr r)"
      "t = s\<lparr>mutex := unlock (mutex s), spot := (spot s)(g := Away), log := log s @ [(opn, r)]\<rparr>"
      by (auto split: spot.splits sum.splits)
    obtain n where n: "exec micro n (entry opn) d = (data s, Inr r)" using busy [OF p(1)] by blast
    obtain m where "exec micro m (entry opn) d = (case effect opn d of (r, d') \<Rightarrow> (d', Inr r))" using computes by blast
    then have e: "effect opn d = (r, data s)"
      using exec_result_unique [OF n, of m] by (cases "effect opn d") auto
    have "spot s h \<noteq> Inner o' y" if "h \<noteq> g" for h o' y
      using one_inner [OF M, of g h] p(1) that by auto
    with M' rp rs p e show ?thesis by (auto simp: linear_def replay_snoc fun_upd_apply)
  qed
qed

lemma linear_start: "\<not> locked w \<Longrightarrow> linear d (locked_start w d)"
  using mutex_inv_start [of w] by (simp add: linear_def locked_start_def mutex_view_def mutex_start_def)

text \<open>Linearizability: the data and the results are those of the operations in the order of the log.\<close>

lemma linearizable:
  assumes "reach ((=) (locked_start w d0)) (labelled lstep) s" and "\<not> locked w" and "\<And>g. \<not> is_inner (spot s g)"
  shows "replay effect (map fst (log s)) d0 = (map snd (log s), data s)"
proof -
  have "linear d0 s"
    using assms(1)
  proof (induction rule: reach.induct)
    case (reach_init s)
    then show ?case using linear_start [OF assms(2)] by auto
  next
    case (reach_step s t)
    then show ?case using linear_step by (auto simp: labelled_def)
  qed
  with assms(3) show ?thesis by (auto simp: linear_def split: prod.splits)
qed

end

end
