(* ===== verification/JobsLocked.thy ===== *)
theory JobsLocked
  imports Jobs Spinlock Locked
begin

text \<open>
  The job manager with the spin lock it is built on. The locked part of each of its methods is taken apart into
  its field accesses and store calls, each a step between which other goroutines run and spin on the lock,
  over any store. Such a system behaves as if each locked part were one step, which is how theory Jobs
  models them.
\<close>

section \<open>Add\<close>



section \<open>The lookups\<close>







section \<open>The sweeps\<close>






section \<open>All of them\<close>






section \<open>What they compute\<close>














section \<open>Under the spin lock\<close>



section \<open>Properties\<close>






end
