(* ===== verification/KeyLock.thy ===== *)
theory KeyLock
  imports TryMutex
begin

text \<open>
  \<open>sync/keylock/keylock.go\<close>: one mutex per key, made on demand and removed when its reference count
  drops to zero. The reference counters live at addresses, since goroutines keep a pointer to theirs
  across sections. Each section under \<open>km.mu\<close> and each operation on \<open>ref.mu\<close> is one step; \<open>ref.mu\<close> is
  the \<open>sync.Mutex\<close> of \<open>TryMutex\<close>. In \<open>key_step\<close> only the holder of a key calls \<open>Unlock\<close>, as the
  package demands of its clients; \<open>ForceUnlock\<close> is added in \<open>force_step\<close>.
\<close>

section \<open>The operations\<close>

record ref_counter =
  mu :: bool
  count :: int

record 'k keyMutex =
  locks :: "'k \<rightharpoonup> nat"
  refs :: "nat \<Rightarrow> ref_counter"
  next_ref :: nat

definition newKeyMutex :: "'k keyMutex" where
  "newKeyMutex = \<lparr>locks = Map.empty, refs = (\<lambda>_. \<lparr>mu = False, count = 0\<rparr>), next_ref = 0\<rparr>"

text \<open>The section that opens \<open>Lock\<close> and \<open>TryLock\<close>: find or make the counter, and count one more user.\<close>

definition enter :: "'k \<Rightarrow> 'k keyMutex \<Rightarrow> nat \<times> 'k keyMutex" where
  "enter k s =
     (case locks s k of
        None \<Rightarrow> (next_ref s, s\<lparr>locks := (locks s)(k \<mapsto> next_ref s),
          refs := (refs s)(next_ref s := \<lparr>mu = False, count = 1\<rparr>), next_ref := Suc (next_ref s)\<rparr>)
      | Some r \<Rightarrow> (r, s\<lparr>refs := (refs s)(r := (refs s r)\<lparr>count := count (refs s r) + 1\<rparr>)\<rparr>))"

text \<open>One user less; the last one removes the key.\<close>

definition leave :: "'k \<Rightarrow> nat \<Rightarrow> 'k keyMutex \<Rightarrow> 'k keyMutex" where
  "leave k r s =
     (let c = count (refs s r) - 1; s' = s\<lparr>refs := (refs s)(r := (refs s r)\<lparr>count := c\<rparr>)\<rparr>
      in if c = 0 then s'\<lparr>locks := (locks s)(k := None)\<rparr> else s')"

text \<open>The section of \<open>Unlock\<close>; \<open>None\<close>: it panics because the key is not there.\<close>

definition unlock_section :: "'k \<Rightarrow> 'k keyMutex \<Rightarrow> (nat \<times> 'k keyMutex) option" where
  "unlock_section k s = map_option (\<lambda>r. (r, leave k r s)) (locks s k)"

definition set_mu :: "nat \<Rightarrow> bool \<Rightarrow> 'k keyMutex \<Rightarrow> 'k keyMutex" where
  "set_mu r b s = s\<lparr>refs := (refs s)(r := (refs s r)\<lparr>mu := b\<rparr>)\<rparr>"

text \<open>\<open>IsLocked\<close> and \<open>Keys\<close> (as a set).\<close>

definition isLocked :: "'k \<Rightarrow> 'k keyMutex \<Rightarrow> bool" where
  "isLocked k s \<longleftrightarrow> locks s k \<noteq> None"

definition keys :: "'k keyMutex \<Rightarrow> 'k set" where
  "keys s = dom (locks s)"

text \<open>\<open>ForceUnlock\<close>: the key is removed, whoever uses its counter.\<close>

definition force_section :: "'k \<Rightarrow> 'k keyMutex \<Rightarrow> nat option \<times> 'k keyMutex" where
  "force_section k s = (locks s k, s\<lparr>locks := (locks s)(k := None)\<rparr>)"

section \<open>Goroutines\<close>

text \<open>
  \<open>Entered k r\<close>: in \<open>Lock\<close>, before \<open>ref.mu.Lock()\<close>. \<open>Trying\<close>, \<open>Failed\<close>: in \<open>TryLock\<close>, before the attempt
  and after a failed one. \<open>Holding\<close>: the call returned with the lock. \<open>Unlocking\<close>: in \<open>Unlock\<close>,
  before \<open>ref.mu.Unlock()\<close>. \<open>Panic\<close>: \<open>Unlock\<close> of an unknown key. \<open>Fatal\<close>: \<open>ref.mu.Unlock()\<close> of an
  unlocked mutex, which no \<open>recover\<close> catches.
\<close>

datatype 'k key_place =
  KIdle | Entered 'k nat | Trying 'k nat | Failed 'k nat | Holding 'k nat | Unlocking nat
| Panic | Forcing nat | Fatal

record 'k key_sys =
  km :: "'k keyMutex"
  kat :: "nat \<Rightarrow> 'k key_place"

definition key_start :: "'k key_sys" where
  "key_start = \<lparr>km = newKeyMutex, kat = (\<lambda>_. KIdle)\<rparr>"

datatype 'k key_label = CallLock nat 'k | CallTry nat 'k | Attempt nat | Undo nat | CallUnlock nat | Release nat

abbreviation kgo :: "nat \<Rightarrow> 'k key_place \<Rightarrow> 'k keyMutex \<Rightarrow> 'k key_sys \<Rightarrow> 'k key_sys" where
  "kgo g p m s \<equiv> s\<lparr>km := m, kat := (kat s)(g := p)\<rparr>"

text \<open>
  An attempt on \<open>ref.mu\<close>: in \<open>Lock\<close> it is repeated until it succeeds (\<open>None\<close>: still blocked).
\<close>

definition attempt_step :: "nat \<Rightarrow> 'k key_sys \<Rightarrow> 'k key_sys option" where
  "attempt_step g s =
     (case kat s g of
        Entered k r \<Rightarrow>
          (case mu_attempt (mu (refs (km s) r)) of
             (w, True) \<Rightarrow> Some (kgo g (Holding k r) (set_mu r w (km s)) s)
           | (w, False) \<Rightarrow> None)
      | Trying k r \<Rightarrow>
          (case mu_attempt (mu (refs (km s) r)) of
             (w, True) \<Rightarrow> Some (kgo g (Holding k r) (set_mu r w (km s)) s)
           | (w, False) \<Rightarrow> Some (kgo g (Failed k r) (km s) s))
      | _ \<Rightarrow> None)"

fun key_step :: "'k key_label \<Rightarrow> 'k key_sys \<Rightarrow> 'k key_sys option" where
  "key_step (CallLock g k) s =
     (case kat s g of KIdle \<Rightarrow> (case enter k (km s) of (r, m) \<Rightarrow> Some (kgo g (Entered k r) m s)) | _ \<Rightarrow> None)"
| "key_step (CallTry g k) s =
     (case kat s g of KIdle \<Rightarrow> (case enter k (km s) of (r, m) \<Rightarrow> Some (kgo g (Trying k r) m s)) | _ \<Rightarrow> None)"
| "key_step (Attempt g) s = attempt_step g s"
| "key_step (Undo g) s =
     (case kat s g of Failed k r \<Rightarrow> Some (kgo g KIdle (leave k r (km s)) s) | _ \<Rightarrow> None)"
| "key_step (CallUnlock g) s =
     (case kat s g of
        Holding k r \<Rightarrow> (case unlock_section k (km s) of
            None \<Rightarrow> Some (kgo g Panic (km s) s)
          | Some (r', m) \<Rightarrow> Some (kgo g (Unlocking r') m s))
      | _ \<Rightarrow> None)"
| "key_step (Release g) s =
     (case kat s g of
        Unlocking r \<Rightarrow> (if mu (refs (km s) r) then Some (kgo g KIdle (set_mu r (mu_unlock True) (km s)) s)
                        else Some (kgo g Fatal (km s) s))
      | _ \<Rightarrow> None)"

text \<open>With \<open>ForceUnlock\<close>, by any goroutine; its \<open>recover\<close> does not catch the fatal error.\<close>

datatype 'k force_label = Regular "'k key_label" | Force nat 'k | ForceRelease nat

fun force_step :: "'k force_label \<Rightarrow> 'k key_sys \<Rightarrow> 'k key_sys option" where
  "force_step (Regular l) s = key_step l s"
| "force_step (Force g k) s =
     (case kat s g of
        KIdle \<Rightarrow> (case force_section k (km s) of
            (None, m) \<Rightarrow> Some (s\<lparr>km := m\<rparr>)
          | (Some r, m) \<Rightarrow> Some (kgo g (Forcing r) m s))
      | _ \<Rightarrow> None)"
| "force_step (ForceRelease g) s =
     (case kat s g of
        Forcing r \<Rightarrow> (if mu (refs (km s) r) then Some (kgo g KIdle (set_mu r (mu_unlock True) (km s)) s)
                      else Some (kgo g Fatal (km s) s))
      | _ \<Rightarrow> None)"

lemmas key_defs = enter_def leave_def unlock_section_def set_mu_def attempt_step_def mu_attempt_def mu_unlock_def
  force_section_def key_start_def newKeyMutex_def

section \<open>The invariant\<close>

fun uses :: "'k key_place \<Rightarrow> ('k \<times> nat) option" where
  "uses (Entered k r) = Some (k, r)"
| "uses (Trying k r) = Some (k, r)"
| "uses (Failed k r) = Some (k, r)"
| "uses (Holding k r) = Some (k, r)"
| "uses _ = None"

fun holds :: "'k key_place \<Rightarrow> nat option" where
  "holds (Holding k r) = Some r"
| "holds (Unlocking r) = Some r"
| "holds _ = None"

text \<open>The number of goroutines that count as users of, or hold the mutex of, a counter.\<close>

definition n_users :: "nat \<Rightarrow> (nat \<Rightarrow> 'k key_place) \<Rightarrow> int" where
  "n_users r f = cnt (\<lambda>p. \<exists>k. uses p = Some (k, r)) f"

definition n_holders :: "nat \<Rightarrow> (nat \<Rightarrow> 'k key_place) \<Rightarrow> int" where
  "n_holders r f = cnt (\<lambda>p. holds p = Some r) f"

definition key_inv :: "'k key_sys \<Rightarrow> bool" where
  "key_inv s \<longleftrightarrow> tracked KIdle (kat s) \<and>
     (\<forall>r. count (refs (km s) r) = n_users r (kat s)) \<and>
     (\<forall>r. n_holders r (kat s) = of_bool (mu (refs (km s) r))) \<and>
     (\<forall>k r. locks (km s) k = Some r \<longrightarrow> r < next_ref (km s)) \<and>
     (\<forall>k r. locks (km s) k = Some r \<longrightarrow> 0 < count (refs (km s) r)) \<and>
     (\<forall>g k r. uses (kat s g) = Some (k, r) \<longrightarrow> locks (km s) k = Some r) \<and>
     (\<forall>k l r. locks (km s) k = Some r \<longrightarrow> locks (km s) l = Some r \<longrightarrow> k = l) \<and>
     (\<forall>r. next_ref (km s) \<le> r \<longrightarrow> refs (km s) r = \<lparr>mu = False, count = 0\<rparr>) \<and>
     (\<forall>g. kat s g \<noteq> Panic \<and> kat s g \<noteq> Fatal \<and> (\<forall>r. kat s g \<noteq> Forcing r))"

lemma key_invD:
  assumes "key_inv s"
  shows "tracked KIdle (kat s)" "count (refs (km s) r) = n_users r (kat s)"
    "n_holders r (kat s) = of_bool (mu (refs (km s) r))"
    "locks (km s) k = Some r \<Longrightarrow> r < next_ref (km s)"
    "locks (km s) k = Some r \<Longrightarrow> 0 < count (refs (km s) r)"
    "uses (kat s g) = Some (k, r) \<Longrightarrow> locks (km s) k = Some r"
    "locks (km s) k = Some r \<Longrightarrow> locks (km s) l = Some r \<Longrightarrow> k = l"
    "next_ref (km s) \<le> r \<Longrightarrow> refs (km s) r = \<lparr>mu = False, count = 0\<rparr>"
    "kat s g \<noteq> Panic" "kat s g \<noteq> Fatal" "kat s g \<noteq> Forcing r"
  using assms unfolding key_inv_def by auto

lemma key_inv_start: "key_inv key_start"
  by (simp add: key_inv_def key_start_def newKeyMutex_def n_users_def n_holders_def)

lemma n_users_nonneg [simp]: "0 \<le> n_users r f"
  by (simp add: n_users_def)

lemma holders_pos: "tracked KIdle f \<Longrightarrow> holds (f g) = Some r \<Longrightarrow> 0 < n_holders r f"
  unfolding n_holders_def by (rule cnt_pos) auto

lemma users_pos: "tracked KIdle f \<Longrightarrow> uses (f g) = Some (k, r) \<Longrightarrow> 0 < n_users r f"
  unfolding n_users_def by (rule cnt_pos) auto

lemma users_upd:
  "tracked KIdle f \<Longrightarrow> n_users r (f(g := p)) =
    n_users r f - of_bool (\<exists>k. uses (f g) = Some (k, r)) + of_bool (\<exists>k. uses p = Some (k, r))"
  unfolding n_users_def by (rule cnt_upd) auto

lemma holders_upd:
  "tracked KIdle f \<Longrightarrow> n_holders r (f(g := p)) = n_holders r f - of_bool (holds (f g) = Some r) + of_bool (holds p = Some r)"
  unfolding n_holders_def by (rule cnt_upd) auto

text \<open>Entering \<open>Lock\<close> or \<open>TryLock\<close>.\<close>

lemma key_inv_enter:
  assumes I: "key_inv s" and "kat s g = KIdle" and "enter k (km s) = (r, m)" and "p = Entered k r \<or> p = Trying k r"
  shows "key_inv (kgo g p m s)"
proof -
  have up: "uses p = Some (k, r)" "holds p = None" using assms(4) by auto
  have other: "p \<noteq> Panic" "p \<noteq> Fatal" "p \<noteq> Forcing q" for q using assms(4) by auto
  note T = key_invD(1) [OF I]
  show ?thesis
  proof (cases "locks (km s) k")
    case (Some r')
    with assms(3) have r: "r' = r" and m: "m = (km s)\<lparr>refs := (refs (km s))(r := (refs (km s) r)\<lparr>count := count (refs (km s) r) + 1\<rparr>)\<rparr>"
      by (auto simp: enter_def)
    have "q \<noteq> r" if "next_ref (km s) \<le> q" for q
      using key_invD(4) [OF I, of k r] Some r that by auto
    with Some r up other assms(2) key_invD [OF I] show ?thesis
      unfolding key_inv_def m
      by (auto simp: users_upd [OF T] holders_upd [OF T])
  next
    case None
    let ?r = "next_ref (km s)"
    from None assms(3) have r: "r = ?r" and m: "m = (km s)\<lparr>locks := (locks (km s))(k \<mapsto> ?r),
        refs := (refs (km s))(?r := \<lparr>mu = False, count = 1\<rparr>), next_ref := Suc ?r\<rparr>"
      by (auto simp: enter_def)
    have new: "count (refs (km s) ?r) = 0" "\<not> mu (refs (km s) ?r)" using key_invD(8) [OF I, of ?r] by auto
    have nr: "n_users ?r (kat s) = 0" "n_holders ?r (kat s) = 0"
      using new key_invD(2,3) [OF I, of ?r] by auto
    have "l = k" if "locks (km s) l = Some ?r" for l
      using key_invD(4) [OF I that] by simp
    with None r up other new nr assms(2) key_invD [OF I] show ?thesis
      unfolding key_inv_def m
      by (auto simp: users_upd [OF T] holders_upd [OF T] intro: less_SucI)
  qed
qed

text \<open>A step that moves a goroutine and changes the mutex of a counter at most.\<close>

lemma key_inv_mutex:
  assumes I: "key_inv s" and "refs m = (refs (km s))(r := (refs (km s) r)\<lparr>mu := b\<rparr>)"
    and "locks m = locks (km s)" "next_ref m = next_ref (km s)" "r < next_ref (km s)"
    and "uses p = uses (kat s g)" and "p \<noteq> Panic" "p \<noteq> Fatal" "\<And>q. p \<noteq> Forcing q"
    and "\<And>q. of_bool (mu (refs (km s) q)) - of_bool (holds (kat s g) = Some q) + of_bool (holds p = Some q) =
      (of_bool (if q = r then b else mu (refs (km s) q)) :: int)"
  shows "key_inv (kgo g p m s)"
proof -
  note T = key_invD(1) [OF I]
  have "n_users q ((kat s)(g := p)) = n_users q (kat s)" for q
    using assms(6) by (simp add: users_upd [OF T])
  moreover have "n_holders q ((kat s)(g := p)) = of_bool (mu (refs m q))" for q
    using assms(2) assms(10) [of q] key_invD(3) [OF I, of q] by (simp add: holders_upd [OF T])
  ultimately show ?thesis
    using key_invD [OF I] assms(2-9) unfolding key_inv_def
    by (auto simp: fun_upd_apply)
qed

text \<open>A user of \<open>k\<close> leaves; what it holds of the mutex stays.\<close>

lemma key_inv_leave:
  assumes I: "key_inv s" and "uses (kat s g) = Some (k, r)" and "uses p = None" and "holds p = holds (kat s g)"
    and "p \<noteq> Panic" "p \<noteq> Fatal" "\<And>q. p \<noteq> Forcing q"
  shows "key_inv (kgo g p (leave k r (km s)) s)"
proof -
  note T = key_invD(1) [OF I]
  let ?c = "count (refs (km s) r) - 1"
  have lk: "locks (km s) k = Some r" using key_invD(6) [OF I assms(2)] .
  then have only: "l = k" if "locks (km s) l = Some r" for l
    using key_invD(7) [OF I that] by simp
  have u: "n_users q ((kat s)(g := p)) = n_users q (kat s) - of_bool (q = r)" for q
    using assms(2,3) by (auto simp: users_upd [OF T])
  have h: "n_holders q ((kat s)(g := p)) = n_holders q (kat s)" for q
    using assms(4) by (simp add: holders_upd [OF T])
  have refs: "refs (leave k r (km s)) = (refs (km s))(r := (refs (km s) r)\<lparr>count := ?c\<rparr>)"
    "next_ref (leave k r (km s)) = next_ref (km s)"
    "locks (leave k r (km s)) = (if ?c = 0 then (locks (km s))(k := None) else locks (km s))"
    by (auto simp: leave_def Let_def)
  have old: "q \<noteq> r" if "next_ref (km s) \<le> q" for q
    using key_invD(4) [OF I lk] that by auto
  have gone: "\<not> (\<exists>k. uses (kat s h) = Some (k, r))" if "?c = 0" "h \<noteq> g" for h
  proof -
    have "n_users r ((kat s)(g := p)) = 0"
      using u [of r] that(1) key_invD(2) [OF I, of r] by simp
    then have "\<not> (\<exists>k. uses (((kat s)(g := p)) h) = Some (k, r))"
      unfolding n_users_def using T by (subst (asm) cnt_zero_iff [where d = KIdle]) auto
    with that(2) show ?thesis by simp
  qed
  have "uses (((kat s)(g := p)) h) = Some (l, q) \<Longrightarrow> locks (leave k r (km s)) l = Some q" for h l q
    using key_invD(6) [OF I, of h l q] gone [of h] assms(3) lk refs(3) by (auto split: if_splits)
  moreover have "locks (leave k r (km s)) l = Some q \<Longrightarrow> 0 < count (refs (leave k r (km s)) q)" for l q
    using key_invD(5) [OF I, of l q] only [of l] refs key_invD(5) [OF I lk] by (auto split: if_splits)
  moreover have "locks (leave k r (km s)) l = Some q \<Longrightarrow> locks (km s) l = Some q" for l q
    using refs(3) by (auto split: if_splits)
  moreover have "locks (leave k r (km s)) l = Some q \<Longrightarrow> q < next_ref (km s)" for l q
    using refs(3) key_invD(4) [OF I, of l q] by (auto split: if_splits)
  ultimately show ?thesis
    using key_invD [OF I] assms(5-7) refs(1,2) u h old unfolding key_inv_def
    by (auto simp: fun_upd_apply)
qed

lemma key_inv_step:
  assumes I: "key_inv s" and "key_step l s = Some t"
  shows "key_inv t"
proof (cases l)
  case (CallLock g k)
  with assms(2) show ?thesis
    by (auto split: key_place.splits prod.splits intro: key_inv_enter [OF I])
next
  case (CallTry g k)
  with assms(2) show ?thesis
    by (auto split: key_place.splits prod.splits intro: key_inv_enter [OF I])
next
  case (Attempt g)
  have room: "r < next_ref (km s)" if "uses (kat s g) = Some (k, r)" for k r
    using key_invD(4) [OF I key_invD(6) [OF I that]] .
  have take: "key_inv (kgo g (Holding k r) (set_mu r True (km s)) s)"
    if "uses (kat s g) = Some (k, r)" "holds (kat s g) = None" "\<not> mu (refs (km s) r)" for k r
    by (rule key_inv_mutex [OF I, where r = r and b = True]) (use that room in \<open>auto simp: set_mu_def\<close>)
  have fail: "key_inv (kgo g (Failed k r) (km s) s)" if "kat s g = Trying k r" for k r
    by (rule key_inv_mutex [OF I, where r = r and b = "mu (refs (km s) r)"]) (use that room in auto)
  from assms(2) Attempt take fail show ?thesis
    by (auto simp: attempt_step_def mu_attempt_def split: key_place.splits bool.splits)
next
  case (Undo g)
  with assms(2) show ?thesis
    by (auto split: key_place.splits intro: key_inv_leave [OF I])
next
  case (CallUnlock g)
  with assms(2) obtain k r where p: "kat s g = Holding k r"
    by (auto split: key_place.splits)
  then have "locks (km s) k = Some r" using key_invD(6) [OF I, of g k r] by simp
  with assms(2) CallUnlock p show ?thesis
    by (auto simp: unlock_section_def intro: key_inv_leave [OF I])
next
  case (Release g)
  with assms(2) obtain r where p: "kat s g = Unlocking r"
    by (auto split: key_place.splits)
  have m: "mu (refs (km s) r)"
    using holders_pos [OF key_invD(1) [OF I], of g r] key_invD(3) [OF I, of r] p by (cases "mu (refs (km s) r)") auto
  then have "r < next_ref (km s)"
    using key_invD(8) [OF I, of r] by (cases "next_ref (km s) \<le> r") auto
  with m have "key_inv (kgo g KIdle (set_mu r False (km s)) s)"
    by (intro key_inv_mutex [OF I, where r = r and b = False]) (use p in \<open>auto simp: set_mu_def\<close>)
  with assms(2) Release p m show ?thesis
    by (simp add: mu_unlock_def)
qed

lemma holder_unique:
  assumes I: "key_inv s" and "kat s g = Holding k r" and "kat s h = Holding k q"
  shows "g = h"
proof -
  have "r = q"
    using key_invD(6) [OF I, of g k r] key_invD(6) [OF I, of h k q] assms(2,3) by simp
  moreover have "n_holders r (kat s) \<le> 1" using key_invD(3) [OF I, of r] by simp
  ultimately show ?thesis
    using cnt_le_one_unique [OF key_invD(1) [OF I], of "\<lambda>p. holds p = Some r" g h] assms(2,3)
    unfolding n_holders_def by simp
qed

interpretation keylock: inductive_invariant "(=) key_start" "labelled key_step" key_inv
  by unfold_locales (auto simp: labelled_def intro: key_inv_start key_inv_step)

abbreviation key_reach :: "'k key_sys \<Rightarrow> bool" where
  "key_reach \<equiv> reach ((=) key_start) (labelled key_step)"

lemma key_reach_run: "run key_step ls key_start = Some s \<Longrightarrow> key_reach s"
  by (rule reach_run) (auto intro: reach_start)

section \<open>Properties\<close>

text \<open>
  Two goroutines never hold the same key, although the key's mutex is removed and remade while
  goroutines come and go, and \<open>Unlock\<close> by the holder of a key never panics and never releases a
  mutex that is not locked.
\<close>

theorem keylock_exclusive:
  assumes "key_reach s" and "kat s g = Holding k r" and "kat s h = Holding k q"
  shows "g = h \<and> kat s i \<noteq> Panic \<and> kat s i \<noteq> Fatal"
  using holder_unique [OF keylock.inv_reachable [OF assms(1)] assms(2,3)]
    key_invD(9,10) [OF keylock.inv_reachable [OF assms(1)]] by simp

definition handover_trace :: "nat key_label list" where
  "handover_trace = [CallLock 0 5, Attempt 0, CallLock 1 5, CallUnlock 0, Release 0, Attempt 1, CallTry 2 5, Attempt 2]"

theorem keylock_exclusive_witness:
  "case run key_step handover_trace key_start of None \<Rightarrow> False
   | Some s \<Rightarrow> kat s 1 = Holding 5 0 \<and> kat s 2 = Failed 5 0 \<and> kat s 2 \<noteq> Holding 5 0"
proof -
  have "\<exists>s. run key_step handover_trace key_start = Some s \<and> kat s 1 = Holding 5 0 \<and> kat s 2 = Failed 5 0"
    by (simp add: handover_trace_def key_defs)
  then obtain s where s: "run key_step handover_trace key_start = Some s" "kat s 1 = Holding 5 0" "kat s 2 = Failed 5 0"
    by blast
  have "kat s 2 \<noteq> Holding 5 0"
    using keylock_exclusive [OF key_reach_run [OF s(1)] s(2), of 2 0] by auto
  with s show ?thesis by simp
qed

text \<open>
  C24 (invariant): No leak: a key is in the map exactly while some goroutine holds it, waits for it or tries to
  take it, and its counter is the number of these goroutines.
\<close>

theorem keylock_no_leak:
  assumes "key_reach s"
  shows "(isLocked k (km s) \<longleftrightarrow> (\<exists>g r. uses (kat s g) = Some (k, r))) \<and>
    (\<forall>r. locks (km s) k = Some r \<longrightarrow> count (refs (km s) r) = int (card {g. uses (kat s g) = Some (k, r)}))"
proof -
  note I = keylock.inv_reachable [OF assms]
  have n: "n_users r (kat s) = int (card {g. uses (kat s g) = Some (k, r)})" if "locks (km s) k = Some r" for r
  proof -
    have "l = k" if "uses (kat s g) = Some (l, r)" for g l
      using key_invD(6) [OF I that] key_invD(7) [OF I \<open>locks (km s) k = Some r\<close>] by simp
    then have "{g. \<exists>l. uses (kat s g) = Some (l, r)} = {g. uses (kat s g) = Some (k, r)}" by blast
    then show ?thesis by (simp add: n_users_def cnt_def)
  qed
  have "\<exists>g r. uses (kat s g) = Some (k, r)" if "locks (km s) k = Some r" for r
  proof (rule ccontr)
    assume "\<not> ?thesis"
    then have "{g. uses (kat s g) = Some (k, r)} = {}" by auto
    with n [OF that] key_invD(2) [OF I, of r] key_invD(5) [OF I that] show False by simp
  qed
  with n key_invD(2,6) [OF I] show ?thesis
    by (auto simp: isLocked_def)
qed

theorem keylock_no_leak_witness:
  "case run key_step (handover_trace @ [Undo 2, CallUnlock 1, Release 1]) key_start of None \<Rightarrow> False
   | Some s \<Rightarrow> \<not> isLocked 5 (km s)"
proof -
  let ?ls = "handover_trace @ [Undo 2, CallUnlock 1, Release 1]"
  have "\<exists>s. run key_step ?ls key_start = Some s \<and> kat s = (\<lambda>_. KIdle)"
    by (simp add: handover_trace_def key_defs fun_eq_iff)
  then obtain s where s: "run key_step ?ls key_start = Some s" "kat s = (\<lambda>_. KIdle)" by blast
  from keylock_no_leak [OF key_reach_run [OF s(1)], of 5] s show ?thesis by simp
qed

definition force_free_trace :: "'k \<Rightarrow> 'k force_label list" where
  "force_free_trace k = [Regular (CallLock 0 k), Force 1 k, ForceRelease 1]"

definition force_held_trace :: "'k \<Rightarrow> 'k force_label list" where
  "force_held_trace k = [Regular (CallLock 0 k), Regular (Attempt 0), Force 1 k, ForceRelease 1,
     Regular (CallLock 2 k), Regular (Attempt 2)]"

text \<open>
  \<open>ForceUnlock\<close> on a key whose mutex is free, because a goroutine is just entering \<open>Lock\<close>, ends in the
  fatal error of \<open>sync.Mutex\<close>, which its \<open>recover\<close> does not catch; and on a held key it lets a second
  goroutine hold the key.
\<close>

theorem keylock_force_unlock:
  "map_option (\<lambda>s. kat s 1) (run force_step (force_free_trace k) key_start) = Some Fatal \<and>
   map_option (\<lambda>s. (kat s 0, kat s 2)) (run force_step (force_held_trace k) key_start) = Some (Holding k 0, Holding k 1)"
  by (simp add: force_free_trace_def force_held_trace_def key_defs)

end
