(* ===== verification/LockSpec.thy ===== *)
theory LockSpec
  imports Spinlock KeyLock
begin

text \<open>
  What a lock promises its clients, as a specification: the state says which key each goroutine holds, and
  a key is taken only while nobody holds it. The spin lock (one key) and the key lock are shown to refine
  it: every execution of the code is, step by step, one of the specification.
\<close>

section \<open>The specification\<close>

inductive lock_spec :: "(nat \<Rightarrow> 'k option) \<Rightarrow> (nat \<Rightarrow> 'k option) \<Rightarrow> bool" where
  spec_take: "h g = None \<Longrightarrow> (\<And>i. h i \<noteq> Some k) \<Longrightarrow> lock_spec h (h(g := Some k))"
| spec_give: "h g = Some k \<Longrightarrow> lock_spec h (h(g := None))"

inductive_cases lock_specE: "lock_spec h h'"

text \<open>The specification is mutual exclusion.\<close>

definition exclusive :: "(nat \<Rightarrow> 'k option) \<Rightarrow> bool" where
  "exclusive h \<longleftrightarrow> (\<forall>g i k. h g = Some k \<longrightarrow> h i = Some k \<longrightarrow> g = i)"

lemma lock_spec_exclusive: "lock_spec h h' \<Longrightarrow> exclusive h \<Longrightarrow> exclusive h'"
proof (induction rule: lock_spec.induct)
  case (spec_take h g k)
  then show ?case by (auto simp: exclusive_def fun_upd_apply)
next
  case (spec_give h g k)
  then show ?case by (auto simp: exclusive_def fun_upd_apply)
qed

interpretation lock_spec: inductive_invariant "(=) (\<lambda>_. None)" lock_spec exclusive
  by unfold_locales (auto simp: exclusive_def [of "\<lambda>_. None"] intro: lock_spec_exclusive)

section \<open>The key lock\<close>

fun key_held :: "'k key_place \<Rightarrow> 'k option" where
  "key_held (Holding k r) = Some k"
| "key_held _ = None"

definition holders :: "'k key_sys \<Rightarrow> nat \<Rightarrow> 'k option" where
  "holders s = (\<lambda>g. key_held (kat s g))"

lemma key_held_iff: "key_held p = Some k \<longleftrightarrow> (\<exists>r. p = Holding k r)"
  by (cases p) auto

lemma holders_kgo [simp]:
  "holders (kgo g p m s) = (holders s)(g := key_held p)"
  "holders (s\<lparr>kat := (kat s)(g := p)\<rparr>) = (holders s)(g := key_held p)"
  by (auto simp: holders_def)

text \<open>A goroutine takes its key only when nobody holds it: the mutex of its counter is free then.\<close>

lemma take_spec:
  assumes I: "key_inv s" and u: "uses (kat s g) = Some (k, r)" and "key_held (kat s g) = None" and f: "\<not> mu (refs (km s) r)"
  shows "lock_spec (holders s) ((holders s)(g := Some k))"
proof (rule spec_take)
  show "holders s g = None" using assms(3) by (simp add: holders_def)
  fix i
  show "holders s i \<noteq> Some k"
  proof
    assume "holders s i = Some k"
    then obtain q where q: "kat s i = Holding k q" by (auto simp: holders_def key_held_iff)
    have "q = r" using key_invD(6) [OF I, of i k q] key_invD(6) [OF I u] q by simp
    then have "0 < n_holders r (kat s)" using holders_pos [OF key_invD(1) [OF I], of i r] q by simp
    then show False using key_invD(3) [OF I, of r] f by simp
  qed
qed

lemma key_step_spec:
  assumes I: "key_inv s" and st: "key_step l s = Some t"
  shows "lock_spec (holders s) (holders t) \<or> holders t = holders s"
proof -
  have same: "(holders s)(g := None) = holders s" if "key_held (kat s g) = None" for g
    using that by (auto simp: holders_def fun_eq_iff)
  show ?thesis
  proof (cases l)
    case (CallLock g k)
    with st same show ?thesis by (auto split: key_place.splits prod.splits)
  next
    case (CallTry g k)
    with st same show ?thesis by (auto split: key_place.splits prod.splits)
  next
    case (Attempt g)
    have take: "lock_spec (holders s) ((holders s)(g := Some k))"
      if "kat s g = Entered k r \<or> kat s g = Trying k r" "\<not> mu (refs (km s) r)" for k r
      by (rule take_spec [OF I]) (use that in auto)
    from st Attempt take same show ?thesis
      by (auto simp: attempt_step_def mu_attempt_def split: key_place.splits bool.splits)
  next
    case (Undo g)
    with st same show ?thesis by (auto split: key_place.splits)
  next
    case (CallUnlock g)
    with st obtain k r where p: "kat s g = Holding k r" by (auto split: key_place.splits)
    then have "holders s g = Some k" by (simp add: holders_def)
    then have "lock_spec (holders s) ((holders s)(g := None))" by (rule spec_give)
    with st CallUnlock p show ?thesis by (auto split: option.splits)
  next
    case (Release g)
    with st same show ?thesis by (auto split: key_place.splits if_splits)
  qed
qed

interpretation keylock_spec: checked_refinement "(=) key_start" "labelled key_step" key_inv holders "(=) (\<lambda>_. None)" lock_spec exclusive
proof
  show "(\<lambda>_. None) = holders s" if "key_start = s" for s :: "'k key_sys"
    using that by (auto simp: holders_def key_start_def)
  show "lock_spec (holders s) (holders t) \<or> holders t = holders s" if "key_inv s" and "labelled key_step s t" for s t :: "'k key_sys"
    using that key_step_spec by (auto simp: labelled_def)
qed

section \<open>The spin lock\<close>

definition inside :: "'s mutex_sys \<Rightarrow> nat \<Rightarrow> unit option" where
  "inside s = (\<lambda>g. if at s g = Inside then Some () else None)"

lemma inside_upd: "inside (s\<lparr>word := w, at := (at s)(g := p)\<rparr>) = (inside s)(g := (if p = Inside then Some () else None))"
  by (auto simp: inside_def)

lemma spin_step_spec:
  assumes "spin.mutex_inv s" and "mutex_step tryLock unlock s t"
  shows "lock_spec (inside s) (inside t) \<or> inside t = inside s"
proof -
  have free: "\<not> (at s i = Inside)" if "tryLock (word s) = (w, True)" for i w
  proof
    assume "at s i = Inside"
    then have "0 < cnt (\<lambda>p. p = Inside) (at s)"
      using assms(1) cnt_pos [of Out "at s" "\<lambda>p. p = Inside" i] by (simp add: spin.mutex_inv_def)
    then have "word s \<noteq> 0" using assms(1) by (auto simp: spin.mutex_inv_def)
    with that show False by simp
  qed
  have take: "lock_spec (inside s) ((inside s)(g := Some ()))" if "tryLock (word s) = (w, True)" for g w
    by (rule spec_take) (use free [OF that] in \<open>auto simp: inside_def\<close>)
  from assms(2) show ?thesis
  proof (cases rule: mutex_step.cases)
    case (mutex_lock g w)
    with take [OF mutex_lock(3)] show ?thesis by (simp add: inside_upd)
  next
    case (mutex_try g w)
    with take [OF mutex_try(3)] show ?thesis by (simp add: inside_upd)
  next
    case (mutex_unlock g)
    then have "lock_spec (inside s) ((inside s)(g := None))" by (intro spec_give [of _ _ "()"]) (simp add: inside_def)
    with mutex_unlock show ?thesis by (simp add: inside_upd)
  qed (auto simp: inside_def fun_eq_iff)
qed

interpretation spin_spec: checked_refinement "(=) (mutex_start 0)" "mutex_step tryLock unlock" spin.mutex_inv inside "(=) (\<lambda>_. None)" lock_spec exclusive
proof
  show "spin.mutex_inv s" if "mutex_start 0 = s" for s using that spin.mutex_inv_start [of 0] by auto
  show "spin.mutex_inv t" if "spin.mutex_inv s" and "mutex_step tryLock unlock s t" for s t using that by (rule spin.mutex_inv_step)
  show "(\<lambda>_. None) = inside s" if "mutex_start 0 = s" for s :: "u32 mutex_sys"
    using that by (auto simp: inside_def mutex_start_def)
  show "lock_spec (inside s) (inside t) \<or> inside t = inside s" if "spin.mutex_inv s" and "mutex_step tryLock unlock s t" for s t
    using that by (rule spin_step_spec)
qed

section \<open>Properties\<close>

text \<open>
  C22 (refinement): the key lock behaves as one independent lock per key: every execution from any reachable state
  is one of the specification, in which a key is taken only while nobody holds it, although the
  mutexes behind the keys come and go.
\<close>

theorem keylock_refines_spec:
  assumes "key_reach s" and "(labelled key_step)\<^sup>*\<^sup>* s t"
  shows "lock_spec\<^sup>*\<^sup>* (holders s) (holders t) \<and> exclusive (holders t)"
  using assms by (rule keylock_spec.implements)

text \<open>The spin lock refines the specification with one key.\<close>

theorem spinlock_refines_spec:
  assumes "(mutex_step tryLock unlock)\<^sup>*\<^sup>* (mutex_start 0) t"
  shows "lock_spec\<^sup>*\<^sup>* (\<lambda>_. None) (inside t) \<and> exclusive (inside t)"
proof -
  have i: "inside (mutex_start (0 :: u32)) = (\<lambda>_. None)" by (auto simp: inside_def mutex_start_def)
  with spin_spec.implements [OF reach_start assms] show ?thesis by simp
qed

theorem keylock_refines_spec_witness:
  "\<exists>s t. run key_step (take 2 handover_trace) key_start = Some s \<and> run key_step (drop 2 handover_trace) s = Some t \<and>
     holders t 1 = Some 5 \<and> lock_spec\<^sup>*\<^sup>* (holders s) (holders t)"
proof -
  have "\<exists>s t. run key_step (take 2 handover_trace) key_start = Some s \<and> run key_step (drop 2 handover_trace) s = Some t \<and>
      holders t 1 = Some 5"
    by (simp add: handover_trace_def key_defs holders_def)
  then obtain s t where s: "run key_step (take 2 handover_trace) key_start = Some s"
    "run key_step (drop 2 handover_trace) s = Some t" "holders t 1 = Some 5" by blast
  from keylock_refines_spec [OF key_reach_run [OF s(1)] run_steps [OF s(2)]] s show ?thesis by blast
qed

theorem spinlock_refines_spec_witness:
  "\<exists>t :: u32 mutex_sys. at t 0 = Inside \<and> lock_spec\<^sup>*\<^sup>* (\<lambda>_. None) (inside t)"
proof -
  let ?t = "(mutex_start 0)\<lparr>word := 1, at := (\<lambda>_. Out)(0 := Inside)\<rparr> :: u32 mutex_sys"
  have "mutex_step tryLock unlock (mutex_start 0) ?t"
    using mutex_try [of "mutex_start 0" 0 tryLock 1 unlock] by (simp add: mutex_start_def)
  then have "(mutex_step tryLock unlock)\<^sup>*\<^sup>* (mutex_start 0) ?t" by (rule r_into_rtranclp)
  from spinlock_refines_spec [OF this] have "at ?t 0 = Inside \<and> lock_spec\<^sup>*\<^sup>* (\<lambda>_. None) (inside ?t)" by simp
  then show ?thesis by blast
qed

end
