(* ===== verification/Bus.thy ===== *)
theory Bus
  imports Prelude
begin

text \<open>
  \<open>bus/bus.go\<close>: publication of events to subscriptions by type. Subscriptions are numbered by their
  \<open>id\<close>, which stands for the pointer as well; the two maps of the bus keep sets of them. Every method
  under \<open>b.mu\<close> is one step (theory BusReaders splits \<open>Publish\<close>); \<open>Unsubscribe\<close> is two, the compare-and-swap on \<open>closed\<close> and the locked part.
\<close>

section \<open>Events and subscriptions\<close>

text \<open>A \<open>reflect.Type\<close>, of which the bus only asks whether it is a pointer, and to what.\<close>

datatype rtype = Named nat | Pointer rtype

record 'p event =
  etype :: rtype
  payload :: 'p

fun resolveType :: "rtype \<Rightarrow> rtype" where
  "resolveType (Pointer t) = t"
| "resolveType (Named n) = Named n"

record 'p subscription =
  types :: "rtype list"
  buf :: "'p event list"
  cap :: nat
  flag :: bool
  shut :: bool

text \<open>\<open>panicked\<close> is set by a send on, or a second close of, a closed channel.\<close>

record 'p bus =
  subs :: "rtype \<rightharpoonup> nat set"
  all :: "nat set"
  nextID :: nat
  closed :: bool
  sub_at :: "nat \<Rightarrow> 'p subscription"
  panicked :: bool

definition newBus :: "'p bus" where
  "newBus = \<lparr>subs = Map.empty, all = {}, nextID = 0, closed = False,
     sub_at = (\<lambda>_. \<lparr>types = [], buf = [], cap = 0, flag = False, shut = False\<rparr>), panicked = False\<rparr>"

section \<open>The methods\<close>

text \<open>The subscriptions to a type; a missing entry is an empty one.\<close>

definition ids_of :: "(rtype \<rightharpoonup> nat set) \<Rightarrow> rtype \<Rightarrow> nat set" where
  "ids_of m t = (case m t of None \<Rightarrow> {} | Some ids \<Rightarrow> ids)"

text \<open>The loop of \<open>Subscribe\<close> over its arguments: \<open>nil\<close> events and repeated types are skipped.\<close>

fun add_types :: "nat \<Rightarrow> 'p event option list \<Rightarrow> rtype list \<Rightarrow> (rtype \<rightharpoonup> nat set) \<Rightarrow> rtype list \<times> (rtype \<rightharpoonup> nat set)" where
  "add_types i [] ts m = (ts, m)"
| "add_types i (None # evs) ts m = add_types i evs ts m"
| "add_types i (Some ev # evs) ts m =
     (let t = resolveType (etype ev) in
      if t \<in> set ts then add_types i evs ts m
      else add_types i evs (ts @ [t]) (m(t \<mapsto> insert i (ids_of m t))))"

definition subscribe :: "'p event option list \<Rightarrow> 'p bus \<Rightarrow> nat \<times> 'p bus" where
  "subscribe evs b =
     (let i = Suc (nextID b);
          sub = \<lparr>types = [], buf = [], cap = 128, flag = False, shut = False\<rparr>;
          b' = b\<lparr>nextID := i\<rparr>
      in if closed b then (i, b'\<lparr>sub_at := (sub_at b)(i := sub\<lparr>flag := True, shut := True\<rparr>)\<rparr>)
         else let (ts, m) = add_types i evs [] (subs b)
              in (i, b'\<lparr>subs := m, sub_at := (sub_at b)(i := sub\<lparr>types := ts\<rparr>)\<rparr>))"

definition subscribeAll :: "'p bus \<Rightarrow> nat \<times> 'p bus" where
  "subscribeAll b =
     (let i = Suc (nextID b);
          sub = \<lparr>types = [], buf = [], cap = 256, flag = False, shut = False\<rparr>;
          b' = b\<lparr>nextID := i\<rparr>
      in if closed b then (i, b'\<lparr>sub_at := (sub_at b)(i := sub\<lparr>flag := True, shut := True\<rparr>)\<rparr>)
         else (i, b'\<lparr>all := insert i (all b), sub_at := (sub_at b)(i := sub)\<rparr>))"

text \<open>\<open>directSend\<close>: the event is dropped when the buffer is full. \<open>None\<close>: a send on a closed channel.\<close>

definition directSend :: "'p event \<Rightarrow> 'p subscription \<Rightarrow> 'p subscription option" where
  "directSend ev sub =
     (if flag sub then Some sub
      else if shut sub then None
      else if length (buf sub) < cap sub then Some (sub\<lparr>buf := buf sub @ [ev]\<rparr>) else Some sub)"

text \<open>The event goes to every subscription of a set; their channels are distinct.\<close>

definition send_each :: "'p event \<Rightarrow> nat set \<Rightarrow> 'p bus \<Rightarrow> 'p bus" where
  "send_each ev ids b = b\<lparr>
     sub_at := (\<lambda>i. if i \<in> ids then (case directSend ev (sub_at b i) of None \<Rightarrow> sub_at b i | Some x \<Rightarrow> x) else sub_at b i),
     panicked := (panicked b \<or> (\<exists>i\<in>ids. directSend ev (sub_at b i) = None))\<rparr>"

definition publish :: "'p event option \<Rightarrow> 'p bus \<Rightarrow> 'p bus" where
  "publish event b =
     (case event of
        None \<Rightarrow> b
      | Some ev \<Rightarrow>
          if closed b then b
          else let b1 = (case subs b (resolveType (etype ev)) of None \<Rightarrow> b | Some ids \<Rightarrow> send_each ev ids b)
               in send_each ev (all b) b1)"

text \<open>\<open>close(ch)\<close> for every subscription of a set, after its flag is set.\<close>

definition shut_each :: "nat set \<Rightarrow> 'p bus \<Rightarrow> 'p bus" where
  "shut_each ids b = b\<lparr>
     sub_at := (\<lambda>i. if i \<in> ids then (sub_at b i)\<lparr>flag := True, shut := True\<rparr> else sub_at b i),
     panicked := (panicked b \<or> (\<exists>i\<in>ids. shut (sub_at b i)))\<rparr>"

definition closeBus :: "'p bus \<Rightarrow> 'p bus" where
  "closeBus b =
     (if closed b then b
      else (shut_each (\<Union> (ran (subs b)) \<union> all b) (b\<lparr>closed := True\<rparr>))\<lparr>subs := Map.empty, all := {}\<rparr>)"

text \<open>\<open>Unsubscribe\<close>: the compare-and-swap, which one caller wins, and \<open>bus.unsubscribe\<close>.\<close>

definition swap_flag :: "nat \<Rightarrow> 'p bus \<Rightarrow> bool \<times> 'p bus" where
  "swap_flag i b =
     (if flag (sub_at b i) then (False, b)
      else (True, b\<lparr>sub_at := (sub_at b)(i := (sub_at b i)\<lparr>flag := True\<rparr>)\<rparr>))"

fun drop_types :: "nat \<Rightarrow> rtype list \<Rightarrow> (rtype \<rightharpoonup> nat set) \<Rightarrow> (rtype \<rightharpoonup> nat set)" where
  "drop_types i [] m = m"
| "drop_types i (t # ts) m =
     drop_types i ts (case m t of None \<Rightarrow> m
       | Some ids \<Rightarrow> if ids - {i} = {} then m(t := None) else m(t \<mapsto> ids - {i}))"

definition unsubscribe :: "nat \<Rightarrow> 'p bus \<Rightarrow> 'p bus" where
  "unsubscribe i b = b\<lparr>subs := drop_types i (types (sub_at b i)) (subs b), all := all b - {i},
     sub_at := (sub_at b)(i := (sub_at b i)\<lparr>shut := True\<rparr>),
     panicked := (panicked b \<or> shut (sub_at b i))\<rparr>"

text \<open>A receive from \<open>C()\<close>: the next event, \<open>None\<close> when the subscriber would block or the channel is closed.\<close>

definition receive :: "nat \<Rightarrow> 'p bus \<Rightarrow> ('p event \<times> 'p bus) option" where
  "receive i b =
     (case buf (sub_at b i) of
        [] \<Rightarrow> None | ev # rest \<Rightarrow> Some (ev, b\<lparr>sub_at := (sub_at b)(i := (sub_at b i)\<lparr>buf := rest\<rparr>)\<rparr>))"

section \<open>Interleaving\<close>

text \<open>\<open>leaving\<close>: the subscriptions whose \<open>Unsubscribe\<close> has won the swap and not yet the lock.\<close>

record 'p bus_sys =
  bus :: "'p bus"
  leaving :: "nat set"

datatype 'p bus_label =
    Subscribe "'p event option list" | SubscribeAll | Publish "'p event option" | Close
  | Swap nat | Unsubscribe nat | Receive nat

fun bus_step :: "'p bus_label \<Rightarrow> 'p bus_sys \<Rightarrow> 'p bus_sys option" where
  "bus_step (Subscribe evs) s = Some (s\<lparr>bus := snd (subscribe evs (bus s))\<rparr>)"
| "bus_step SubscribeAll s = Some (s\<lparr>bus := snd (subscribeAll (bus s))\<rparr>)"
| "bus_step (Publish ev) s = Some (s\<lparr>bus := publish ev (bus s)\<rparr>)"
| "bus_step Close s = Some (s\<lparr>bus := closeBus (bus s)\<rparr>)"
| "bus_step (Swap i) s =
     (if 0 < i \<and> i \<le> nextID (bus s) then
        (case swap_flag i (bus s) of
           (False, b) \<Rightarrow> Some s | (True, b) \<Rightarrow> Some (s\<lparr>bus := b, leaving := insert i (leaving s)\<rparr>))
      else None)"
| "bus_step (Unsubscribe i) s =
     (if i \<in> leaving s then Some (s\<lparr>bus := unsubscribe i (bus s), leaving := leaving s - {i}\<rparr>) else None)"
| "bus_step (Receive i) s = map_option (\<lambda>(ev, b). s\<lparr>bus := b\<rparr>) (receive i (bus s))"

definition bus_start :: "'p bus_sys" where
  "bus_start = \<lparr>bus = newBus, leaving = {}\<rparr>"

abbreviation bus_reach :: "'p bus_sys \<Rightarrow> bool" where
  "bus_reach \<equiv> reach ((=) bus_start) (labelled bus_step)"

lemmas bus_defs = bus_start_def newBus_def subscribe_def subscribeAll_def directSend_def send_each_def publish_def
  shut_each_def closeBus_def swap_flag_def unsubscribe_def receive_def Let_def

lemma bus_reach_run: "run bus_step ls bus_start = Some s \<Longrightarrow> bus_reach s"
  by (rule reach_run) (auto intro: reach_start)

section \<open>Registration\<close>

text \<open>The types of the arguments of \<open>Subscribe\<close>.\<close>

fun types_of :: "'p event option list \<Rightarrow> rtype set" where
  "types_of [] = {}"
| "types_of (None # evs) = types_of evs"
| "types_of (Some ev # evs) = insert (resolveType (etype ev)) (types_of evs)"

lemma ids_of_upd [simp]:
  "ids_of (m(t \<mapsto> x)) u = (if u = t then x else ids_of m u)"
  "ids_of (m(t := None)) u = (if u = t then {} else ids_of m u)"
  "ids_of Map.empty u = {}"
  by (auto simp: ids_of_def)

lemma ran_ids_of: "\<Union> (ran m) = (\<Union>t. ids_of m t)"
proof
  show "\<Union> (ran m) \<subseteq> (\<Union>t. ids_of m t)"
  proof
    fix x
    assume "x \<in> \<Union> (ran m)"
    then obtain t ids where "m t = Some ids" "x \<in> ids" by (auto simp: ran_def)
    then have "x \<in> ids_of m t" by (simp add: ids_of_def)
    then show "x \<in> (\<Union>t. ids_of m t)" by blast
  qed
  show "(\<Union>t. ids_of m t) \<subseteq> \<Union> (ran m)"
    by (fastforce simp: ids_of_def ran_def split: option.splits)
qed

lemma add_types_set: "add_types i evs ts m = (us, m') \<Longrightarrow> set us = set ts \<union> types_of evs"
proof (induction i evs ts m arbitrary: us m' rule: add_types.induct)
  case (3 i ev evs ts m)
  let ?t = "resolveType (etype ev)"
  show ?case
  proof (cases "?t \<in> set ts")
    case True
    then have "add_types i evs ts m = (us, m')" using 3(3) by (simp add: Let_def)
    from 3(1) [OF refl True this] True show ?thesis by auto
  next
    case False
    then have "add_types i evs (ts @ [?t]) (m(?t \<mapsto> insert i (ids_of m ?t))) = (us, m')"
      using 3(3) by (simp add: Let_def)
    from 3(2) [OF refl False this] show ?thesis by auto
  qed
qed simp_all

lemma add_types_ids:
  "add_types i evs ts m = (us, m') \<Longrightarrow> ids_of m' t = ids_of m t \<union> (if t \<in> set us - set ts then {i} else {})"
proof (induction i evs ts m arbitrary: us m' rule: add_types.induct)
  case (3 i ev evs ts m)
  let ?t = "resolveType (etype ev)"
  show ?case
  proof (cases "?t \<in> set ts")
    case True
    with 3 show ?thesis by (simp add: Let_def)
  next
    case False
    have "add_types i evs (ts @ [?t]) (m(?t \<mapsto> insert i (ids_of m ?t))) = (us, m')"
      using 3(3) False by (simp add: Let_def)
    from 3(2) [OF refl False this] add_types_set [OF this] False show ?thesis
      by (simp only: ids_of_upd set_append) auto
  qed
qed simp_all

lemma drop_types_ids: "ids_of (drop_types i ts m) t = ids_of m t - (if t \<in> set ts then {i} else {})"
proof (induction ts arbitrary: m)
  case (Cons u ts)
  have "ids_of (case m u of None \<Rightarrow> m | Some ids \<Rightarrow> if ids - {i} = {} then m(u := None) else m(u \<mapsto> ids - {i})) t =
      ids_of m t - (if t = u then {i} else {})"
    by (auto simp: ids_of_def split: option.splits)
  with Cons show ?case by auto
qed simp

section \<open>The invariant\<close>

definition live :: "'p bus \<Rightarrow> nat \<Rightarrow> bool" where
  "live b i \<longleftrightarrow> 0 < i \<and> i \<le> nextID b"

text \<open>The types under which a subscription is registered.\<close>

definition reg :: "'p bus \<Rightarrow> nat \<Rightarrow> rtype set" where
  "reg b i = {t. i \<in> ids_of (subs b) t}"

text \<open>
  What holds of one subscription: registered under \<open>r\<close>, among all (\<open>a\<close>), leaving (\<open>l\<close>), made (\<open>v\<close>), on a
  closed bus (\<open>c\<close>).
\<close>

definition sub_ok :: "rtype set \<Rightarrow> bool \<Rightarrow> bool \<Rightarrow> bool \<Rightarrow> bool \<Rightarrow> 'p subscription \<Rightarrow> bool" where
  "sub_ok r a l v c sub \<longleftrightarrow> (r \<noteq> {} \<or> a \<longrightarrow> v \<and> \<not> shut sub) \<and> r \<subseteq> set (types sub) \<and> (a \<longrightarrow> types sub = []) \<and>
     (l \<longrightarrow> v \<and> flag sub \<and> (\<not> c \<longrightarrow> \<not> shut sub)) \<and> (v \<and> \<not> flag sub \<longrightarrow> \<not> shut sub \<and> (\<not> c \<longrightarrow> r = set (types sub)))"

definition sub_inv :: "'p bus \<Rightarrow> nat set \<Rightarrow> nat \<Rightarrow> bool" where
  "sub_inv b ls i \<longleftrightarrow> sub_ok (reg b i) (i \<in> all b) (i \<in> ls) (live b i) (closed b) (sub_at b i)"

definition bus_inv :: "'p bus_sys \<Rightarrow> bool" where
  "bus_inv s \<longleftrightarrow> (\<forall>i. sub_inv (bus s) (leaving s) i) \<and> (\<not> closed (bus s) \<longrightarrow> \<not> panicked (bus s)) \<and>
     (closed (bus s) \<longrightarrow> subs (bus s) = Map.empty \<and> all (bus s) = {})"

lemma bus_invD:
  assumes "bus_inv s"
  shows "sub_inv (bus s) (leaving s) i" "\<not> closed (bus s) \<Longrightarrow> \<not> panicked (bus s)"
    "closed (bus s) \<Longrightarrow> subs (bus s) = Map.empty" "closed (bus s) \<Longrightarrow> all (bus s) = {}"
  using assms unfolding bus_inv_def by auto

lemma sub_invD:
  assumes "sub_inv b ls i"
  shows "i \<in> ids_of (subs b) t \<Longrightarrow> live b i" "i \<in> ids_of (subs b) t \<Longrightarrow> t \<in> set (types (sub_at b i))"
    "i \<in> ids_of (subs b) t \<Longrightarrow> \<not> shut (sub_at b i)"
    "i \<in> all b \<Longrightarrow> live b i" "i \<in> all b \<Longrightarrow> types (sub_at b i) = []" "i \<in> all b \<Longrightarrow> \<not> shut (sub_at b i)"
    "i \<in> ls \<Longrightarrow> live b i" "i \<in> ls \<Longrightarrow> flag (sub_at b i)" "i \<in> ls \<Longrightarrow> \<not> closed b \<Longrightarrow> \<not> shut (sub_at b i)"
    "live b i \<Longrightarrow> \<not> flag (sub_at b i) \<Longrightarrow> \<not> closed b \<Longrightarrow> i \<in> ids_of (subs b) t \<longleftrightarrow> t \<in> set (types (sub_at b i))"
  using assms unfolding sub_inv_def sub_ok_def reg_def by blast+

text \<open>Only the buffers change.\<close>

lemma sub_inv_buf:
  assumes "sub_inv b ls i" and "subs b' = subs b" "all b' = all b" "closed b' = closed b" "nextID b' = nextID b"
    and "types (sub_at b' i) = types (sub_at b i)" "flag (sub_at b' i) = flag (sub_at b i)" "shut (sub_at b' i) = shut (sub_at b i)"
  shows "sub_inv b' ls i"
  using assms unfolding sub_inv_def live_def reg_def sub_ok_def by simp

lemma directSend_fields:
  "directSend ev sub = Some x \<Longrightarrow> types x = types sub \<and> flag x = flag sub \<and> shut x = shut sub \<and> cap x = cap sub"
  by (auto simp: directSend_def split: if_splits)

lemma send_each_fields [simp]:
  "subs (send_each ev ids b) = subs b" "all (send_each ev ids b) = all b" "closed (send_each ev ids b) = closed b"
  "nextID (send_each ev ids b) = nextID b" "types (sub_at (send_each ev ids b) i) = types (sub_at b i)"
  "flag (sub_at (send_each ev ids b) i) = flag (sub_at b i)" "shut (sub_at (send_each ev ids b) i) = shut (sub_at b i)"
  by (auto simp: send_each_def dest: directSend_fields split: option.splits)

lemma send_each_open:
  assumes "\<forall>i\<in>ids. \<not> shut (sub_at b i)"
  shows "panicked (send_each ev ids b) = panicked b"
    "sub_at (send_each ev ids b) i = (if i \<in> ids \<and> \<not> flag (sub_at b i) \<and> length (buf (sub_at b i)) < cap (sub_at b i)
       then (sub_at b i)\<lparr>buf := buf (sub_at b i) @ [ev]\<rparr> else sub_at b i)"
  using assms by (auto simp: send_each_def directSend_def)

lemma publish_open:
  assumes "\<not> closed b"
  shows "publish (Some ev) b = send_each ev (all b) (send_each ev (ids_of (subs b) (resolveType (etype ev))) b)"
proof -
  have "send_each ev {} b = b" by (simp add: send_each_def)
  with assms show ?thesis
    by (simp add: publish_def Let_def ids_of_def split: option.splits)
qed

lemma bus_inv_publish:
  assumes I: "bus_inv s"
  shows "bus_inv (s\<lparr>bus := publish ev (bus s)\<rparr>)"
proof (cases ev)
  case None
  with I show ?thesis by (simp add: publish_def)
next
  case (Some e)
  show ?thesis
  proof (cases "closed (bus s)")
    case True
    with Some I show ?thesis by (simp add: publish_def)
  next
    case False
    let ?ids = "ids_of (subs (bus s)) (resolveType (etype e))"
    have o: "\<forall>i\<in>?ids. \<not> shut (sub_at (bus s) i)" "\<forall>i\<in>all (bus s). \<not> shut (sub_at (bus s) i)"
      using sub_invD(3,6) [OF bus_invD(1) [OF I]] by blast+
    have "panicked (publish ev (bus s)) = panicked (bus s)"
      using o by (simp add: Some publish_open [OF False] send_each_open)
    moreover have "sub_inv (publish ev (bus s)) (leaving s) i" for i
      by (rule sub_inv_buf [OF bus_invD(1) [OF I]]) (simp_all add: Some publish_open [OF False])
    ultimately show ?thesis
      using I False by (simp add: bus_inv_def Some publish_open)
  qed
qed

text \<open>A new subscription.\<close>

lemma fresh_id:
  assumes "bus_inv s"
  shows "reg (bus s) (Suc (nextID (bus s))) = {}" "Suc (nextID (bus s)) \<notin> all (bus s)" "Suc (nextID (bus s)) \<notin> leaving s"
  using sub_invD(1,4,7) [OF bus_invD(1) [OF assms, of "Suc (nextID (bus s))"]] by (auto simp: live_def reg_def)

lemma bus_inv_new:
  assumes I: "bus_inv s" and "i = Suc (nextID (bus s))" and "nextID b = i" and "closed b = closed (bus s)"
    and "panicked b = panicked (bus s)" and "\<And>j. j \<noteq> i \<Longrightarrow> reg b j = reg (bus s) j" "\<And>j. j \<noteq> i \<Longrightarrow> j \<in> all b \<longleftrightarrow> j \<in> all (bus s)"
    and "\<And>j. j \<noteq> i \<Longrightarrow> sub_at b j = sub_at (bus s) j"
    and "closed (bus s) \<Longrightarrow> subs b = subs (bus s) \<and> all b = all (bus s)"
    and "sub_ok (reg b i) (i \<in> all b) False True (closed b) (sub_at b i)"
  shows "bus_inv (s\<lparr>bus := b\<rparr>)"
proof -
  have "sub_inv b (leaving s) j" for j
  proof (cases "j = i")
    case True
    with assms(2,3,10) fresh_id(3) [OF I] show ?thesis by (simp add: sub_inv_def live_def)
  next
    case False
    then have "live b j \<longleftrightarrow> live (bus s) j" using assms(2,3) by (auto simp: live_def)
    with False bus_invD(1) [OF I, of j] assms(4,6-8) show ?thesis by (simp add: sub_inv_def)
  qed
  with bus_invD(2-4) [OF I] assms(4,5,9) show ?thesis by (auto simp: bus_inv_def)
qed

lemma bus_inv_subscribe:
  assumes I: "bus_inv s" and "subscribe evs (bus s) = (i, b)"
  shows "bus_inv (s\<lparr>bus := b\<rparr>)"
proof -
  let ?b = "bus s" and ?i = "Suc (nextID (bus s))"
  obtain ts m where a: "add_types ?i evs [] (subs ?b) = (ts, m)" by fastforce
  note new = fresh_id [OF I]
  have ids: "j \<in> ids_of m t \<longleftrightarrow> j \<in> ids_of (subs ?b) t \<or> j = ?i \<and> t \<in> set ts" for j t
    using add_types_ids [OF a, of t] by auto
  have r: "{t. j \<in> ids_of m t} = (if j = ?i then set ts else reg ?b j)" for j
    using new(1) by (auto simp: ids reg_def)
  have "b = (if closed ?b then ?b\<lparr>nextID := ?i, sub_at := (sub_at ?b)(?i := \<lparr>types = [], buf = [], cap = 128, flag = True, shut = True\<rparr>)\<rparr>
      else ?b\<lparr>nextID := ?i, subs := m, sub_at := (sub_at ?b)(?i := \<lparr>types = ts, buf = [], cap = 128, flag = False, shut = False\<rparr>)\<rparr>)"
    using assms(2) a by (auto simp: subscribe_def Let_def split: if_splits)
  with new r show ?thesis
    by (intro bus_inv_new [OF I refl]) (auto simp: reg_def sub_ok_def split: if_splits)
qed

lemma bus_inv_subscribeAll:
  assumes I: "bus_inv s" and "subscribeAll (bus s) = (i, b)"
  shows "bus_inv (s\<lparr>bus := b\<rparr>)"
proof -
  let ?b = "bus s" and ?i = "Suc (nextID (bus s))"
  note new = fresh_id [OF I]
  have "b = (if closed ?b then ?b\<lparr>nextID := ?i, sub_at := (sub_at ?b)(?i := \<lparr>types = [], buf = [], cap = 256, flag = True, shut = True\<rparr>)\<rparr>
      else ?b\<lparr>nextID := ?i, all := insert ?i (all ?b), sub_at := (sub_at ?b)(?i := \<lparr>types = [], buf = [], cap = 256, flag = False, shut = False\<rparr>)\<rparr>)"
    using assms(2) by (auto simp: subscribeAll_def Let_def split: if_splits)
  with new show ?thesis
    by (intro bus_inv_new [OF I refl]) (auto simp: reg_def sub_ok_def split: if_splits)
qed

lemma bus_inv_close:
  assumes I: "bus_inv s"
  shows "bus_inv (s\<lparr>bus := closeBus (bus s)\<rparr>)"
proof (cases "closed (bus s)")
  case True
  with I show ?thesis by (simp add: closeBus_def)
next
  case False
  let ?b = "bus s"
  have f: "closeBus ?b = (shut_each (\<Union> (ran (subs ?b)) \<union> all ?b) (?b\<lparr>closed := True\<rparr>))\<lparr>subs := Map.empty, all := {}\<rparr>"
    using False by (simp add: closeBus_def)
  have "sub_inv (closeBus ?b) (leaving s) i" for i
  proof -
    have "sub_ok (reg ?b i) (i \<in> all ?b) (i \<in> leaving s) (live ?b i) (closed ?b) (sub_at ?b i)"
      using bus_invD(1) [OF I, of i] by (simp add: sub_inv_def)
    then have "sub_ok {} False (i \<in> leaving s) (live ?b i) True (sub_at (closeBus ?b) i)"
      unfolding f by (auto simp: sub_ok_def shut_each_def)
    then show ?thesis
      unfolding sub_inv_def f by (simp add: reg_def live_def shut_each_def)
  qed
  moreover have "closed (closeBus ?b)" "subs (closeBus ?b) = Map.empty" "all (closeBus ?b) = {}"
    by (simp_all add: f shut_each_def)
  ultimately show ?thesis
    by (simp add: bus_inv_def)
qed

text \<open>A step that changes one existing subscription and perhaps its registration.\<close>

lemma bus_inv_one:
  assumes I: "bus_inv s" and "nextID b = nextID (bus s)" and "closed b = closed (bus s)"
    and "\<not> closed (bus s) \<Longrightarrow> panicked b = panicked (bus s)"
    and "\<And>j. j \<noteq> i \<Longrightarrow> reg b j = reg (bus s) j" "\<And>j. j \<noteq> i \<Longrightarrow> j \<in> all b \<longleftrightarrow> j \<in> all (bus s)"
    and "\<And>j. j \<noteq> i \<Longrightarrow> sub_at b j = sub_at (bus s) j" "\<And>j. j \<noteq> i \<Longrightarrow> j \<in> ls \<longleftrightarrow> j \<in> leaving s"
    and "closed (bus s) \<Longrightarrow> subs b = Map.empty \<and> all b = {}"
    and "sub_ok (reg b i) (i \<in> all b) (i \<in> ls) (live (bus s) i) (closed b) (sub_at b i)"
  shows "bus_inv (s\<lparr>bus := b, leaving := ls\<rparr>)"
proof -
  have l: "live b j \<longleftrightarrow> live (bus s) j" for j using assms(2) by (simp add: live_def)
  have "sub_inv b ls j" for j
    using assms(3,5-8,10) bus_invD(1) [OF I, of j] by (cases "j = i") (simp_all add: sub_inv_def l)
  with bus_invD(2-4) [OF I] assms(3,4,9) show ?thesis by (auto simp: bus_inv_def)
qed

lemma bus_inv_swap:
  assumes I: "bus_inv s" and "live (bus s) i" and "\<not> flag (sub_at (bus s) i)"
  shows "bus_inv (s\<lparr>bus := (bus s)\<lparr>sub_at := (sub_at (bus s))(i := (sub_at (bus s) i)\<lparr>flag := True\<rparr>)\<rparr>,
    leaving := insert i (leaving s)\<rparr>)"
proof -
  have "sub_ok (reg (bus s) i) (i \<in> all (bus s)) (i \<in> leaving s) True (closed (bus s)) (sub_at (bus s) i)"
    using bus_invD(1) [OF I, of i] assms(2) by (simp add: sub_inv_def)
  then have "sub_ok (reg (bus s) i) (i \<in> all (bus s)) True True (closed (bus s)) ((sub_at (bus s) i)\<lparr>flag := True\<rparr>)"
    using assms(3) by (auto simp: sub_ok_def)
  then show ?thesis
    by (intro bus_inv_one [OF I, where i = i]) (use assms(2) bus_invD(3,4) [OF I] in \<open>auto simp: reg_def\<close>)
qed

lemma bus_inv_unsubscribe:
  assumes I: "bus_inv s" and "i \<in> leaving s"
  shows "bus_inv (s\<lparr>bus := unsubscribe i (bus s), leaving := leaving s - {i}\<rparr>)"
proof -
  let ?b = "unsubscribe i (bus s)"
  have S: "sub_ok (reg (bus s) i) (i \<in> all (bus s)) True (live (bus s) i) (closed (bus s)) (sub_at (bus s) i)"
    using bus_invD(1) [OF I, of i] assms(2) by (simp add: sub_inv_def)
  have empty: "drop_types i ts Map.empty = Map.empty" for ts by (induction ts) auto
  have "reg (bus s) i \<subseteq> set (types (sub_at (bus s) i))"
    using S by (simp add: sub_ok_def)
  then have r: "reg ?b j = (if j = i then {} else reg (bus s) j)" for j
    by (auto simp: reg_def unsubscribe_def drop_types_ids)
  have "sub_ok {} False False (live (bus s) i) (closed (bus s)) ((sub_at (bus s) i)\<lparr>shut := True\<rparr>)"
    using S by (auto simp: sub_ok_def)
  moreover have "panicked ?b = panicked (bus s)" if "\<not> closed (bus s)"
    using S that by (simp add: sub_ok_def unsubscribe_def)
  ultimately show ?thesis
    by (intro bus_inv_one [OF I, where i = i])
      (use r bus_invD(3,4) [OF I] in \<open>auto simp: unsubscribe_def empty\<close>)
qed

lemma bus_inv_step:
  assumes I: "bus_inv s" and "bus_step l s = Some t"
  shows "bus_inv t"
proof (cases l)
  case (Subscribe evs)
  with assms bus_inv_subscribe [OF I, of evs] show ?thesis by (cases "subscribe evs (bus s)") auto
next
  case SubscribeAll
  with assms bus_inv_subscribeAll [OF I] show ?thesis by (cases "subscribeAll (bus s)") auto
next
  case (Publish ev)
  with assms bus_inv_publish [OF I, of ev] show ?thesis by auto
next
  case Close
  with assms bus_inv_close [OF I] show ?thesis by simp
next
  case (Swap i)
  with assms bus_inv_swap [OF I, of i] show ?thesis
    by (auto simp: swap_flag_def live_def split: if_splits)
next
  case (Unsubscribe i)
  with assms bus_inv_unsubscribe [OF I] show ?thesis by (auto split: if_splits)
next
  case (Receive i)
  then obtain b where t: "t = s\<lparr>bus := b\<rparr>" and "\<exists>ev. receive i (bus s) = Some (ev, b)"
    using assms(2) by auto
  then obtain ev rest where b: "b = (bus s)\<lparr>sub_at := (sub_at (bus s))(i := (sub_at (bus s) i)\<lparr>buf := rest\<rparr>)\<rparr>"
    by (auto simp: receive_def split: list.splits)
  have "sub_inv b (leaving s) j" for j
    by (rule sub_inv_buf [OF bus_invD(1) [OF I]]) (simp_all add: b)
  with bus_invD(2-4) [OF I] show ?thesis
    unfolding t by (auto simp: bus_inv_def b)
qed

lemma bus_inv_start: "bus_inv bus_start"
  by (simp add: bus_inv_def bus_start_def newBus_def sub_inv_def sub_ok_def reg_def live_def)

interpretation bus_sys: inductive_invariant "(=) bus_start" "labelled bus_step" bus_inv
  by unfold_locales (auto simp: labelled_def intro: bus_inv_start bus_inv_step)

section \<open>Properties\<close>

text \<open>
  C8 (functional): on an open bus, \<open>Publish\<close> appends the event to the channel of exactly the subscriptions
  that have not begun to unsubscribe, that listen to everything or to the event's type, and whose
  buffer is not full; the others are unchanged, and nothing blocks or panics.
\<close>

theorem bus_delivery:
  assumes "bus_reach s" and "\<not> closed (bus s)" and "0 < i" and "i \<le> nextID (bus s)"
    and "sub = sub_at (bus s) i"
  shows "\<not> panicked (publish (Some ev) (bus s)) \<and>
    sub_at (publish (Some ev) (bus s)) i =
      (if \<not> flag sub \<and> (i \<in> all (bus s) \<or> resolveType (etype ev) \<in> set (types sub)) \<and> length (buf sub) < cap sub
       then sub\<lparr>buf := buf sub @ [ev]\<rparr> else sub)"
proof -
  note I = bus_sys.inv_reachable [OF assms(1)]
  have S: "sub_inv (bus s) (leaving s) j" for j by (rule bus_invD(1) [OF I])
  let ?ids = "ids_of (subs (bus s)) (resolveType (etype ev))"
  have o: "\<forall>j\<in>?ids. \<not> shut (sub_at (bus s) j)" "\<forall>j\<in>all (bus s). \<not> shut (sub_at (bus s) j)"
    using sub_invD(3,6) [OF S] by blast+
  have mem: "\<not> flag sub \<Longrightarrow> i \<in> ?ids \<longleftrightarrow> resolveType (etype ev) \<in> set (types sub)"
    using sub_invD(10) [OF S, of i] assms(2-5) by (simp add: live_def)
  have not_both: "i \<in> all (bus s) \<Longrightarrow> i \<notin> ?ids"
    using sub_invD(2,5) [OF S, of i] by auto
  have "\<not> panicked (publish (Some ev) (bus s))"
    using o bus_invD(2) [OF I assms(2)] by (simp add: publish_open [OF assms(2)] send_each_open)
  with o mem not_both assms(5) show ?thesis
    by (auto simp: publish_open [OF assms(2)] send_each_open)
qed

definition pub_trace :: "nat bus_label list" where
  "pub_trace = [Subscribe [Some \<lparr>etype = Named 1, payload = 0\<rparr>, None], SubscribeAll,
     Subscribe [Some \<lparr>etype = Pointer (Named 2), payload = 0\<rparr>]]"

theorem bus_delivery_witness:
  "case run bus_step pub_trace bus_start of None \<Rightarrow> False
   | Some s \<Rightarrow> map (\<lambda>i. length (buf (sub_at (publish (Some \<lparr>etype = Pointer (Named 1), payload = 9\<rparr>) (bus s)) i))) [1, 2, 3]
      = [1, 1, 0]"
proof -
  let ?ev = "\<lparr>etype = Pointer (Named 1), payload = (9::nat)\<rparr>"
  have "\<exists>s. run bus_step pub_trace bus_start = Some s \<and> \<not> closed (bus s) \<and> nextID (bus s) = 3 \<and> all (bus s) = {2} \<and>
      map (\<lambda>i. (types (sub_at (bus s) i), buf (sub_at (bus s) i), flag (sub_at (bus s) i))) [1, 2, 3] =
        [([Named 1], [], False), ([], [], False), ([Named 2], [], False)] \<and>
      cap (sub_at (bus s) 1) = 128 \<and> cap (sub_at (bus s) 2) = 256"
    by (simp add: pub_trace_def bus_defs ids_of_def numeral_eq_Suc)
  then obtain s where s: "run bus_step pub_trace bus_start = Some s" "\<not> closed (bus s)" "nextID (bus s) = 3" "all (bus s) = {2}"
      "map (\<lambda>i. (types (sub_at (bus s) i), buf (sub_at (bus s) i), flag (sub_at (bus s) i))) [1, 2, 3] =
        [([Named 1], [], False), ([], [], False), ([Named 2], [], False)]"
      "cap (sub_at (bus s) 1) = 128" "cap (sub_at (bus s) 2) = 256" by (elim exE conjE) (rule that)
  from bus_delivery [OF bus_reach_run [OF s(1)] s(2) _ _ refl, of 1 ?ev]
    bus_delivery [OF bus_reach_run [OF s(1)] s(2) _ _ refl, of 2 ?ev]
    bus_delivery [OF bus_reach_run [OF s(1)] s(2) _ _ refl, of 3 ?ev] s
  show ?thesis by simp
qed

text \<open>
  As long as the bus has not been closed, no interleaving of publishers, subscribers and
  \<open>Unsubscribe\<close> sends on a closed channel or closes a channel twice; once it is closed, no
  subscription is registered any more.
\<close>

theorem bus_no_panic:
  assumes "bus_reach s"
  shows "(\<not> closed (bus s) \<longrightarrow> \<not> panicked (bus s)) \<and> (closed (bus s) \<longrightarrow> subs (bus s) = Map.empty \<and> all (bus s) = {})"
  using bus_sys.inv_reachable [OF assms] by (simp add: bus_inv_def)

theorem bus_no_panic_witness:
  "case run bus_step (pub_trace @ [Swap 1, Publish None, Unsubscribe 1]) bus_start of None \<Rightarrow> False
   | Some s \<Rightarrow> shut (sub_at (bus s) 1) \<and> \<not> panicked (bus s)"
proof -
  let ?ls = "pub_trace @ [Swap 1, Publish None, Unsubscribe 1]"
  have "\<exists>s. run bus_step ?ls bus_start = Some s \<and> \<not> closed (bus s) \<and> shut (sub_at (bus s) 1)"
    by (simp add: pub_trace_def bus_defs ids_of_def)
  then obtain s where s: "run bus_step ?ls bus_start = Some s" "\<not> closed (bus s)" "shut (sub_at (bus s) 1)" by blast
  from bus_no_panic [OF bus_reach_run [OF s(1)]] s show ?thesis by simp
qed

text \<open>
  \<open>Close\<close> between the two halves of \<open>Unsubscribe\<close> closes the channel first, and the second half
  closes it again: a panic. And a subscription that was made without event types is not registered
  anywhere, so \<open>Close\<close> never closes its channel.
\<close>

theorem bus_close_race:
  "map_option (\<lambda>s. panicked (bus s)) (run bus_step [SubscribeAll, Swap 1, Close, Unsubscribe 1] bus_start) = Some True \<and>
   map_option (\<lambda>s. shut (sub_at (bus s) 1)) (run bus_step [Subscribe [], Close] bus_start) = Some False"
  by (simp add: bus_defs)

end
