(* ===== verification/BusReaders.thy ===== *)
theory BusReaders
  imports Bus
begin

text \<open>
  \<open>Publish\<close> holds \<open>b.mu\<close> only for reading, so several publications run at a time and a subscriber may receive, or begin to
  unsubscribe, in the middle of one. Here a publication is a step for the read lock, two for each
  subscription, the load of its flag and the send to its channel, in any order of the maps, and one for the unlock;
  \<open>readers\<close> is the number of read locks, and a method that writes waits until there is none. Lemmas: each
  publication is offered exactly once to each subscription that matches; what a subscriber gets is what its channel
  accepted, in that order; nothing panics before \<open>Close\<close>; two publications may reach two subscribers in
  different orders.
\<close>

section \<open>The system\<close>

text \<open>
  \<open>Sending n ev A B\<close>: publication \<open>n\<close> has still to do the subscriptions to the type (\<open>A\<close>), then those to all events
  (\<open>B\<close>). \<open>Loaded n ev i A B\<close>: it has found the flag of \<open>i\<close> unset. Histories: the publications with the
  subscriptions that matched; for each subscription, what was offered to its channel, by which publication and
  whether it was accepted, and what was received from it.
\<close>

datatype 'p pub_place =
    NotPublishing | Sending nat "'p event" "nat set" "nat set" | Loaded nat "'p event" nat "nat set" "nat set"

type_synonym 'p offers = "nat \<Rightarrow> (nat \<times> 'p event \<times> bool) list"

record 'p pub_sys =
  core :: "'p bus_sys"
  readers :: nat
  pubs :: "nat \<Rightarrow> 'p pub_place"
  issued :: "('p event \<times> nat set) list"
  offered :: "'p offers"
  received :: "nat \<Rightarrow> 'p event list"

definition pub_start :: "'p pub_sys" where
  "pub_start = \<lparr>core = bus_start, readers = 0, pubs = (\<lambda>_. NotPublishing), issued = [], offered = (\<lambda>_. []), received = (\<lambda>_. [])\<rparr>"

datatype 'p pub_label =
    Write "'p bus_label" | Other "'p bus_label" | PBegin nat "'p event option" | PLoad nat nat | PSend nat | PEnd nat

text \<open>The subscriptions an event goes to.\<close>

definition matching :: "'p event \<Rightarrow> 'p bus \<Rightarrow> nat set" where
  "matching ev b = ids_of (subs b) (resolveType (etype ev)) \<union> all b"

text \<open>The beginning of \<open>Publish\<close>: \<open>nil\<close>, the read lock, a closed bus.\<close>

definition begin_publish :: "nat \<Rightarrow> 'p event option \<Rightarrow> 'p pub_sys \<Rightarrow> 'p pub_sys option" where
  "begin_publish g event s =
     (if pubs s g \<noteq> NotPublishing then None
      else case event of
          None \<Rightarrow> Some s
        | Some ev \<Rightarrow>
            if closed (bus (core s)) then Some s
            else Some (s\<lparr>readers := Suc (readers s), issued := issued s @ [(ev, matching ev (bus (core s)))],
              pubs := (pubs s)(g := Sending (length (issued s)) ev
                (ids_of (subs (bus (core s))) (resolveType (etype ev))) (all (bus (core s))))\<rparr>))"

text \<open>The loops take the next subscription, of the first map while it has one, and \<open>directSend\<close> loads its flag.\<close>

definition load_one :: "nat \<Rightarrow> nat \<Rightarrow> 'p pub_sys \<Rightarrow> 'p pub_sys option" where
  "load_one g i s =
     (case pubs s g of
        Sending n ev A B \<Rightarrow>
          if i \<in> A \<or> A = {} \<and> i \<in> B then
            let A' = A - {i}; B' = (if i \<in> A then B else B - {i}) in
            if flag (sub_at (bus (core s)) i) then
              Some (s\<lparr>pubs := (pubs s)(g := Sending n ev A' B'), offered := (offered s)(i := offered s i @ [(n, ev, False)])\<rparr>)
            else Some (s\<lparr>pubs := (pubs s)(g := Loaded n ev i A' B')\<rparr>)
          else None
      | _ \<Rightarrow> None)"

text \<open>The \<open>select\<close> of \<open>directSend\<close>: a send if there is room. A send on a closed channel panics.\<close>

definition chan_send :: "'p event \<Rightarrow> nat \<Rightarrow> 'p bus \<Rightarrow> 'p bus" where
  "chan_send ev i b =
     (let sub = sub_at b i in
      if shut sub then b\<lparr>panicked := True\<rparr>
      else if length (buf sub) < cap sub then b\<lparr>sub_at := (sub_at b)(i := sub\<lparr>buf := buf sub @ [ev]\<rparr>)\<rparr> else b)"

definition send_one :: "nat \<Rightarrow> 'p pub_sys \<Rightarrow> 'p pub_sys option" where
  "send_one g s =
     (case pubs s g of
        Loaded n ev i A B \<Rightarrow>
          let sub = sub_at (bus (core s)) i in
          Some (s\<lparr>core := (core s)\<lparr>bus := chan_send ev i (bus (core s))\<rparr>, pubs := (pubs s)(g := Sending n ev A B),
            offered := (offered s)(i := offered s i @ [(n, ev, length (buf sub) < cap sub)])\<rparr>)
      | _ \<Rightarrow> None)"

definition end_publish :: "nat \<Rightarrow> 'p pub_sys \<Rightarrow> 'p pub_sys option" where
  "end_publish g s =
     (case pubs s g of
        Sending n ev A B \<Rightarrow>
          if A = {} \<and> B = {} then Some (s\<lparr>readers := readers s - 1, pubs := (pubs s)(g := NotPublishing)\<rparr>) else None
      | _ \<Rightarrow> None)"

text \<open>\<open>Write\<close>: a method under the write lock. \<open>Other\<close>: one that takes no lock, the swap of a flag or a receive.\<close>

fun pub_step :: "'p pub_label \<Rightarrow> 'p pub_sys \<Rightarrow> 'p pub_sys option" where
  "pub_step (Write l) s =
     (case l of
        Publish ev \<Rightarrow> None | Swap i \<Rightarrow> None | Receive i \<Rightarrow> None
      | _ \<Rightarrow> if readers s = 0 then map_option (\<lambda>c. s\<lparr>core := c\<rparr>) (bus_step l (core s)) else None)"
| "pub_step (Other l) s =
     (case l of
        Swap i \<Rightarrow> map_option (\<lambda>c. s\<lparr>core := c\<rparr>) (bus_step l (core s))
      | Receive i \<Rightarrow> map_option (\<lambda>(ev, b). s\<lparr>core := (core s)\<lparr>bus := b\<rparr>, received := (received s)(i := received s i @ [ev])\<rparr>)
          (receive i (bus (core s)))
      | _ \<Rightarrow> None)"
| "pub_step (PBegin g ev) s = begin_publish g ev s"
| "pub_step (PLoad g i) s = load_one g i s"
| "pub_step (PSend g) s = send_one g s"
| "pub_step (PEnd g) s = end_publish g s"

abbreviation pub_reach :: "'p pub_sys \<Rightarrow> bool" where
  "pub_reach \<equiv> reach ((=) pub_start) (labelled pub_step)"

lemma pub_reach_run: "run pub_step ls pub_start = Some s \<Longrightarrow> pub_reach s"
  by (rule reach_run) (auto intro: reach_start)

text \<open>The two halves of \<open>directSend\<close> with nothing in between are the whole.\<close>

lemma directSend_halves:
  "send_each ev {i} b = (if flag (sub_at b i) then b else chan_send ev i b)"
  by (auto simp: send_each_def directSend_def chan_send_def Let_def fun_eq_iff)

section \<open>The invariant\<close>

definition accepted :: "(nat \<times> 'p event \<times> bool) list \<Rightarrow> 'p event list" where
  "accepted os = map (fst \<circ> snd) (filter (snd \<circ> snd) os)"

definition reached :: "'p offers \<Rightarrow> nat \<Rightarrow> nat set" where
  "reached os n = {i. n \<in> fst ` set (os i)}"

lemma accepted_simps [simp]: "accepted [] = []" "accepted (os @ [(n, ev, a)]) = accepted os @ (if a then [ev] else [])"
  by (simp_all add: accepted_def)

lemma reached_upd [simp]: "reached (os(i := os i @ [(n, x)])) m = (if m = n then insert i (reached os m) else reached os m)"
  by (auto simp: reached_def)

fun number :: "'p pub_place \<Rightarrow> nat option" where
  "number NotPublishing = None"
| "number (Sending n ev A B) = Some n"
| "number (Loaded n ev i A B) = Some n"

text \<open>\<open>T\<close> is what a publication has still to do.\<close>

definition active :: "'p bus \<Rightarrow> ('p event \<times> nat set) list \<Rightarrow> 'p offers \<Rightarrow> nat \<Rightarrow> 'p event \<Rightarrow> nat set \<Rightarrow> bool" where
  "active b is os n ev T \<longleftrightarrow> \<not> closed b \<and> n < length is \<and> is ! n = (ev, matching ev b) \<and> T \<subseteq> matching ev b \<and>
     reached os n = matching ev b - T"

fun place_ok :: "'p bus \<Rightarrow> ('p event \<times> nat set) list \<Rightarrow> 'p offers \<Rightarrow> 'p pub_place \<Rightarrow> bool" where
  "place_ok b is os NotPublishing \<longleftrightarrow> True"
| "place_ok b is os (Sending n ev A B) \<longleftrightarrow> A \<inter> B = {} \<and> active b is os n ev (A \<union> B)"
| "place_ok b is os (Loaded n ev i A B) \<longleftrightarrow> A \<inter> B = {} \<and> i \<notin> A \<union> B \<and> active b is os n ev (insert i (A \<union> B))"

definition places_ok :: "'p bus \<Rightarrow> ('p event \<times> nat set) list \<Rightarrow> 'p offers \<Rightarrow> (nat \<Rightarrow> 'p pub_place) \<Rightarrow> bool" where
  "places_ok b is os ps \<longleftrightarrow> (\<forall>g. place_ok b is os (ps g)) \<and> (\<forall>g h n. number (ps g) = Some n \<and> number (ps h) = Some n \<longrightarrow> g = h) \<and>
     (\<forall>n < length is. (\<exists>g. number (ps g) = Some n) \<or> reached os n = snd (is ! n))"

definition offers_ok :: "('p event \<times> nat set) list \<Rightarrow> 'p offers \<Rightarrow> bool" where
  "offers_ok is os \<longleftrightarrow> (\<forall>i. distinct (map fst (os i)) \<and> (\<forall>(n, ev, a) \<in> set (os i). n < length is \<and> fst (is ! n) = ev))"

definition channels_ok :: "'p bus \<Rightarrow> 'p offers \<Rightarrow> (nat \<Rightarrow> 'p event list) \<Rightarrow> bool" where
  "channels_ok b os rs \<longleftrightarrow> (\<forall>i. rs i @ buf (sub_at b i) = accepted (os i)) \<and> (\<forall>i. \<not> live b i \<longrightarrow> os i = [])"

definition pub_inv :: "'p pub_sys \<Rightarrow> bool" where
  "pub_inv s \<longleftrightarrow> bus_inv (core s) \<and> tracked NotPublishing (pubs s) \<and> int (readers s) = cnt (\<lambda>p. p \<noteq> NotPublishing) (pubs s) \<and>
     places_ok (bus (core s)) (issued s) (offered s) (pubs s) \<and> offers_ok (issued s) (offered s) \<and>
     channels_ok (bus (core s)) (offered s) (received s)"

lemma pub_invD:
  assumes "pub_inv s"
  shows "bus_inv (core s)" "tracked NotPublishing (pubs s)" "int (readers s) = cnt (\<lambda>p. p \<noteq> NotPublishing) (pubs s)"
    "places_ok (bus (core s)) (issued s) (offered s) (pubs s)" "offers_ok (issued s) (offered s)"
    "channels_ok (bus (core s)) (offered s) (received s)"
  using assms by (simp_all add: pub_inv_def)

lemma cnt_places:
  "tracked NotPublishing f \<Longrightarrow>
     cnt (\<lambda>p. p \<noteq> NotPublishing) (f(g := p)) = cnt (\<lambda>p. p \<noteq> NotPublishing) f - of_bool (f g \<noteq> NotPublishing) + of_bool (p \<noteq> NotPublishing)"
  by (rule cnt_upd [where d = NotPublishing]) simp_all

lemma no_readers:
  assumes "pub_inv s" and "readers s = 0"
  shows "pubs s g = NotPublishing"
  using pub_invD(2,3) [OF assms(1)] assms(2) cnt_zero_iff [of NotPublishing "pubs s" "\<lambda>p. p \<noteq> NotPublishing"] by simp

text \<open>A place depends on the maps of the bus and on the offers of its own publication.\<close>

lemma place_ok_bus:
  assumes "subs b' = subs b" "all b' = all b" "closed b' = closed b"
  shows "place_ok b' is os p = place_ok b is os p"
  using assms by (cases p) (simp_all add: active_def matching_def)

lemma places_ok_bus:
  assumes "subs b' = subs b" "all b' = all b" "closed b' = closed b"
  shows "places_ok b' is os ps = places_ok b is os ps"
  unfolding places_ok_def place_ok_bus [OF assms] ..

lemma place_ok_cong:
  "(\<And>n. number p = Some n \<Longrightarrow> reached os' n = reached os n) \<Longrightarrow> place_ok b is os' p = place_ok b is os p"
  by (cases p) (simp_all add: active_def)

lemma places_okD:
  assumes "places_ok b is os ps"
  shows "place_ok b is os (ps g)" "number (ps g) = Some n \<Longrightarrow> number (ps h) = Some n \<Longrightarrow> g = h"
    "n < length is \<Longrightarrow> (\<exists>g. number (ps g) = Some n) \<or> reached os n = snd (is ! n)"
  using assms unfolding places_ok_def by blast+

lemma places_okI:
  assumes "\<And>g. place_ok b is os (ps g)" "\<And>g h n. number (ps g) = Some n \<Longrightarrow> number (ps h) = Some n \<Longrightarrow> g = h"
    and "\<And>n. n < length is \<Longrightarrow> (\<exists>g. number (ps g) = Some n) \<or> reached os n = snd (is ! n)"
  shows "places_ok b is os ps"
  using assms unfolding places_ok_def by blast

text \<open>A publication goes on: the others do not notice.\<close>

lemma places_move:
  assumes P: "places_ok b is os ps" and n: "number (ps g) = Some n" "number p = Some n"
    and new: "place_ok b is os' p" and other: "\<And>m. m \<noteq> n \<Longrightarrow> reached os' m = reached os m"
  shows "places_ok b is os' (ps(g := p))"
proof -
  have same: "number ((ps(g := p)) h) = number (ps h)" for h using n by simp
  have "place_ok b is os' ((ps(g := p)) h)" for h
  proof (cases "h = g")
    case False
    then have "place_ok b is os' (ps h) = place_ok b is os (ps h)"
      using P n(1) by (intro place_ok_cong other) (auto simp: places_ok_def)
    with False P show ?thesis by (simp add: places_ok_def)
  qed (use new in simp)
  moreover have "reached os' m = snd (is ! m)" if "m < length is" "\<nexists>h. number (ps h) = Some m" for m
  proof -
    have "m \<noteq> n" using that(2) n(1) by auto
    then show ?thesis using places_okD(3) [OF P that(1)] that(2) by (simp add: other)
  qed
  ultimately show ?thesis
    using P unfolding places_ok_def same by blast
qed

section \<open>The methods that change the maps\<close>

text \<open>What the methods under the write lock do to the channels: nothing to those there are; a new one is empty.\<close>

lemma closeBus_keeps [simp]: "buf (sub_at (closeBus b) i) = buf (sub_at b i)" "nextID (closeBus b) = nextID b"
  by (simp_all add: closeBus_def shut_each_def)

lemma write_buf:
  assumes "bus_step l c = Some c'" and "\<And>ev. l \<noteq> Publish ev" and "\<And>i. l \<noteq> Receive i"
  shows "(buf (sub_at (bus c') i) = (if live (bus c) i \<or> \<not> live (bus c') i then buf (sub_at (bus c) i) else [])) \<and>
    (live (bus c) i \<longrightarrow> live (bus c') i)"
proof (cases l)
  case (Subscribe evs)
  with assms show ?thesis by (auto simp: subscribe_def live_def Let_def split: if_splits prod.splits)
next
  case SubscribeAll
  with assms show ?thesis by (auto simp: subscribeAll_def live_def Let_def split: if_splits)
next
  case (Publish ev)
  with assms(2) show ?thesis by blast
next
  case Close
  with assms show ?thesis by (auto simp: live_def)
next
  case (Swap i)
  with assms show ?thesis by (auto simp: swap_flag_def live_def split: if_splits)
next
  case (Unsubscribe i)
  with assms show ?thesis by (auto simp: unsubscribe_def live_def split: if_splits)
next
  case (Receive i)
  with assms(3) show ?thesis by blast
qed

lemma write_channels:
  assumes "channels_ok (bus c) os rs" and "bus_step l c = Some c'" and "\<And>ev. l \<noteq> Publish ev" and "\<And>i. l \<noteq> Receive i"
  shows "channels_ok (bus c') os rs"
  unfolding channels_ok_def
proof (intro conjI allI impI)
  fix i
  note b = write_buf [OF assms(2-4), of i]
  from assms(1) have ok: "rs i @ buf (sub_at (bus c) i) = accepted (os i)" "\<not> live (bus c) i \<longrightarrow> os i = []"
    by (simp_all add: channels_ok_def)
  show "rs i @ buf (sub_at (bus c') i) = accepted (os i)"
    using ok b by (cases "live (bus c) i") auto
  show "os i = []" if "\<not> live (bus c') i"
    using ok(2) b that by blast
qed

lemma pub_inv_write:
  assumes I: "pub_inv s" and "readers s = 0" and st: "bus_step l (core s) = Some c" and "\<And>ev. l \<noteq> Publish ev" and "\<And>i. l \<noteq> Receive i"
  shows "pub_inv (s\<lparr>core := c\<rparr>)"
  using I bus_inv_step [OF pub_invD(1) [OF I] st] write_channels [OF pub_invD(6) [OF I] st assms(4,5)] no_readers [OF I assms(2)]
  by (simp add: pub_inv_def places_ok_def)

lemma pub_inv_swap:
  assumes I: "pub_inv s" and st: "bus_step (Swap i) (core s) = Some c"
  shows "pub_inv (s\<lparr>core := c\<rparr>)"
proof -
  have "subs (bus c) = subs (bus (core s))" "all (bus c) = all (bus (core s))" "closed (bus c) = closed (bus (core s))"
    using st by (auto simp: swap_flag_def split: if_splits)
  then have "places_ok (bus c) (issued s) (offered s) (pubs s)"
    using pub_invD(4) [OF I] places_ok_bus [of "bus c" "bus (core s)"] by simp
  with I bus_inv_step [OF pub_invD(1) [OF I] st] write_channels [OF pub_invD(6) [OF I] st] show ?thesis
    by (simp add: pub_inv_def)
qed

lemma pub_inv_receive:
  assumes I: "pub_inv s" and st: "receive i (bus (core s)) = Some (ev, b)"
  shows "pub_inv (s\<lparr>core := (core s)\<lparr>bus := b\<rparr>, received := (received s)(i := received s i @ [ev])\<rparr>)"
proof -
  have st': "bus_step (Receive i) (core s) = Some ((core s)\<lparr>bus := b\<rparr>)" using st by simp
  obtain rest where b: "buf (sub_at (bus (core s)) i) = ev # rest"
    "b = (bus (core s))\<lparr>sub_at := (sub_at (bus (core s)))(i := (sub_at (bus (core s)) i)\<lparr>buf := rest\<rparr>)\<rparr>"
    using st by (auto simp: receive_def split: list.splits)
  have "received s i @ ev # rest = accepted (offered s i)"
    using pub_invD(6) [OF I] unfolding channels_ok_def b(1) [symmetric] by blast
  then have "channels_ok b (offered s) ((received s)(i := received s i @ [ev]))"
    using pub_invD(6) [OF I] b(2) by (simp add: channels_ok_def live_def)
  moreover have "places_ok b (issued s) (offered s) (pubs s)"
    using pub_invD(4) [OF I] places_ok_bus [of b "bus (core s)"] b(2) by simp
  ultimately show ?thesis
    using I bus_inv_step [OF pub_invD(1) [OF I] st'] by (simp add: pub_inv_def)
qed

text \<open>A publication begins, under the next number; one ends when it has reached all that matched.\<close>

lemma places_new:
  assumes P: "places_ok b is os ps" and "ps g = NotPublishing" and n: "number p = Some (length is)"
    and new: "place_ok b (is @ [x]) os p"
  shows "places_ok b (is @ [x]) os (ps(g := p))"
proof -
  have old: "number (ps h) \<noteq> Some (length is)" "place_ok b (is @ [x]) os (ps h)" for h
    using places_okD(1) [OF P, of h] by (cases "ps h"; auto simp: active_def nth_append)+
  then have one: "number ((ps(g := p)) h) = Some m \<Longrightarrow> number ((ps(g := p)) k) = Some m \<Longrightarrow> h = k" for h k m
    using places_okD(2) [OF P, of h m k] n by (auto split: if_splits)
  have "(\<exists>h. number ((ps(g := p)) h) = Some m) \<or> reached os m = snd ((is @ [x]) ! m)" if "m < length (is @ [x])" for m
  proof (cases "m = length is")
    case True
    with n have "number ((ps(g := p)) g) = Some m" by simp
    then show ?thesis by blast
  next
    case False
    with that have m: "m < length is" by simp
    from places_okD(3) [OF P m] show ?thesis
    proof
      assume "\<exists>h. number (ps h) = Some m"
      then obtain h where h: "number (ps h) = Some m" ..
      then have "number ((ps(g := p)) h) = Some m" using assms(2) by auto
      then show ?thesis by blast
    next
      assume "reached os m = snd (is ! m)"
      with m show ?thesis by (simp add: nth_append)
    qed
  qed
  moreover have "place_ok b (is @ [x]) os ((ps(g := p)) h)" for h
    using new old(2) [of h] by simp
  ultimately show ?thesis using one by (intro places_okI)
qed

lemma places_end:
  assumes P: "places_ok b is os ps" and n: "number (ps g) = Some n" and all: "reached os n = snd (is ! n)"
  shows "places_ok b is os (ps(g := NotPublishing))"
proof -
  have "(\<exists>h. number ((ps(g := NotPublishing)) h) = Some m) \<or> reached os m = snd (is ! m)" if m: "m < length is" for m
  proof (cases "m = n")
    case False
    from places_okD(3) [OF P m] show ?thesis
    proof
      assume "\<exists>h. number (ps h) = Some m"
      then obtain h where h: "number (ps h) = Some m" ..
      then have "number ((ps(g := NotPublishing)) h) = Some m" using n False by auto
      then show ?thesis by blast
    qed simp
  qed (use all in simp)
  moreover have "number ((ps(g := NotPublishing)) h) = Some m \<Longrightarrow> number ((ps(g := NotPublishing)) k) = Some m \<Longrightarrow> h = k" for h k m
    using places_okD(2) [OF P, of h m k] by (auto split: if_splits)
  moreover have "place_ok b is os ((ps(g := NotPublishing)) h)" for h
    using places_okD(1) [OF P, of h] by simp
  ultimately show ?thesis by (intro places_okI)
qed

section \<open>The steps of a publication\<close>

text \<open>A subscription that still stands in the maps has an open channel.\<close>

lemma matching_open:
  assumes "bus_inv c" and "i \<in> matching ev (bus c)"
  shows "\<not> shut (sub_at (bus c) i)" and "live (bus c) i"
  using sub_invD(1,3,4,6) [OF bus_invD(1) [OF assms(1), of i]] assms(2) unfolding matching_def by blast+

lemma chan_send_fields [simp]:
  "subs (chan_send ev i b) = subs b" "all (chan_send ev i b) = all b" "closed (chan_send ev i b) = closed b"
  "nextID (chan_send ev i b) = nextID b" "types (sub_at (chan_send ev i b) j) = types (sub_at b j)"
  "flag (sub_at (chan_send ev i b) j) = flag (sub_at b j)" "shut (sub_at (chan_send ev i b) j) = shut (sub_at b j)"
  by (simp_all add: chan_send_def Let_def)

lemma bus_inv_send:
  assumes I: "bus_inv c" and "i \<in> matching ev (bus c)"
  shows "bus_inv (c\<lparr>bus := chan_send ev i (bus c)\<rparr>)"
proof -
  have "panicked (chan_send ev i (bus c)) = panicked (bus c)"
    using matching_open(1) [OF assms] by (simp add: chan_send_def Let_def)
  moreover have "sub_inv (chan_send ev i (bus c)) (leaving c) j" for j
    by (rule sub_inv_buf [OF bus_invD(1) [OF I]]) simp_all
  ultimately show ?thesis using I by (simp add: bus_inv_def)
qed

lemma channels_offer:
  assumes "channels_ok b os rs" and "live b i" and "nextID b' = nextID b"
    and "\<And>j. buf (sub_at b' j) = buf (sub_at b j) @ (if j = i \<and> a then [ev] else [])"
  shows "channels_ok b' (os(i := os i @ [(n, ev, a)])) rs"
  unfolding channels_ok_def live_def assms(3,4)
  using assms(1,2) by (simp add: channels_ok_def live_def flip: append_assoc)

lemma offers_offer:
  assumes "offers_ok is os" and "n < length is" and "fst (is ! n) = ev" and "i \<notin> reached os n"
  shows "offers_ok is (os(i := os i @ [(n, ev, a)]))"
  using assms by (auto simp: offers_ok_def reached_def)

lemma active_offer:
  assumes "active b is os n ev T" and "i \<in> T" and "T' = T - {i}"
  shows "active b is (os(i := os i @ [(n, ev, a)])) n ev T'"
  using assms by (auto simp: active_def)

text \<open>An offer: the publication at \<open>g\<close> has offered \<open>i\<close>, and it was accepted or not.\<close>

lemma pub_inv_offer:
  assumes I: "pub_inv s" and a: "active (bus (core s)) (issued s) (offered s) n ev (insert i (A \<union> B))"
    and d: "A \<inter> B = {}" "i \<notin> A \<union> B" and n: "number (pubs s g) = Some n"
    and c: "bus_inv c" "subs (bus c) = subs (bus (core s))" "all (bus c) = all (bus (core s))" "closed (bus c) = closed (bus (core s))"
      "nextID (bus c) = nextID (bus (core s))"
      "\<And>j. buf (sub_at (bus c) j) = buf (sub_at (bus (core s)) j) @ (if j = i \<and> r then [ev] else [])"
  shows "pub_inv (s\<lparr>core := c, pubs := (pubs s)(g := Sending n ev A B), offered := (offered s)(i := offered s i @ [(n, ev, r)])\<rparr>)"
proof -
  let ?os = "(offered s)(i := offered s i @ [(n, ev, r)])"
  have m: "i \<in> matching ev (bus (core s))" "n < length (issued s)" "issued s ! n = (ev, matching ev (bus (core s)))" "i \<notin> reached (offered s) n"
    using a by (auto simp: active_def)
  have "active (bus (core s)) (issued s) ?os n ev (A \<union> B)"
    using d(2) by (intro active_offer [OF a]) auto
  then have "places_ok (bus (core s)) (issued s) ?os ((pubs s)(g := Sending n ev A B))"
    using d(1) by (intro places_move [OF pub_invD(4) [OF I] n]) auto
  then have "places_ok (bus c) (issued s) ?os ((pubs s)(g := Sending n ev A B))"
    by (simp add: places_ok_bus [OF c(2-4)])
  moreover have "offers_ok (issued s) ?os"
    using pub_invD(5) [OF I] m by (intro offers_offer) simp_all
  moreover have "channels_ok (bus c) ?os (received s)"
    using matching_open(2) [OF pub_invD(1) [OF I] m(1)] c(5,6) by (intro channels_offer [OF pub_invD(6) [OF I]])
  moreover have "pubs s g \<noteq> NotPublishing" using n by auto
  ultimately show ?thesis
    using I c(1) cnt_places [OF pub_invD(2) [OF I], of g] by (simp add: pub_inv_def)
qed

lemma pub_inv_load:
  assumes I: "pub_inv s" and st: "load_one g i s = Some t"
  shows "pub_inv t"
proof -
  from st obtain n ev A B where p: "pubs s g = Sending n ev A B" by (auto simp: load_one_def split: pub_place.splits)
  define A' where "A' = A - {i}"
  define B' where "B' = (if i \<in> A then B else B - {i})"
  from st p have i: "i \<in> A \<or> A = {} \<and> i \<in> B" by (auto simp: load_one_def split: if_splits)
  have ok: "place_ok (bus (core s)) (issued s) (offered s) (Sending n ev A B)"
    using places_okD(1) [OF pub_invD(4) [OF I], of g] p by simp
  then have u: "A \<union> B = insert i (A' \<union> B')" "A' \<inter> B' = {}" "i \<notin> A' \<union> B'"
    using i by (auto simp: A'_def B'_def)
  with ok have a: "active (bus (core s)) (issued s) (offered s) n ev (insert i (A' \<union> B'))" by simp
  have n: "number (pubs s g) = Some n" using p by simp
  show ?thesis
  proof (cases "flag (sub_at (bus (core s)) i)")
    case True
    with st p i have "t = s\<lparr>core := core s, pubs := (pubs s)(g := Sending n ev A' B'), offered := (offered s)(i := offered s i @ [(n, ev, False)])\<rparr>"
      by (simp add: load_one_def Let_def A'_def B'_def)
    with pub_inv_offer [OF I a u(2,3) n pub_invD(1) [OF I], of False] show ?thesis by simp
  next
    case False
    with st p i have "t = s\<lparr>pubs := (pubs s)(g := Loaded n ev i A' B')\<rparr>"
      by (simp add: load_one_def Let_def A'_def B'_def)
    moreover have "places_ok (bus (core s)) (issued s) (offered s) ((pubs s)(g := Loaded n ev i A' B'))"
      using a u by (intro places_move [OF pub_invD(4) [OF I] n]) simp_all
    ultimately show ?thesis
      using I p cnt_places [OF pub_invD(2) [OF I], of g] by (simp add: pub_inv_def)
  qed
qed

lemma pub_inv_send:
  assumes I: "pub_inv s" and st: "send_one g s = Some t"
  shows "pub_inv t"
proof -
  from st obtain n ev i A B where p: "pubs s g = Loaded n ev i A B" by (auto simp: send_one_def split: pub_place.splits)
  have ok: "place_ok (bus (core s)) (issued s) (offered s) (Loaded n ev i A B)"
    using places_okD(1) [OF pub_invD(4) [OF I], of g] p by simp
  then have m: "i \<in> matching ev (bus (core s))" by (auto simp: active_def)
  note o = matching_open(1) [OF pub_invD(1) [OF I] m]
  have "buf (sub_at (chan_send ev i (bus (core s))) j) = buf (sub_at (bus (core s)) j) @
      (if j = i \<and> length (buf (sub_at (bus (core s)) i)) < cap (sub_at (bus (core s)) i) then [ev] else [])" for j
    using o by (simp add: chan_send_def Let_def)
  note send = pub_inv_offer [OF I, where c = "(core s)\<lparr>bus := chan_send ev i (bus (core s))\<rparr>" and g = g and n = n and i = i
      and A = A and B = B, simplified, OF _ _ _ _ bus_inv_send [OF pub_invD(1) [OF I] m] this]
  show ?thesis
    using st p ok by (auto simp: send_one_def Let_def intro!: send)
qed

lemma pub_inv_begin:
  assumes I: "pub_inv s" and "pubs s g = NotPublishing" and "\<not> closed (bus (core s))"
  shows "pub_inv (s\<lparr>readers := Suc (readers s), issued := issued s @ [(ev, matching ev (bus (core s)))],
    pubs := (pubs s)(g := Sending (length (issued s)) ev
      (ids_of (subs (bus (core s))) (resolveType (etype ev))) (all (bus (core s))))\<rparr>)"
proof -
  let ?b = "bus (core s)" and ?is = "issued s @ [(ev, matching ev (bus (core s)))]" and ?n = "length (issued s)"
  let ?p = "Sending ?n ev (ids_of (subs ?b) (resolveType (etype ev))) (all ?b)"
  have "ids_of (subs ?b) u \<inter> all ?b = {}" for u
    using sub_invD(2,5) [OF bus_invD(1) [OF pub_invD(1) [OF I]]] by fastforce
  moreover have none: "reached (offered s) ?n = {}"
    using pub_invD(5) [OF I] by (fastforce simp: offers_ok_def reached_def)
  ultimately have "place_ok ?b ?is (offered s) ?p"
    using assms(3) by (simp add: active_def matching_def)
  then have "places_ok ?b ?is (offered s) ((pubs s)(g := ?p))"
    using assms(2) by (intro places_new [OF pub_invD(4) [OF I]]) auto
  moreover have "offers_ok ?is (offered s)"
    using pub_invD(5) [OF I] by (fastforce simp: offers_ok_def nth_append)
  ultimately show ?thesis
    using I assms(2) cnt_places [OF pub_invD(2) [OF I], of g] by (simp add: pub_inv_def)
qed

lemma pub_inv_end:
  assumes I: "pub_inv s" and p: "pubs s g = Sending n ev {} {}"
  shows "pub_inv (s\<lparr>readers := readers s - 1, pubs := (pubs s)(g := NotPublishing)\<rparr>)"
proof -
  have t: "tracked NotPublishing (pubs s)" by (rule pub_invD(2) [OF I])
  have "0 < cnt (\<lambda>p. p \<noteq> NotPublishing) (pubs s)" using cnt_pos [where P = "\<lambda>p. p \<noteq> NotPublishing", OF t, of g] p by simp
  then have "0 < readers s" using pub_invD(3) [OF I] by simp
  moreover have "reached (offered s) n = snd (issued s ! n)"
    using places_okD(1) [OF pub_invD(4) [OF I], of g] p by (simp add: active_def)
  then have "places_ok (bus (core s)) (issued s) (offered s) ((pubs s)(g := NotPublishing))"
    using p by (intro places_end [OF pub_invD(4) [OF I]]) simp_all
  ultimately show ?thesis
    using I p cnt_places [OF t, of g] by (simp add: pub_inv_def of_nat_diff)
qed

lemma pub_inv_step:
  assumes I: "pub_inv s" and st: "pub_step l s = Some t"
  shows "pub_inv t"
proof (cases l)
  case (Write w)
  with st show ?thesis
    by (cases w) (auto simp del: bus_step.simps split: if_splits intro!: pub_inv_write [OF I])
next
  case (Other w)
  with st show ?thesis
    by (cases w) (auto simp del: bus_step.simps intro!: pub_inv_swap [OF I] pub_inv_receive [OF I])
next
  case (PBegin g ev)
  with st I show ?thesis
    by (auto simp: begin_publish_def split: option.splits if_splits intro!: pub_inv_begin [OF I])
next
  case (PLoad g i)
  with st show ?thesis using pub_inv_load [OF I] by simp
next
  case (PSend g)
  with st show ?thesis using pub_inv_send [OF I] by simp
next
  case (PEnd g)
  with st show ?thesis
    by (auto simp: end_publish_def split: pub_place.splits if_splits intro!: pub_inv_end [OF I, simplified])
qed

lemma pub_inv_start: "pub_inv pub_start"
  using bus_inv_start
  by (simp add: pub_inv_def pub_start_def channels_ok_def bus_start_def newBus_def places_ok_def offers_ok_def)

interpretation publishers: inductive_invariant "(=) pub_start" "labelled pub_step" pub_inv
  by unfold_locales (auto simp: labelled_def intro: pub_inv_start pub_inv_step)

section \<open>Properties\<close>

text \<open>
  C9 (functional): However publications, receives, subscriptions and cancellations interleave: before \<open>Close\<close>
  nothing panics; a publication is offered at most once to a subscription, and when it is over it has been offered
  to exactly those that matched when it took the read lock; and a subscriber receives exactly the events its
  channel accepted, in the order of the offers, the rest being still in the buffer.
\<close>

theorem bus_publications:
  assumes "pub_reach s" and "n < length (issued s)"
  shows "(\<not> closed (bus (core s)) \<longrightarrow> \<not> panicked (bus (core s))) \<and>
    distinct (map fst (offered s i)) \<and> (\<forall>(m, ev, a) \<in> set (offered s i). m < length (issued s) \<and> fst (issued s ! m) = ev) \<and>
    ((\<forall>g. number (pubs s g) \<noteq> Some n) \<longrightarrow> reached (offered s) n = snd (issued s ! n)) \<and>
    received s i @ buf (sub_at (bus (core s)) i) = accepted (offered s i)"
proof -
  note I = publishers.inv_reachable [OF assms(1)]
  have "offers_ok (issued s) (offered s)" "channels_ok (bus (core s)) (offered s) (received s)" by (rule pub_invD [OF I])+
  with places_okD(3) [OF pub_invD(4) [OF I] assms(2)] bus_invD(2) [OF pub_invD(1) [OF I]] show ?thesis
    unfolding offers_ok_def channels_ok_def by blast
qed

text \<open>Two publications, two subscriptions, and they receive the two events in different orders.\<close>

abbreviation ev1 :: "nat event" where "ev1 \<equiv> \<lparr>etype = Pointer (Named 1), payload = 1\<rparr>"
abbreviation ev2 :: "nat event" where "ev2 \<equiv> \<lparr>etype = Named 1, payload = 2\<rparr>"

definition crossing :: "nat pub_label list" where
  "crossing = [Write (Subscribe [Some ev2]), Write SubscribeAll, PBegin 0 (Some ev1), PBegin 1 (Some ev2), PBegin 2 None,
     PLoad 0 1, PSend 0, PLoad 1 1, PSend 1, PLoad 1 2, Other (Receive 1), PLoad 0 2, Other (Swap 2), PSend 1, PSend 0,
     PEnd 1, PEnd 0, Write (Unsubscribe 2)]"

lemmas pub_defs = begin_publish_def load_one_def send_one_def end_publish_def chan_send_def matching_def pub_start_def

lemma crossing_run:
  "\<exists>s. run pub_step crossing pub_start = Some s \<and> issued s = [(ev1, {1, 2}), (ev2, {2, 1})] \<and> (\<forall>g. pubs s g = NotPublishing) \<and>
     offered s 1 = [(0, ev1, True), (1, ev2, True)] \<and> offered s 2 = [(1, ev2, True), (0, ev1, True)] \<and>
     received s 1 = [ev1] \<and> \<not> closed (bus (core s))"
  by (simp add: crossing_def pub_defs bus_defs ids_of_def) auto

theorem bus_publications_witness:
  "case run pub_step crossing pub_start of None \<Rightarrow> False
   | Some s \<Rightarrow> buf (sub_at (bus (core s)) 1) = [ev2] \<and> received s 2 @ buf (sub_at (bus (core s)) 2) = [ev2, ev1] \<and>
       1 \<in> reached (offered s) 0 \<and> \<not> panicked (bus (core s))"
proof -
  from crossing_run obtain s where s: "run pub_step crossing pub_start = Some s" "issued s = [(ev1, {1, 2}), (ev2, {2, 1})]"
      "\<forall>g. pubs s g = NotPublishing" "offered s 1 = [(0, ev1, True), (1, ev2, True)]"
      "offered s 2 = [(1, ev2, True), (0, ev1, True)]" "received s 1 = [ev1]" "\<not> closed (bus (core s))"
    by (elim exE conjE) (rule that)
  note p = bus_publications [OF pub_reach_run [OF s(1)], of 0]
  from p [of 1] p [of 2] s show ?thesis by (simp add: accepted_def)
qed

end
