(* ===== verification/Kata.thy ===== *)
theory Kata
  imports Prelude
begin

text \<open>
  \<open>kata/kata.go\<close>, \<open>transition.go\<close>, \<open>visualizer.go\<close>: a finite state machine with hooks. A hook is a
  function of a world \<open>'w\<close> that returns an error or \<open>None\<close>. \<open>transition\<close> is one call that nothing
  interferes with; \<open>fsm_step\<close> splits it where the code releases the lock, between the lookup of the
  rule, each hook, and the assignment of the new state.
\<close>

section \<open>The machine\<close>

type_synonym ('c, 's, 'e, 'w, 'r) hook = "'c go_ctx \<Rightarrow> 's \<Rightarrow> 'e \<Rightarrow> 's \<Rightarrow> 'w \<Rightarrow> 'r option \<times> 'w"

record ('s, 'e) rule =
  From :: 's
  Event :: 'e
  To :: 's

record ('c, 's, 'e, 'w, 'r) fsm =
  current :: 's
  rules :: "'s \<rightharpoonup> ('e \<rightharpoonup> 's)"
  beforeHooks :: "'e \<Rightarrow> ('c, 's, 'e, 'w, 'r) hook list"
  afterHooks :: "'e \<Rightarrow> ('c, 's, 'e, 'w, 'r) hook list"

datatype ('s, 'e, 'r) fsm_error = NoTransitions 's | InvalidTransition 's 'e | BeforeAborted 's 's 'r

definition newFSM :: "'s \<Rightarrow> ('c, 's, 'e, 'w, 'r) fsm" where
  "newFSM initial = \<lparr>current = initial, rules = Map.empty, beforeHooks = (\<lambda>_. []), afterHooks = (\<lambda>_. [])\<rparr>"

definition currentState :: "('c, 's, 'e, 'w, 'r) fsm \<Rightarrow> 's" where
  "currentState f = current f"

definition add_rule :: "('s, 'e) rule \<Rightarrow> ('s \<rightharpoonup> ('e \<rightharpoonup> 's)) \<Rightarrow> ('s \<rightharpoonup> ('e \<rightharpoonup> 's))" where
  "add_rule r m = m(From r \<mapsto> (case m (From r) of None \<Rightarrow> Map.empty | Some es \<Rightarrow> es)(Event r \<mapsto> To r))"

definition addRules :: "('s, 'e) rule list \<Rightarrow> ('c, 's, 'e, 'w, 'r) fsm \<Rightarrow> ('c, 's, 'e, 'w, 'r) fsm" where
  "addRules rs f = f\<lparr>rules := fold add_rule rs (rules f)\<rparr>"

definition forceSet :: "'s \<Rightarrow> ('c, 's, 'e, 'w, 'r) fsm \<Rightarrow> ('c, 's, 'e, 'w, 'r) fsm" where
  "forceSet s f = f\<lparr>current := s\<rparr>"

definition onBefore :: "'e \<Rightarrow> ('c, 's, 'e, 'w, 'r) hook \<Rightarrow> ('c, 's, 'e, 'w, 'r) fsm \<Rightarrow> ('c, 's, 'e, 'w, 'r) fsm" where
  "onBefore ev cb f = f\<lparr>beforeHooks := (beforeHooks f)(ev := beforeHooks f ev @ [cb])\<rparr>"

definition onAfter :: "'e \<Rightarrow> ('c, 's, 'e, 'w, 'r) hook \<Rightarrow> ('c, 's, 'e, 'w, 'r) fsm \<Rightarrow> ('c, 's, 'e, 'w, 'r) fsm" where
  "onAfter ev cb f = f\<lparr>afterHooks := (afterHooks f)(ev := afterHooks f ev @ [cb])\<rparr>"

definition validate :: "'e \<Rightarrow> ('c, 's::zero, 'e, 'w, 'r) fsm \<Rightarrow> 's \<times> bool" where
  "validate ev f =
     (case rules f (current f) of
        None \<Rightarrow> (0, False)
      | Some events \<Rightarrow> (case events ev of None \<Rightarrow> (0, False) | Some t \<Rightarrow> (t, True)))"

definition countRules :: "('c, 's, 'e, 'w, 'r) fsm \<Rightarrow> nat" where
  "countRules f = (\<Sum>s \<in> dom (rules f). card (dom (the (rules f s))))"

text \<open>\<open>String\<close>, with the formatting \<open>%v\<close> of states and \<open>%d\<close> of numbers.\<close>

definition fsm_string :: "('s \<Rightarrow> string) \<Rightarrow> (nat \<Rightarrow> string) \<Rightarrow> ('c, 's, 'e, 'w, 'r) fsm \<Rightarrow> string" where
  "fsm_string ss sn f = ''FSM{current='' @ ss (current f) @ '', rules='' @ sn (countRules f) @ ''}''"

text \<open>\<open>ToDOT\<close>: \<open>show_state\<close> and \<open>show_event\<close> are the \<open>%v\<close> of \<open>fmt\<close>; \<open>order\<close> lists the rules as Go ranges over them.\<close>

definition quoted :: "string \<Rightarrow> string" where
  "quoted s = [CHR 0x22] @ s @ [CHR 0x22]"

definition newline :: string where
  "newline = [CHR 0x0A]"

fun dot_edges :: "('s \<Rightarrow> string) \<Rightarrow> ('e \<Rightarrow> string) \<Rightarrow> ('s \<times> 'e \<times> 's) list \<Rightarrow> string" where
  "dot_edges ss se [] = []"
| "dot_edges ss se ((from_s, ev, to_s) # rest) =
     ''    '' @ quoted (ss from_s) @ '' -> '' @ quoted (ss to_s) @ '' [label='' @ quoted (se ev) @ ''];'' @ newline @
     dot_edges ss se rest"

definition toDOT :: "('s \<Rightarrow> string) \<Rightarrow> ('e \<Rightarrow> string) \<Rightarrow> ('s \<times> 'e \<times> 's) list \<Rightarrow> ('c, 's, 'e, 'w, 'r) fsm \<Rightarrow> string" where
  "toDOT ss se order f =
     ''digraph FSM {'' @ newline @ ''    rankdir=LR;'' @ newline @
     ''    node [shape=circle, style=filled, fillcolor=lightblue];'' @ newline @ newline @
     ''    '' @ quoted (ss (current f)) @ '' [fillcolor=lightgreen, style=filled, penwidth=2];'' @ newline @ newline @
     dot_edges ss se order @ ''}'' @ newline"

section \<open>A transition\<close>

text \<open>The first part, under the read lock.\<close>

definition lookup_rule :: "'e \<Rightarrow> ('c, 's, 'e, 'w, 'r) fsm \<Rightarrow> ('s, 'e, 'r) fsm_error + 's" where
  "lookup_rule ev f =
     (case rules f (current f) of
        None \<Rightarrow> Inl (NoTransitions (current f))
      | Some events \<Rightarrow> (case events ev of None \<Rightarrow> Inl (InvalidTransition (current f) ev) | Some t \<Rightarrow> Inr t))"

fun run_before :: "'c go_ctx \<Rightarrow> 's \<Rightarrow> 'e \<Rightarrow> 's \<Rightarrow> ('c, 's, 'e, 'w, 'r) hook list \<Rightarrow> 'w \<Rightarrow> 'r option \<times> 'w" where
  "run_before ctx a ev b [] w = (None, w)"
| "run_before ctx a ev b (h # hs) w =
     (case h ctx a ev b w of (Some err, w') \<Rightarrow> (Some err, w') | (None, w') \<Rightarrow> run_before ctx a ev b hs w')"

fun run_after :: "'c go_ctx \<Rightarrow> 's \<Rightarrow> 'e \<Rightarrow> 's \<Rightarrow> ('c, 's, 'e, 'w, 'r) hook list \<Rightarrow> 'w \<Rightarrow> 'w" where
  "run_after ctx a ev b [] w = w"
| "run_after ctx a ev b (h # hs) w = run_after ctx a ev b hs (snd (h ctx a ev b w))"

definition transition :: "'c go_ctx \<Rightarrow> 'e \<Rightarrow> ('c, 's, 'e, 'w, 'r) fsm \<times> 'w \<Rightarrow>
    ('s, 'e, 'r) fsm_error option \<times> ('c, 's, 'e, 'w, 'r) fsm \<times> 'w" where
  "transition ctx ev s =
     (case s of (f, w) \<Rightarrow>
       (case lookup_rule ev f of
          Inl err \<Rightarrow> (Some err, f, w)
        | Inr t \<Rightarrow>
            (case run_before ctx (current f) ev t (beforeHooks f ev) w of
               (Some err, w') \<Rightarrow> (Some (BeforeAborted (current f) t err), f, w')
             | (None, w') \<Rightarrow> (None, f\<lparr>current := t\<rparr>, run_after ctx (current f) ev t (afterHooks f ev) w'))))"

section \<open>Interleaved transitions\<close>

text \<open>
  \<open>Before\<close>: hooks still to run, the remaining after-hooks copied at the start. \<open>After\<close>: the state has
  been assigned.
\<close>

datatype ('c, 's, 'e, 'w, 'r) fsm_place =
    Out
  | Before "'c go_ctx" 's 'e 's "('c, 's, 'e, 'w, 'r) hook list" "('c, 's, 'e, 'w, 'r) hook list"
  | After "'c go_ctx" 's 'e 's "('c, 's, 'e, 'w, 'r) hook list"
  | Ended "('s, 'e, 'r) fsm_error option"

record ('c, 's, 'e, 'w, 'r) fsm_sys =
  fsm :: "('c, 's, 'e, 'w, 'r) fsm"
  world :: 'w
  fplace :: "nat \<Rightarrow> ('c, 's, 'e, 'w, 'r) fsm_place"

datatype ('c, 's, 'e) fsm_label = Begin nat "'c go_ctx" 'e | RunBefore nat | Apply nat | RunAfter nat | Leave nat

fun fsm_step :: "('c, 's, 'e) fsm_label \<Rightarrow> ('c, 's, 'e, 'w, 'r) fsm_sys \<Rightarrow> ('c, 's, 'e, 'w, 'r) fsm_sys option" where
  "fsm_step (Begin g ctx ev) s =
     (case fplace s g of
        Out \<Rightarrow> (case lookup_rule ev (fsm s) of
            Inl err \<Rightarrow> Some (s\<lparr>fplace := (fplace s)(g := Ended (Some err))\<rparr>)
          | Inr t \<Rightarrow> Some (s\<lparr>fplace := (fplace s)(g := Before ctx (current (fsm s)) ev t
              (beforeHooks (fsm s) ev) (afterHooks (fsm s) ev))\<rparr>))
      | _ \<Rightarrow> None)"
| "fsm_step (RunBefore g) s =
     (case fplace s g of
        Before ctx a ev b (h # hs) as \<Rightarrow>
          (case h ctx a ev b (world s) of
             (Some err, w) \<Rightarrow> Some (s\<lparr>world := w, fplace := (fplace s)(g := Ended (Some (BeforeAborted a b err)))\<rparr>)
           | (None, w) \<Rightarrow> Some (s\<lparr>world := w, fplace := (fplace s)(g := Before ctx a ev b hs as)\<rparr>))
      | _ \<Rightarrow> None)"
| "fsm_step (Apply g) s =
     (case fplace s g of
        Before ctx a ev b [] as \<Rightarrow>
          Some (s\<lparr>fsm := (fsm s)\<lparr>current := b\<rparr>, fplace := (fplace s)(g := After ctx a ev b as)\<rparr>)
      | _ \<Rightarrow> None)"
| "fsm_step (RunAfter g) s =
     (case fplace s g of
        After ctx a ev b (h # hs) \<Rightarrow>
          Some (s\<lparr>world := snd (h ctx a ev b (world s)), fplace := (fplace s)(g := After ctx a ev b hs)\<rparr>)
      | After ctx a ev b [] \<Rightarrow> Some (s\<lparr>fplace := (fplace s)(g := Ended None)\<rparr>)
      | _ \<Rightarrow> None)"
| "fsm_step (Leave g) s =
     (case fplace s g of Ended r \<Rightarrow> Some (s\<lparr>fplace := (fplace s)(g := Out)\<rparr>) | _ \<Rightarrow> None)"

text \<open>The labels of an undisturbed call of goroutine \<open>g\<close> with \<open>nb\<close> before- and \<open>na\<close> after-hooks.\<close>

definition call_labels :: "nat \<Rightarrow> 'c go_ctx \<Rightarrow> 'e \<Rightarrow> nat \<Rightarrow> nat \<Rightarrow> ('c, 's, 'e) fsm_label list" where
  "call_labels g ctx ev nb na = Begin g ctx ev # replicate nb (RunBefore g) @ Apply g # replicate (Suc na) (RunAfter g)"

section \<open>Paths of rules\<close>

definition edge :: "('s \<rightharpoonup> ('e \<rightharpoonup> 's)) \<Rightarrow> ('s \<times> 'e \<times> 's) set" where
  "edge m = {(a, ev, b). \<exists>es. m a = Some es \<and> es ev = Some b}"



lemma transition_cases:
  assumes "transition ctx ev (f, w) = (err, f', w')"
  obtains (refused) e where "lookup_rule ev f = Inl e" "err = Some e" "f' = f" "w' = w"
  | (aborted) t e where "lookup_rule ev f = Inr t" "run_before ctx (current f) ev t (beforeHooks f ev) w = (Some e, w')"
      "err = Some (BeforeAborted (current f) t e)" "f' = f"
  | (moved) t v where "lookup_rule ev f = Inr t" "run_before ctx (current f) ev t (beforeHooks f ev) w = (None, v)"
      "err = None" "f' = f\<lparr>current := t\<rparr>" "w' = run_after ctx (current f) ev t (afterHooks f ev) v"
proof (cases "lookup_rule ev f")
  case (Inl e)
  then have "err = Some e \<and> f' = f \<and> w' = w" using assms by (simp add: transition_def)
  with Inl refused show thesis by blast
next
  case (Inr t)
  obtain r v where b: "run_before ctx (current f) ev t (beforeHooks f ev) w = (r, v)" by fastforce
  show thesis
  proof (cases r)
    case None
    then have "err = None \<and> f' = f\<lparr>current := t\<rparr> \<and> w' = run_after ctx (current f) ev t (afterHooks f ev) v"
      using assms Inr b by (auto simp: transition_def)
    with Inr b None moved show thesis by blast
  next
    case (Some e)
    then have "err = Some (BeforeAborted (current f) t e) \<and> f' = f \<and> w' = v"
      using assms Inr b by (auto simp: transition_def)
    with Inr b Some aborted show thesis by blast
  qed
qed




lemma add_rule_edge:
  "(a, ev, b) \<in> edge (add_rule r m) \<longleftrightarrow>
     (if a = From r \<and> ev = Event r then b = To r else (a, ev, b) \<in> edge m)"
  by (auto simp: add_rule_def edge_def split: option.splits)


section \<open>Properties\<close>


definition demo_fsm :: "(unit, nat, nat, nat list, unit) fsm" where
  "demo_fsm = onBefore 1 (\<lambda>ctx a ev b w. (if length w \<ge> 2 then Some () else None, a # w))
     (addRules [\<lparr>From = 0, Event = 1, To = 1\<rparr>, \<lparr>From = 1, Event = 1, To = 2\<rparr>, \<lparr>From = 2, Event = 1, To = 0\<rparr>] (newFSM 0))"

lemmas demo_fsm_defs = demo_fsm_def onBefore_def addRules_def newFSM_def add_rule_def transition_def lookup_rule_def


lemma run_before_steps:
  assumes "fplace s g = Before ctx a ev b hs as" and "run_before ctx a ev b hs (world s) = (None, w)"
  shows "run fsm_step (replicate (length hs) (RunBefore g)) s =
    Some (s\<lparr>world := w, fplace := (fplace s)(g := Before ctx a ev b [] as)\<rparr>)"
  using assms
proof (induction hs arbitrary: s)
  case (Cons h hs)
  obtain v where h: "h ctx a ev b (world s) = (None, v)" and r: "run_before ctx a ev b hs v = (None, w)"
    using Cons.prems(2) by (auto split: prod.splits option.splits)
  let ?s = "s\<lparr>world := v, fplace := (fplace s)(g := Before ctx a ev b hs as)\<rparr>"
  have "run fsm_step (replicate (length hs) (RunBefore g)) ?s =
      Some (s\<lparr>world := w, fplace := (fplace s)(g := Before ctx a ev b [] as)\<rparr>)"
    using Cons.IH [of ?s] r by (simp del: fun_upd_apply add: fun_upd_same)
  with h Cons.prems(1) show ?case by (simp del: fun_upd_apply)
qed (simp add: fun_upd_idem)

lemma run_after_steps:
  assumes "fplace s g = After ctx a ev b hs"
  shows "run fsm_step (replicate (Suc (length hs)) (RunAfter g)) s =
    Some (s\<lparr>world := run_after ctx a ev b hs (world s), fplace := (fplace s)(g := Ended None)\<rparr>)"
  using assms
proof (induction hs arbitrary: s)
  case (Cons h hs)
  let ?s = "s\<lparr>world := snd (h ctx a ev b (world s)), fplace := (fplace s)(g := After ctx a ev b hs)\<rparr>"
  have "run fsm_step (replicate (Suc (length hs)) (RunAfter g)) ?s =
      Some (s\<lparr>world := run_after ctx a ev b (h # hs) (world s), fplace := (fplace s)(g := Ended None)\<rparr>)"
    using Cons.IH [of ?s] by (simp del: fun_upd_apply replicate.simps add: fun_upd_same)
  with Cons.prems show ?case by (simp add: replicate_Suc [of "Suc _"] del: replicate.simps fun_upd_apply)
qed simp

text \<open>
  Refinement: the steps of one successful call, when nothing happens in between, have exactly the
  effect of \<open>transition\<close>.
\<close>

theorem kata_refinement:
  assumes "fplace s g = Out" and "transition ctx ev (fsm s, world s) = (None, f', w')"
    and "nb = length (beforeHooks (fsm s) ev)" and "na = length (afterHooks (fsm s) ev)"
  shows "run fsm_step (call_labels g ctx ev nb na) s = Some (s\<lparr>fsm := f', world := w', fplace := (fplace s)(g := Ended None)\<rparr>)"
  using assms(2)
proof (cases rule: transition_cases)
  case (moved t v)
  let ?a = "current (fsm s)" and ?as = "afterHooks (fsm s) ev"
  let ?s1 = "s\<lparr>fplace := (fplace s)(g := Before ctx ?a ev t (beforeHooks (fsm s) ev) ?as)\<rparr>"
  let ?s2 = "s\<lparr>world := v, fsm := f', fplace := (fplace s)(g := After ctx ?a ev t ?as)\<rparr>"
  have "run fsm_step (replicate nb (RunBefore g)) ?s1 = Some (s\<lparr>world := v, fplace := (fplace s)(g := Before ctx ?a ev t [] ?as)\<rparr>)"
    using run_before_steps [of ?s1 g] moved(2) assms(3) by simp
  moreover have "run fsm_step (replicate (Suc na) (RunAfter g)) ?s2 = Some (s\<lparr>fsm := f', world := w', fplace := (fplace s)(g := Ended None)\<rparr>)"
    using run_after_steps [of ?s2 g] moved(4,5) assms(4) by (simp del: replicate.simps)
  ultimately show ?thesis
    using assms(1) moved(1,4) by (simp add: call_labels_def run_append del: replicate.simps)
qed auto

theorem kata_refinement_witness:
  "map_option (\<lambda>s. (current (fsm s), world s))
     (run fsm_step (call_labels 0 Background 1 1 0) \<lparr>fsm = demo_fsm, world = [], fplace = (\<lambda>_. Out)\<rparr>) = Some (1, [0])"
proof -
  let ?s = "\<lparr>fsm = demo_fsm, world = [], fplace = (\<lambda>_. Out)\<rparr>"
  have t: "transition Background 1 (fsm ?s, world ?s) = (None, demo_fsm\<lparr>current := 1\<rparr>, [0])"
    by (simp add: demo_fsm_defs)
  have "1 = length (beforeHooks (fsm ?s) 1)" "0 = length (afterHooks (fsm ?s) 1)"
    by (simp_all add: demo_fsm_defs)
  from kata_refinement [OF _ t this, of 0] show ?thesis by simp
qed

definition race_fsm :: "(unit, nat, nat, unit, unit) fsm_sys" where
  "race_fsm = \<lparr>fsm = addRules [\<lparr>From = 0, Event = 1, To = 1\<rparr>, \<lparr>From = 0, Event = 2, To = 2\<rparr>] (newFSM 0),
     world = (), fplace = (\<lambda>_. Out)\<rparr>"

text \<open>
  Two calls of \<open>Transition\<close> that interleave are not atomic: from state 0 with rules to 1 and to 2
  only, both succeed, and the second one moves the machine from 1 to 2, for which there is no rule.
\<close>

theorem kata_race:
  "map_option (\<lambda>s. current (fsm s)) (run fsm_step [Begin 0 Background 1, Begin 1 Background 2, Apply 0] race_fsm) = Some 1 \<and>
   map_option (\<lambda>s. (current (fsm s), fplace s 0, fplace s 1))
     (run fsm_step [Begin 0 Background 1, Begin 1 Background 2, Apply 0, Apply 1, RunAfter 0, RunAfter 1] race_fsm)
     = Some (2, Ended None, Ended None) \<and>
   (\<forall>ev. (1, ev, 2) \<notin> edge (rules (fsm race_fsm)))"
  by (simp add: race_fsm_def addRules_def newFSM_def add_rule_def lookup_rule_def edge_def)

end
