(* ===== verification/Scheduler.thy ===== *)
theory Scheduler
  imports Prelude
begin

text \<open>
  \<open>scheduler/task.go\<close>, \<open>scheduler.go\<close>: tasks ordered by time and priority in a binary heap (the
  algorithms of Go's \<open>container/heap\<close> over the package's \<open>Less\<close>, \<open>Swap\<close>, \<open>Push\<close> and \<open>Pop\<close>), the loop of
  \<open>Start\<close> with its wake-up channel, and the rate limiters \<open>Throttle\<close> and \<open>Debounce\<close>. Instants are
  nanoseconds; the heap owns the tasks it holds.
\<close>

section \<open>Tasks and the heap\<close>

record 'f task =
  tid :: string
  priority :: int
  nextRun :: int
  interval :: int
  execute :: "'f option"
  index :: int

definition less :: "'f task \<Rightarrow> 'f task \<Rightarrow> bool" where
  "less a b = (if nextRun a = nextRun b then priority a > priority b else nextRun a < nextRun b)"

definition swap :: "nat \<Rightarrow> nat \<Rightarrow> 'f task list \<Rightarrow> 'f task list" where
  "swap i j h = h[i := (h ! j)\<lparr>index := int i\<rparr>, j := (h ! i)\<lparr>index := int j\<rparr>]"

text \<open>\<open>taskHeap.Push\<close> and \<open>taskHeap.Pop\<close> (of a heap that is not empty).\<close>

definition append_task :: "'f task \<Rightarrow> 'f task list \<Rightarrow> 'f task list" where
  "append_task x h = h @ [x\<lparr>index := int (length h)\<rparr>]"

definition take_last :: "'f task list \<Rightarrow> 'f task \<times> 'f task list" where
  "take_last h = ((last h)\<lparr>index := -1\<rparr>, butlast h)"

text \<open>\<open>container/heap\<close>: sifting up and down, \<open>Push\<close> and \<open>Pop\<close>.\<close>

function up :: "nat \<Rightarrow> 'f task list \<Rightarrow> 'f task list" where
  "up j h = (let i = (j - 1) div 2 in if i = j \<or> \<not> less (h ! j) (h ! i) then h else up i (swap i j h))"
  by auto
termination
  by (relation "measure fst") auto

function down :: "nat \<Rightarrow> nat \<Rightarrow> 'f task list \<Rightarrow> 'f task list" where
  "down i n h =
     (let j1 = 2 * i + 1 in
      if n \<le> j1 then h
      else let j = (if j1 + 1 < n \<and> less (h ! (j1 + 1)) (h ! j1) then j1 + 1 else j1) in
        if \<not> less (h ! j) (h ! i) then h else down j n (swap i j h))"
  by auto
termination
  by (relation "measure (\<lambda>(i, n, h). n - i)") auto

declare up.simps [simp del] down.simps [simp del]

definition push :: "'f task \<Rightarrow> 'f task list \<Rightarrow> 'f task list" where
  "push x h = up (length h) (append_task x h)"

definition pop :: "'f task list \<Rightarrow> 'f task \<times> 'f task list" where
  "pop h = (let n = length h - 1 in take_last (down 0 n (swap 0 n h)))"

section \<open>The order\<close>

definition le :: "'f task \<Rightarrow> 'f task \<Rightarrow> bool" where
  "le a b \<longleftrightarrow> \<not> less b a"

lemma le_iff: "le a b \<longleftrightarrow> nextRun a < nextRun b \<or> nextRun a = nextRun b \<and> priority a \<ge> priority b"
  by (auto simp: le_def less_def)

lemma le_refl [simp]: "le a a"
  by (simp add: le_iff)

lemma le_trans: "le a b \<Longrightarrow> le b c \<Longrightarrow> le a c"
  by (auto simp: le_iff)

lemma less_le: "less a b \<Longrightarrow> le a b"
  by (auto simp: le_iff less_def split: if_splits)

lemma order_index [simp]:
  "less (a\<lparr>index := i\<rparr>) b = less a b" "less a (b\<lparr>index := i\<rparr>) = less a b"
  "le (a\<lparr>index := i\<rparr>) b = le a b" "le a (b\<lparr>index := i\<rparr>) = le a b"
  by (auto simp: less_def le_def)

section \<open>The heap invariant\<close>

definition parent :: "nat \<Rightarrow> nat" where
  "parent k = (k - 1) div 2"

lemma parent_eq: "0 < k \<Longrightarrow> parent k = j \<longleftrightarrow> k = 2 * j + 1 \<or> k = 2 * j + 2"
  unfolding parent_def by presburger

lemma parent_less: "0 < k \<Longrightarrow> parent k < k"
  unfolding parent_def by presburger

definition heap_upto :: "nat \<Rightarrow> 'f task list \<Rightarrow> bool" where
  "heap_upto n h \<longleftrightarrow> (\<forall>k. 0 < k \<and> k < n \<longrightarrow> le (h ! parent k) (h ! k))"

definition indexed :: "'f task list \<Rightarrow> bool" where
  "indexed h \<longleftrightarrow> (\<forall>k < length h. index (h ! k) = int k)"

definition heap_ok :: "'f task list \<Rightarrow> bool" where
  "heap_ok h \<longleftrightarrow> heap_upto (length h) h \<and> indexed h"

text \<open>A task without its place in the heap.\<close>

definition view :: "'f task \<Rightarrow> 'f task" where
  "view t = t\<lparr>index := 0\<rparr>"

lemma view_index [simp]: "view (t\<lparr>index := i\<rparr>) = view t"
  by (simp add: view_def)

lemma view_order [simp]: "le (view a) b = le a b" "le a (view b) = le a b"
  by (simp_all add: view_def)

definition items :: "'f task list \<Rightarrow> 'f task multiset" where
  "items h = mset (map view h)"

lemma length_swap [simp]: "length (swap i j h) = length h"
  by (simp add: swap_def)

lemma nth_swap:
  assumes "i < length h" and "j < length h"
  shows "swap i j h ! k =
    (if k = j then (h ! i)\<lparr>index := int j\<rparr> else if k = i then (h ! j)\<lparr>index := int i\<rparr> else h ! k)"
  using assms by (auto simp: swap_def nth_list_update)

lemma items_swap:
  assumes "i < length h" and "j < length h"
  shows "items (swap i j h) = items h"
proof -
  have "map view (swap i j h) = (map view h)[i := map view h ! j, j := map view h ! i]"
    using assms by (simp add: swap_def map_update)
  moreover have "mset ((map view h)[i := map view h ! j, j := map view h ! i]) = mset (map view h)"
    using assms by (intro mset_swap) simp_all
  ultimately show ?thesis
    unfolding items_def by (simp only:)
qed

lemma indexed_swap: "i < length h \<Longrightarrow> j < length h \<Longrightarrow> indexed h \<Longrightarrow> indexed (swap i j h)"
  by (auto simp: indexed_def nth_swap)

lemma heap_top:
  assumes "heap_upto n h" and "k < n"
  shows "le (h ! 0) (h ! k)"
  using assms(2)
proof (induction k rule: less_induct)
  case (less k)
  show ?case
  proof (cases "k = 0")
    case False
    then have "le (h ! parent k) (h ! k)" using assms(1) less.prems by (simp add: heap_upto_def)
    moreover have "le (h ! 0) (h ! parent k)"
      using less.IH [of "parent k"] parent_less [of k] less.prems False by simp
    ultimately show ?thesis by (blast intro: le_trans)
  qed simp
qed

section \<open>Sifting up\<close>

definition up_pre :: "nat \<Rightarrow> 'f task list \<Rightarrow> bool" where
  "up_pre j h \<longleftrightarrow> j < length h \<and>
     (\<forall>k. 0 < k \<and> k < length h \<and> k \<noteq> j \<longrightarrow> le (h ! parent k) (h ! k)) \<and>
     (\<forall>k. 0 < k \<and> k < length h \<and> parent k = j \<and> 0 < j \<longrightarrow> le (h ! parent j) (h ! k))"

lemma up_pre_step:
  assumes P: "up_pre j h" and "0 < j" and "less (h ! j) (h ! parent j)"
  shows "up_pre (parent j) (swap (parent j) j h)"
proof -
  let ?i = "parent j"
  have i: "?i < j" "j < length h" using P assms(2) parent_less by (auto simp: up_pre_def)
  note nth = nth_swap [of ?i h j]
  have A: "le (h ! parent k) (h ! k)" if "0 < k" "k < length h" "k \<noteq> j" for k
    using P that by (simp add: up_pre_def)
  have B: "le (h ! ?i) (h ! k)" if "0 < k" "k < length h" "parent k = j" for k
    using P that assms(2) by (simp add: up_pre_def)
  have ji: "le (h ! j) (h ! ?i)" using assms(3) by (rule less_le)
  have "le (swap ?i j h ! parent k) (swap ?i j h ! k)" if k: "0 < k" "k < length h" "k \<noteq> ?i" for k
  proof (cases "k = j")
    case True
    with i ji show ?thesis by (simp add: nth)
  next
    case False
    show ?thesis
    proof (cases "parent k = j")
      case True
      with B [OF k(1,2)] i False k(3) show ?thesis by (simp add: nth)
    next
      case pj: False
      show ?thesis
      proof (cases "parent k = ?i")
        case True
        from A [OF k(1,2) False] True ji have "le (h ! j) (h ! k)" by (auto intro: le_trans)
        with True False i k(3) pj show ?thesis by (simp add: nth)
      next
        case npi: False
        with pj False i k A [OF k(1,2) False] show ?thesis by (simp add: nth)
      qed
    qed
  qed
  moreover have "le (swap ?i j h ! parent ?i) (swap ?i j h ! k)"
    if k: "0 < k" "k < length h" "parent k = ?i" "0 < ?i" for k
  proof -
    have pi: "parent ?i < ?i" using k(4) by (rule parent_less)
    have top: "le (h ! parent ?i) (h ! ?i)" using A [OF k(4)] i by simp
    show ?thesis
    proof (cases "k = j")
      case True
      with top pi i show ?thesis by (simp add: nth)
    next
      case False
      have "k \<noteq> ?i" using k(1,3) parent_less [OF k(1)] by auto
      moreover have "le (h ! parent ?i) (h ! k)"
        using top A [OF k(1,2) False] k(3) by (auto intro: le_trans)
      ultimately show ?thesis using False pi i by (simp add: nth)
    qed
  qed
  ultimately show ?thesis
    using i by (simp add: up_pre_def)
qed

lemma up_ok:
  assumes "up_pre j h" and "indexed h"
  shows "heap_ok (up j h) \<and> items (up j h) = items h \<and> length (up j h) = length h"
  using assms
proof (induction j h rule: up.induct)
  case (1 j h)
  let ?i = "(j - 1) div 2"
  show ?case
  proof (cases "?i = j \<or> \<not> less (h ! j) (h ! ?i)")
    case True
    then have u: "up j h = h" by (simp add: up.simps [of j] Let_def)
    have "le (h ! parent k) (h ! k)" if "0 < k" "k < length h" for k
    proof (cases "k = j")
      case False
      with 1(2) that show ?thesis by (simp add: up_pre_def)
    next
      case kj: True
      with True that show ?thesis by (auto simp: parent_def le_def)
    qed
    with 1(3) show ?thesis by (simp add: u heap_ok_def heap_upto_def)
  next
    case False
    then have j: "0 < j" "less (h ! j) (h ! parent j)" by (auto simp: parent_def intro: gr0I)
    then have u: "up j h = up ?i (swap ?i j h)"
      using False by (simp add: up.simps [of j] Let_def)
    have len: "j < length h" "?i < length h" using 1(2) by (auto simp: up_pre_def)
    from 1(1) [OF refl False] up_pre_step [OF 1(2) j] indexed_swap [OF len(2,1) 1(3)] items_swap [OF len(2,1)]
    show ?thesis by (simp add: u parent_def)
  qed
qed

lemma push_ok:
  assumes "heap_ok h"
  shows "heap_ok (push x h)" "items (push x h) = add_mset (view x) (items h)"
proof -
  let ?h = "append_task x h"
  have nth: "?h ! k = h ! k" if "k < length h" for k using that by (simp add: append_task_def nth_append)
  have len: "length ?h = Suc (length h)" by (simp add: append_task_def)
  have "le (?h ! parent k) (?h ! k)" if "0 < k" "k < length h" for k
    using assms that parent_less [of k] by (simp add: heap_ok_def heap_upto_def nth)
  moreover have "parent k \<noteq> length h" if "0 < k" "k < Suc (length h)" for k
    using parent_less [OF that(1)] that(2) by simp
  ultimately have "up_pre (length h) ?h"
    unfolding up_pre_def len by (blast elim: less_SucE)
  moreover have "indexed ?h"
    using assms by (auto simp: heap_ok_def indexed_def append_task_def nth_append less_Suc_eq)
  ultimately show "heap_ok (push x h)" "items (push x h) = add_mset (view x) (items h)"
    using up_ok [of "length h" ?h] by (auto simp: push_def items_def append_task_def)
qed

section \<open>Sifting down\<close>

definition down_pre :: "nat \<Rightarrow> nat \<Rightarrow> 'f task list \<Rightarrow> bool" where
  "down_pre i n h \<longleftrightarrow> n \<le> length h \<and>
     (\<forall>k. 0 < k \<and> k < n \<and> parent k \<noteq> i \<longrightarrow> le (h ! parent k) (h ! k)) \<and>
     (\<forall>k. 0 < k \<and> k < n \<and> parent k = i \<and> 0 < i \<longrightarrow> le (h ! parent i) (h ! k))"

text \<open>The smaller child.\<close>

definition child :: "nat \<Rightarrow> nat \<Rightarrow> 'f task list \<Rightarrow> nat" where
  "child i n h = (if 2 * i + 2 < n \<and> less (h ! (2 * i + 2)) (h ! (2 * i + 1)) then 2 * i + 2 else 2 * i + 1)"

lemma child_min:
  assumes "2 * i + 1 < n" and "0 < k" and "k < n" and "parent k = i"
  shows "le (h ! child i n h) (h ! k)"
proof -
  from assms(2,4) have "k = 2 * i + 1 \<or> k = 2 * i + 2" by (simp add: parent_eq)
  with assms(3) show ?thesis
    by (auto simp: child_def le_def [symmetric] intro: less_le)
qed

lemma child_props:
  assumes "2 * i + 1 < n"
  shows "child i n h < n" "i < child i n h" "parent (child i n h) = i" "0 < child i n h"
  using assms by (auto simp: child_def parent_def)

lemma down_simps:
  "down i n h = (if n \<le> 2 * i + 1 \<or> \<not> less (h ! child i n h) (h ! i) then h
    else down (child i n h) n (swap i (child i n h) h))"
  by (subst down.simps) (simp add: Let_def child_def)

lemma down_pre_step:
  assumes P: "down_pre i n h" and "2 * i + 1 < n" and "less (h ! child i n h) (h ! i)"
  shows "down_pre (child i n h) n (swap i (child i n h) h)"
proof -
  let ?j = "child i n h"
  note c = child_props [OF assms(2), of h]
  have len: "i < length h" "?j < length h" "n \<le> length h" using P c by (auto simp: down_pre_def)
  note nth = nth_swap [OF len(1,2)]
  have A: "le (h ! parent k) (h ! k)" if "0 < k" "k < n" "parent k \<noteq> i" for k
    using P that by (simp add: down_pre_def)
  have ji: "le (h ! ?j) (h ! i)" using assms(3) by (rule less_le)
  have "le (swap i ?j h ! parent k) (swap i ?j h ! k)" if k: "0 < k" "k < n" "parent k \<noteq> ?j" for k
  proof (cases "k = ?j")
    case True
    with c ji show ?thesis by (simp add: nth)
  next
    case kj: False
    show ?thesis
    proof (cases "parent k = i")
      case True
      have "k \<noteq> i" using parent_less [OF k(1)] True by auto
      with True kj c child_min [OF assms(2) k(1,2) True, of h] show ?thesis by (simp add: nth)
    next
      case pi: False
      show ?thesis
      proof (cases "k = i")
        case True
        with k(1) have "le (h ! parent i) (h ! ?j)"
          using P c by (auto simp: down_pre_def)
        moreover have "parent i \<noteq> i" using True k(1) parent_less [of i] by auto
        ultimately show ?thesis using True k(3) c(2) by (simp add: nth)
      next
        case False
        with kj pi k A [OF k(1,2) pi] show ?thesis by (simp add: nth)
      qed
    qed
  qed
  moreover have "le (swap i ?j h ! parent ?j) (swap i ?j h ! k)" if k: "0 < k" "k < n" "parent k = ?j" for k
  proof -
    have "?j < k" using parent_less [OF k(1)] k(3) by simp
    then show ?thesis
      using A [OF k(1,2)] k(3) c by (simp add: nth)
  qed
  ultimately show ?thesis
    using len(3) by (simp add: down_pre_def)
qed

lemma down_ok:
  assumes "down_pre i n h" and "indexed h"
  shows "heap_upto n (down i n h) \<and> indexed (down i n h) \<and> items (down i n h) = items h \<and>
    length (down i n h) = length h \<and> (\<forall>k \<ge> n. down i n h ! k = h ! k)"
  using assms
proof (induction "n - i" arbitrary: i h rule: less_induct)
  case less
  show ?case
  proof (cases "n \<le> 2 * i + 1 \<or> \<not> less (h ! child i n h) (h ! i)")
    case True
    then have d: "down i n h = h" by (simp add: down_simps)
    have "le (h ! parent k) (h ! k)" if k: "0 < k" "k < n" for k
    proof (cases "parent k = i")
      case False
      with less.prems(1) k show ?thesis by (simp add: down_pre_def)
    next
      case pi: True
      then have "2 * i + 1 < n" using k by (auto simp: parent_eq)
      with True child_min [OF this k pi, of h] pi show ?thesis
        by (auto simp: le_def [symmetric] intro: le_trans)
    qed
    with less.prems(2) show ?thesis by (simp add: d heap_upto_def)
  next
    case False
    let ?j = "child i n h"
    from False have n: "2 * i + 1 < n" and l: "less (h ! ?j) (h ! i)" by auto
    have d: "down i n h = down ?j n (swap i ?j h)" using False by (subst down_simps) simp
    note c = child_props [OF n, of h]
    have len: "i < length h" "?j < length h" using less.prems(1) c by (auto simp: down_pre_def)
    have "n - ?j < n - i" using c by auto
    from less.hyps [OF this down_pre_step [OF less.prems(1) n l] indexed_swap [OF len less.prems(2)]]
      items_swap [OF len] c(1,2)
    show ?thesis by (simp add: d nth_swap [OF len])
  qed
qed

lemma pop_ok:
  assumes "heap_ok h" and "h \<noteq> []" and "pop h = (x, h')"
  shows "heap_ok h'" "items h = add_mset (view x) (items h')" "\<forall>y \<in># items h'. le x y" "index x = -1"
    "view x = view (h ! 0)" "length h = Suc (length h')"
proof -
  define n where "n = length h - 1"
  have len: "length h = Suc n" using assms(2) by (cases h) (auto simp: n_def)
  let ?s = "swap 0 n h" and ?d = "down 0 n (swap 0 n h)"
  have bound: "0 < length h" "n < length h" using len by auto
  note nth = nth_swap [OF bound]
  have "le (?s ! parent k) (?s ! k)" if "0 < k" "k < n" "parent k \<noteq> 0" for k
    using assms(1) that parent_less [of k] len by (simp add: nth heap_ok_def heap_upto_def)
  then have "down_pre 0 n ?s" using len by (simp add: down_pre_def)
  moreover have "indexed ?s" using assms(1) indexed_swap [OF bound] by (simp add: heap_ok_def)
  ultimately have d: "heap_upto n ?d" "indexed ?d" "items ?d = items ?s" "length ?d = length h" "?d ! n = ?s ! n"
    using down_ok [of 0 n ?s] by auto
  have pop_is: "pop h = take_last ?d" by (simp add: pop_def n_def Let_def)
  have ne: "?d \<noteq> []" using d(4) len by auto
  have lst: "last ?d = (h ! 0)\<lparr>index := int n\<rparr>"
    using d(4,5) len ne by (simp add: last_conv_nth nth)
  have x: "x = (h ! 0)\<lparr>index := -1\<rparr>" and h': "h' = butlast ?d"
    using assms(3) lst by (auto simp: pop_is take_last_def)
  have h'len: "length h' = n" using h' d(4) len by simp
  have h'nth: "h' ! k = ?d ! k" if "k < n" for k
    using that h' d(4) len by (simp add: nth_butlast)
  have "le (h' ! parent k) (h' ! k)" if "0 < k" "k < n" for k
    using d(1) that parent_less [of k] by (simp add: heap_upto_def h'nth)
  moreover have "index (h' ! k) = int k" if "k < n" for k
    using d(2,4) that len by (simp add: indexed_def h'nth)
  ultimately show "heap_ok h'" by (simp add: heap_ok_def heap_upto_def indexed_def h'len)
  have "items ?d = add_mset (view (last ?d)) (items h')"
  proof -
    have "items (butlast ?d @ [last ?d]) = add_mset (view (last ?d)) (items h')"
      by (simp add: items_def h')
    then show ?thesis by (simp only: append_butlast_last_id [OF ne])
  qed
  then show it: "items h = add_mset (view x) (items h')"
    using d(3) items_swap [OF bound] lst x by simp
  show "\<forall>y \<in># items h'. le x y"
  proof
    fix y
    assume "y \<in># items h'"
    then have "y \<in># items h" using it by simp
    then obtain k where "k < length h" "y = view (h ! k)"
      by (auto simp: items_def in_set_conv_nth)
    with heap_top [of "length h" h k] assms(1) x show "le x y" by (simp add: heap_ok_def)
  qed
  show "index x = -1" "view x = view (h ! 0)" "length h = Suc (length h')"
    using x len h'len by auto
qed

section \<open>Priority queues\<close>

text \<open>
  What the scheduler relies on: \<open>push\<close> adds an item, \<open>pop\<close> takes a least one. \<open>see\<close> abstracts from the
  bookkeeping a queue keeps inside its elements.
\<close>

fun drain :: "('q \<Rightarrow> 'a \<times> 'q) \<Rightarrow> nat \<Rightarrow> 'q \<Rightarrow> 'a list" where
  "drain pp 0 q = []"
| "drain pp (Suc n) q = (case pp q of (x, q') \<Rightarrow> x # drain pp n q')"

locale priority_queue =
  fixes before :: "'a \<Rightarrow> 'a \<Rightarrow> bool"
    and see :: "'a \<Rightarrow> 'a"
    and invar :: "'q \<Rightarrow> bool"
    and content :: "'q \<Rightarrow> 'a multiset"
    and enqueue :: "'a \<Rightarrow> 'q \<Rightarrow> 'q"
    and dequeue :: "'q \<Rightarrow> 'a \<times> 'q"
  assumes before_see: "before a (see b) \<longleftrightarrow> before a b"
    and enqueue_law: "invar q \<Longrightarrow> invar (enqueue x q) \<and> content (enqueue x q) = add_mset (see x) (content q)"
    and dequeue_law: "invar q \<Longrightarrow> content q \<noteq> {#} \<Longrightarrow> dequeue q = (x, q') \<Longrightarrow>
      invar q' \<and> content q = add_mset (see x) (content q') \<and> (\<forall>y \<in># content q'. before x y)"
begin

lemma enqueue_all:
  "invar q \<Longrightarrow> invar (fold enqueue xs q) \<and> content (fold enqueue xs q) = content q + mset (map see xs)"
  by (induction xs arbitrary: q) (auto simp: enqueue_law)

lemma drain_sorted:
  "invar q \<Longrightarrow> n = size (content q) \<Longrightarrow>
    sorted_wrt before (drain dequeue n q) \<and> mset (map see (drain dequeue n q)) = content q"
proof (induction n arbitrary: q)
  case (Suc n)
  obtain x q' where d: "dequeue q = (x, q')" by fastforce
  from Suc.prems have "content q \<noteq> {#}" by auto
  from dequeue_law [OF Suc.prems(1) this d]
  have q': "invar q'" "content q = add_mset (see x) (content q')" "\<forall>y \<in># content q'. before x y" by auto
  with Suc.prems(2) have "n = size (content q')" by simp
  from Suc.IH [OF q'(1) this]
  have IH: "sorted_wrt before (drain dequeue n q')" "mset (map see (drain dequeue n q')) = content q'" by auto
  have "before x y" if "y \<in> set (drain dequeue n q')" for y
  proof -
    have "see y \<in># mset (map see (drain dequeue n q'))" using that by simp
    with IH(2) q'(3) have "before x (see y)" by simp
    then show ?thesis by (simp add: before_see)
  qed
  with IH q'(2) d show ?case by simp
qed simp

end

lemma heap_ok_empty: "heap_ok []"
  by (simp add: heap_ok_def heap_upto_def indexed_def)

lemma items_empty: "items h = {#} \<longleftrightarrow> h = []"
  by (simp add: items_def)

interpretation heap: priority_queue le view heap_ok items push pop
proof unfold_locales
  show "le a (view b) \<longleftrightarrow> le a b" for a b :: "'f task"
    by simp
next
  fix h :: "'f task list" and x
  assume "heap_ok h"
  then show "heap_ok (push x h) \<and> items (push x h) = add_mset (view x) (items h)"
    using push_ok by blast
next
  fix h h' :: "'f task list" and x
  assume "heap_ok h" "items h \<noteq> {#}" "pop h = (x, h')"
  then show "heap_ok h' \<and> items h = add_mset (view x) (items h') \<and> (\<forall>y \<in># items h'. le x y)"
    using pop_ok [of h x h'] by (auto simp: items_empty)
qed

section \<open>The scheduler\<close>

text \<open>\<open>ReleaseTask\<close>: priority and time stay.\<close>

definition release_task :: "'f task \<Rightarrow> 'f task" where
  "release_task t = t\<lparr>tid := [], execute := None, interval := 0, index := -1\<rparr>"

text \<open>
  The loop of \<open>Start\<close> is at its top, sleeps on an empty queue, sleeps until an instant, or has
  returned. \<open>waking\<close> counts the goroutines that pushed a task and are about to call \<open>triggerWake\<close>;
  \<open>dispatched\<close> logs the tasks that were started, with the time.
\<close>

datatype loop_place = AtTop | AsleepEmpty | AsleepUntil int | Stopped

record 'f sched =
  tasks :: "'f task list"
  wake :: bool
  clock :: int
  lplace :: loop_place
  waking :: nat
  running :: "'f task list"
  taskPool :: "'f task list"
  dispatched :: "(int \<times> 'f task) list"
  cancelled :: bool

definition sched_start :: "'f sched" where
  "sched_start = \<lparr>tasks = [], wake = False, clock = 0, lplace = AtTop, waking = 0, running = [], taskPool = [],
     dispatched = [], cancelled = False\<rparr>"

definition schedule :: "'f task \<Rightarrow> 'f sched \<Rightarrow> 'f sched" where
  "schedule t s = s\<lparr>tasks := push t (tasks s), waking := Suc (waking s)\<rparr>"

text \<open>One turn of the loop, from its top to a sleep, a dispatch or the return.\<close>

definition turn :: "'f sched \<Rightarrow> 'f sched" where
  "turn s =
     (if cancelled s then s\<lparr>lplace := Stopped\<rparr>
      else if tasks s = [] then s\<lparr>lplace := AsleepEmpty\<rparr>
      else if clock s < nextRun (tasks s ! 0)
        then s\<lparr>lplace := AsleepUntil (clock s + time_sub (nextRun (tasks s ! 0)) (clock s))\<rparr>
      else case pop (tasks s) of (t, h) \<Rightarrow>
        s\<lparr>tasks := h, running := running s @ [t], dispatched := dispatched s @ [(clock s, t)]\<rparr>)"

text \<open>The end of \<open>runTask\<close> of the task at position \<open>i\<close> of the running ones.\<close>

definition finish_task :: "nat \<Rightarrow> 'f sched \<Rightarrow> 'f sched" where
  "finish_task i s =
     (let t = running s ! i; s' = s\<lparr>running := take i (running s) @ drop (Suc i) (running s)\<rparr> in
      if interval t > 0 then schedule (t\<lparr>nextRun := clock s + interval t\<rparr>) s'
      else s'\<lparr>taskPool := release_task t # taskPool s\<rparr>)"

datatype 'f sched_label =
    Schedule "'f task" | Signal | Tick nat | Turn | WakeUp | Alarm | Cancel | Quit | Done nat

fun sched_step :: "'f sched_label \<Rightarrow> 'f sched \<Rightarrow> 'f sched option" where
  "sched_step (Schedule t) s = Some (schedule t s)"
| "sched_step Signal s = (case waking s of 0 \<Rightarrow> None | Suc n \<Rightarrow> Some (s\<lparr>waking := n, wake := True\<rparr>))"
| "sched_step (Tick d) s = Some (s\<lparr>clock := clock s + int d\<rparr>)"
| "sched_step Turn s = (if lplace s = AtTop then Some (turn s) else None)"
| "sched_step WakeUp s =
     (case lplace s of
        AsleepEmpty \<Rightarrow> if wake s then Some (s\<lparr>wake := False, lplace := AtTop\<rparr>) else None
      | AsleepUntil d \<Rightarrow> if wake s then Some (s\<lparr>wake := False, lplace := AtTop\<rparr>) else None
      | _ \<Rightarrow> None)"
| "sched_step Alarm s =
     (case lplace s of AsleepUntil d \<Rightarrow> if d \<le> clock s then Some (s\<lparr>lplace := AtTop\<rparr>) else None | _ \<Rightarrow> None)"
| "sched_step Cancel s = Some (s\<lparr>cancelled := True\<rparr>)"
| "sched_step Quit s =
     (case lplace s of
        AsleepEmpty \<Rightarrow> if cancelled s then Some (s\<lparr>lplace := Stopped\<rparr>) else None
      | AsleepUntil d \<Rightarrow> if cancelled s then Some (s\<lparr>lplace := Stopped\<rparr>) else None
      | _ \<Rightarrow> None)"
| "sched_step (Done i) s = (if i < length (running s) then Some (finish_task i s) else None)"

lemmas sched_defs = sched_start_def schedule_def turn_def finish_task_def release_task_def

text \<open>The loop never sleeps past the time of the first task, unless a wake-up is on its way.\<close>

definition sched_inv :: "'f sched \<Rightarrow> bool" where
  "sched_inv s \<longleftrightarrow> heap_ok (tasks s) \<and> (\<forall>(c, t) \<in> set (dispatched s). nextRun t \<le> c) \<and>
     (tasks s \<noteq> [] \<longrightarrow> wake s \<or> waking s > 0 \<or>
        (case lplace s of AsleepEmpty \<Rightarrow> False | AsleepUntil d \<Rightarrow> d \<le> nextRun (tasks s ! 0) | _ \<Rightarrow> True))"

lemma sched_inv_schedule:
  "heap_ok (tasks s) \<Longrightarrow> (\<forall>(c, t) \<in> set (dispatched s). nextRun t \<le> c) \<Longrightarrow> sched_inv (schedule t s)"
  by (auto simp: sched_inv_def schedule_def push_ok)

lemma turn_dispatch:
  assumes "sched_inv s" and "lplace s = AtTop" and "dispatched (turn s) \<noteq> dispatched s"
  obtains t where "dispatched (turn s) = dispatched s @ [(clock s, t)]" "nextRun t \<le> clock s"
    "items (tasks s) = add_mset (view t) (items (tasks (turn s)))" "\<forall>y \<in># items (tasks (turn s)). le t y"
    "heap_ok (tasks (turn s))"
proof -
  obtain t h where p: "pop (tasks s) = (t, h)" by fastforce
  from assms(3) have ne: "tasks s \<noteq> []" "\<not> clock s < nextRun (tasks s ! 0)" "\<not> cancelled s"
    by (auto simp: turn_def split: if_splits)
  have ok: "heap_ok (tasks s)" using assms(1) by (simp add: sched_inv_def)
  note P = pop_ok [OF ok ne(1) p]
  have "nextRun t = nextRun (tasks s ! 0)" using P(5) unfolding view_def by (cases t, cases "tasks s ! 0") simp
  with P ne p show thesis by (intro that [of t]) (auto simp: turn_def)
qed

lemma sched_inv_step:
  assumes I: "sched_inv s" and "sched_step l s = Some t"
  shows "sched_inv t"
proof (cases l)
  case (Schedule x)
  with assms(2) have "t = schedule x s" by simp
  with I sched_inv_schedule [of s x] show ?thesis by (simp add: sched_inv_def)
next
  case Turn
  with assms(2) have t: "t = turn s" "lplace s = AtTop" by (auto split: if_splits)
  show ?thesis
  proof (cases "dispatched (turn s) = dispatched s")
    case True
    then have "turn s = s\<lparr>lplace := Stopped\<rparr> \<or> turn s = s\<lparr>lplace := AsleepEmpty\<rparr> \<and> tasks s = [] \<or>
        turn s = s\<lparr>lplace := AsleepUntil (clock s + time_sub (nextRun (tasks s ! 0)) (clock s))\<rparr> \<and> clock s < nextRun (tasks s ! 0)"
      by (auto simp: turn_def split: if_splits prod.splits)
    moreover have "clock s + time_sub (nextRun (tasks s ! 0)) (clock s) \<le> nextRun (tasks s ! 0)" if "clock s < nextRun (tasks s ! 0)"
      using that by (auto simp: time_sub_def min_dur_def max_dur_def)
    ultimately show ?thesis using I unfolding t by (auto simp: sched_inv_def)
  next
    case False
    then obtain x where x: "dispatched (turn s) = dispatched s @ [(clock s, x)]" "nextRun x \<le> clock s" "heap_ok (tasks (turn s))"
      using turn_dispatch [OF I t(2)] by metis
    moreover have "lplace (turn s) = AtTop" using False t(2) by (auto simp: turn_def split: if_splits prod.splits)
    ultimately show ?thesis using I unfolding t by (auto simp: sched_inv_def)
  qed
next
  case (Done i)
  with assms show ?thesis
    by (auto simp: sched_inv_def finish_task_def schedule_def Let_def push_ok split: if_splits loop_place.splits)
qed (use assms in \<open>auto simp: sched_inv_def split: nat.splits loop_place.splits if_splits\<close>)

lemma sched_inv_start: "sched_inv sched_start"
  by (simp add: sched_inv_def sched_start_def heap_ok_empty)

interpretation scheduler: inductive_invariant "(=) sched_start" "labelled sched_step" sched_inv
  by unfold_locales (auto simp: labelled_def intro: sched_inv_start sched_inv_step)

abbreviation sched_reach :: "'f sched \<Rightarrow> bool" where
  "sched_reach \<equiv> reach ((=) sched_start) (labelled sched_step)"

lemma sched_reach_run: "run sched_step ls sched_start = Some s \<Longrightarrow> sched_reach s"
  by (rule reach_run) (auto intro: reach_start)

section \<open>Rate limiters\<close>

text \<open>The zero \<open>time.Time\<close>, in nanoseconds from 1970.\<close>

definition zero_time :: int where
  "zero_time = - 62135596800 * 10 ^ 9"

text \<open>One call of the throttled function: does \<open>fn\<close> run, and the new \<open>lastRun\<close>.\<close>

definition throttle :: "int \<Rightarrow> int \<Rightarrow> int \<Rightarrow> bool \<times> int" where
  "throttle ivl now lastRun = (if time_sub now lastRun \<ge> ivl then (True, now) else (False, lastRun))"

text \<open>The times at which \<open>fn\<close> runs, for calls at the given times.\<close>

fun throttled :: "int \<Rightarrow> int \<Rightarrow> int list \<Rightarrow> int list" where
  "throttled ivl lastRun [] = []"
| "throttled ivl lastRun (now # nows) =
     (case throttle ivl now lastRun of
        (True, l) \<Rightarrow> now # throttled ivl l nows
      | (False, l) \<Rightarrow> throttled ivl l nows)"

text \<open>The debounced function: the deadline of its timer, restarted by every call; the timer fires.\<close>

definition debounce :: "int \<Rightarrow> int \<Rightarrow> int option \<Rightarrow> int option" where
  "debounce ivl now timer = Some (now + ivl)"

text \<open>The times at which \<open>fn\<close> runs: after the last call before a pause of at least the interval.\<close>

fun debounced :: "int \<Rightarrow> int option \<Rightarrow> int list \<Rightarrow> int list" where
  "debounced ivl timer [] = (case timer of None \<Rightarrow> [] | Some d \<Rightarrow> [d])"
| "debounced ivl timer (now # nows) =
     (case timer of
        None \<Rightarrow> debounced ivl (debounce ivl now timer) nows
      | Some d \<Rightarrow> if d \<le> now then d # debounced ivl (debounce ivl now None) nows
                  else debounced ivl (debounce ivl now timer) nows)"

lemma throttled_spacing:
  assumes "0 < ivl"
  shows "sorted_wrt (\<lambda>a b. a + ivl \<le> b) (throttled ivl l nows) \<and>
    (\<forall>b \<in> set (throttled ivl l nows). ivl \<le> time_sub b l)"
proof (induction nows arbitrary: l)
  case (Cons now nows)
  show ?case
  proof (cases "time_sub now l \<ge> ivl")
    case True
    have gap: "a + ivl \<le> b" if "ivl \<le> time_sub b a" for a b
      using that assms by (auto simp: time_sub_def min_dur_def max_dur_def)
    have "ivl \<le> time_sub b l" if "b \<in> set (throttled ivl now nows)" for b
    proof -
      from Cons.IH [of now] that have "now + ivl \<le> b" by (auto intro: gap)
      with True gap [OF True] assms show ?thesis by (auto simp: time_sub_def min_dur_def max_dur_def)
    qed
    with True Cons.IH [of now] show ?thesis
      by (auto simp: throttle_def intro: gap)
  next
    case False
    with Cons.IH [of l] show ?thesis by (simp add: throttle_def)
  qed
qed simp

lemma debounced_sound:
  assumes "x \<in> set (debounced ivl timer nows)"
  shows "timer = Some x \<or> (\<exists>now \<in> set nows. x = now + ivl)"
  using assms by (induction ivl timer nows rule: debounced.induct) (auto simp: debounce_def split: option.splits if_splits)

section \<open>Properties\<close>

text \<open>
  C10 (functional): Pushing any tasks in any order and popping as many again yields exactly these tasks, sorted by
  time and, at equal times, by descending priority.
\<close>

theorem scheduler_order:
  "sorted_wrt (\<lambda>a b. nextRun a < nextRun b \<or> nextRun a = nextRun b \<and> priority a \<ge> priority b)
     (drain pop (length ts) (fold push ts [])) \<and>
   mset (map view (drain pop (length ts) (fold push ts []))) = mset (map view ts)"
proof -
  from heap.enqueue_all [OF heap_ok_empty, of ts]
  have "heap_ok (fold push ts [])" "items (fold push ts []) = mset (map view ts)" by (auto simp: items_def)
  with heap.drain_sorted [of "fold push ts []" "length ts"] show ?thesis by (simp add: le_iff [abs_def])
qed

text \<open>
  C30 (safety): A turn of the loop that starts a task starts one that is due, and a least one of the queue; the
  rest of the queue is unchanged. No task was ever started before its time.
\<close>

theorem scheduler_dispatch:
  assumes "sched_reach s" and "sched_step Turn s = Some s'" and "dispatched s' = dispatched s @ [(c, t)]"
  shows "c = clock s \<and> nextRun t \<le> c \<and> items (tasks s) = add_mset (view t) (items (tasks s')) \<and>
    (\<forall>y \<in># items (tasks s'). le t y) \<and> (\<forall>(d, x) \<in> set (dispatched s). nextRun x \<le> d)"
proof -
  note I = scheduler.inv_reachable [OF assms(1)]
  from assms(2) have t: "s' = turn s" "lplace s = AtTop" by (auto split: if_splits)
  with assms(3) have "dispatched (turn s) \<noteq> dispatched s" by simp
  from turn_dispatch [OF I t(2) this] assms(3) I show ?thesis
    unfolding t sched_inv_def by (metis last_snoc prod.inject)
qed

definition demo_task :: "int \<Rightarrow> int \<Rightarrow> unit task" where
  "demo_task p n = \<lparr>tid = [], priority = p, nextRun = n, interval = 0, execute = None, index = -1\<rparr>"

theorem scheduler_dispatch_witness:
  "case run sched_step [Schedule (demo_task 0 5), Schedule (demo_task 2 5), Schedule (demo_task 1 3), Tick 5] sched_start of
     None \<Rightarrow> False
   | Some s \<Rightarrow> map_option (\<lambda>s'. dispatched s') (sched_step Turn s) = Some [(5, demo_task 1 3)] \<and>
       (\<forall>y \<in># items (tasks (turn s)). le (demo_task 1 3) y)"
proof -
  let ?ls = "[Schedule (demo_task 0 5), Schedule (demo_task 2 5), Schedule (demo_task 1 3), Tick 5]"
  have "\<exists>s s'. run sched_step ?ls sched_start = Some s \<and> sched_step Turn s = Some s' \<and>
      dispatched s = [] \<and> dispatched s' = [(5, demo_task 1 3)]"
    by (simp add: sched_defs demo_task_def push_def pop_def up.simps down.simps append_task_def take_last_def swap_def less_def)
  then obtain s s' where s: "run sched_step ?ls sched_start = Some s" "sched_step Turn s = Some s'"
      "dispatched s = []" "dispatched s' = [(5, demo_task 1 3)]" by blast
  moreover have "s' = turn s" using s(2) by (auto split: if_splits)
  ultimately show ?thesis
    using scheduler_dispatch [OF sched_reach_run [OF s(1)] s(2), of 5 "demo_task 1 3"] by simp
qed

text \<open>
  C32 (liveness): No lost wake-up: whenever the first task is due while the loop sleeps, the wake-up channel is
  ready, or a goroutine is about to make it ready, or the loop's timer fires.
\<close>

theorem scheduler_wakes:
  assumes "sched_reach s" and "tasks s \<noteq> []" and "nextRun (tasks s ! 0) \<le> clock s"
    and "lplace s = AsleepEmpty \<or> lplace s = AsleepUntil d"
  shows "sched_step WakeUp s \<noteq> None \<or> sched_step Signal s \<noteq> None \<or> sched_step Alarm s \<noteq> None"
proof -
  have "sched_inv s" by (rule scheduler.inv_reachable [OF assms(1)])
  with assms(2-4) show ?thesis
    by (cases "waking s") (auto simp: sched_inv_def)
qed

theorem scheduler_wakes_witness:
  "case run sched_step [Turn, Schedule (demo_task 0 0)] sched_start of None \<Rightarrow> False
   | Some s \<Rightarrow> lplace s = AsleepEmpty \<and> sched_step WakeUp s = None \<and> sched_step Alarm s = None \<and> sched_step Signal s \<noteq> None"
proof -
  let ?ls = "[Turn, Schedule (demo_task 0 0)]"
  have "\<exists>s. run sched_step ?ls sched_start = Some s \<and> tasks s \<noteq> [] \<and> nextRun (tasks s ! 0) \<le> clock s \<and> lplace s = AsleepEmpty \<and>
      sched_step WakeUp s = None \<and> sched_step Alarm s = None"
    by (simp add: sched_defs demo_task_def push_def up.simps append_task_def)
  then obtain s where s: "run sched_step ?ls sched_start = Some s" "tasks s \<noteq> []" "nextRun (tasks s ! 0) \<le> clock s"
      "lplace s = AsleepEmpty" "sched_step WakeUp s = None" "sched_step Alarm s = None" by blast
  have "sched_step Signal s \<noteq> None"
    using scheduler_wakes [OF sched_reach_run [OF s(1)] s(2,3)] s(4-6) by blast
  with s show ?thesis by simp
qed

text \<open>
  The throttled function runs at most once per interval: any two runs are at least the interval
  apart; and the first call always runs it.
\<close>

theorem scheduler_throttle:
  assumes "0 < ivl" and "ivl \<le> max_dur" and "0 \<le> now"
  shows "sorted_wrt (\<lambda>a b. a + ivl \<le> b) (throttled ivl l nows) \<and> throttled ivl zero_time (now # nows) \<noteq> []"
proof -
  have "time_sub now zero_time = max_dur"
    using assms(3) by (simp add: time_sub_def zero_time_def min_dur_def max_dur_def)
  with assms(2) show ?thesis
    using throttled_spacing [OF assms(1), of l nows] by (simp add: throttle_def)
qed

theorem scheduler_throttle_witness:
  "sorted_wrt (\<lambda>a b. a + 10 \<le> b) (throttled 10 zero_time [100, 105, 111, 120, 121]) \<and>
   throttled 10 zero_time [100, 105, 111, 120, 121] = [100, 111, 121]"
  using scheduler_throttle [of 10 100 zero_time "[100, 105, 111, 120, 121]"]
  by (simp add: throttle_def time_sub_def zero_time_def min_dur_def max_dur_def)

end
