(* ===== verification/Pool.thy ===== *)
theory Pool
  imports Prelude
begin

text \<open>
  \<open>pool/pool.go\<close>: a pool of workers that grows and shrinks. The task queue is a buffered channel,
  which workers read without the pool's mutex; so \<open>Submit\<close> is two steps, the send and the decision to
  spawn a worker, both under the mutex: \<open>deciding\<close> says that it is held in between. A future is
  a number; its state says whether its channel is closed.
\<close>

section \<open>Configuration and state\<close>

record config =
  MinWorkers :: int
  MaxWorkers :: int
  IdleTimeout :: int
  QueueLimit :: int

definition resolveDefaults :: "config \<Rightarrow> config" where
  "resolveDefaults c =
     (let c1 = (if MinWorkers c \<le> 0 then c\<lparr>MinWorkers := 1\<rparr> else c);
          c2 = (if MaxWorkers c1 < MinWorkers c1 then c1\<lparr>MaxWorkers := MinWorkers c1\<rparr> else c1);
          c3 = (if IdleTimeout c2 \<le> 0 then c2\<lparr>IdleTimeout := 5 * 10 ^ 9\<rparr> else c2)
      in if QueueLimit c3 \<le> 0 then c3\<lparr>QueueLimit := 100\<rparr> else c3)"

datatype 'e pool_error = ErrPoolClosed | ErrQueueFull | TaskPanicked | CtxErr | TaskErr 'e

datatype ('v, 'e) future = Unmade | Pending | Closed 'v "'e pool_error option"

text \<open>
  A worker waits in its \<open>select\<close>, has taken the task of a future, runs it, has run it, has
  seen its timer fire, or has seen the closed and empty channel; \<open>Gone\<close>: no worker.
\<close>

datatype worker = Gone | Waiting | Took nat | Running nat | Ran | TimedOut | SawClosed

record ('v, 'e) pool =
  cfg :: config
  queue :: "nat list"
  currentWorkers :: int
  busyWorkers :: int
  closed :: bool
  deciding :: bool
  workers :: "nat \<Rightarrow> worker"
  futures :: "nat \<Rightarrow> ('v, 'e) future"
  next_future :: nat

definition newPool :: "config \<Rightarrow> ('v, 'e) pool" where
  "newPool c =
     (let c = resolveDefaults c in
      \<lparr>cfg = c, queue = [], currentWorkers = MinWorkers c, busyWorkers = 0, closed = False, deciding = False,
        workers = (\<lambda>g. if int g < MinWorkers c then Waiting else Gone), futures = (\<lambda>_. Unmade), next_future = 0\<rparr>)"

section \<open>The operations\<close>

definition spawnWorker :: "nat \<Rightarrow> ('v, 'e) pool \<Rightarrow> ('v, 'e) pool" where
  "spawnWorker g p = p\<lparr>currentWorkers := currentWorkers p + 1, workers := (workers p)(g := Waiting)\<rparr>"

text \<open>\<open>Submit\<close>, up to the send; the future or the error.\<close>

definition submit :: "('v, 'e) pool \<Rightarrow> ('e pool_error + nat) \<times> ('v, 'e) pool" where
  "submit p =
     (if closed p then (Inl ErrPoolClosed, p)
      else if int (length (queue p)) \<ge> QueueLimit (cfg p) then (Inl ErrQueueFull, p)
      else let f = next_future p in
        (Inr f, p\<lparr>queue := queue p @ [f], futures := (futures p)(f := Pending), next_future := Suc f, deciding := True\<rparr>))"

text \<open>The rest of \<open>Submit\<close>: a worker is spawned as goroutine \<open>g\<close> when all are busy or a task waits.\<close>

definition grow :: "nat \<Rightarrow> ('v, 'e) pool \<Rightarrow> ('v, 'e) pool" where
  "grow g p =
     (let p' = p\<lparr>deciding := False\<rparr> in
      if currentWorkers p < MaxWorkers (cfg p) \<and> (busyWorkers p = currentWorkers p \<or> length (queue p) > 0)
      then spawnWorker g p' else p')"

text \<open>\<open>runTaskSafely\<close>: the future gets the result, or an error when the task panics.\<close>

definition complete :: "('v::zero \<times> 'e option) outcome \<Rightarrow> ('v, 'e) future" where
  "complete out = (case out of Returned (v, e) \<Rightarrow> Closed v (map_option TaskErr e) | Panicked \<Rightarrow> Closed 0 (Some TaskPanicked))"

definition closePool :: "('v, 'e) pool \<Rightarrow> ('v, 'e) pool" where
  "closePool p = (if closed p then p else p\<lparr>closed := True\<rparr>)"

text \<open>\<open>Future.Get\<close>: the branch its \<open>select\<close> takes; \<open>None\<close>: it blocks.\<close>

definition futureGet :: "bool \<Rightarrow> ('v::zero, 'e) future \<Rightarrow> ('v \<times> 'e pool_error option) option" where
  "futureGet ctxDone f =
     (if ctxDone then Some (0, Some CtxErr) else (case f of Closed v e \<Rightarrow> Some (v, e) | _ \<Rightarrow> None))"

section \<open>Interleaving\<close>

datatype ('v, 'e) pool_label =
    Submit | Grow nat | Take nat | Mark nat | Finish nat "('v \<times> 'e option) outcome" | Unmark nat
  | Timer nat | Shrink nat | SeeClosed nat | Exit nat | Close

abbreviation pwork :: "nat \<Rightarrow> worker \<Rightarrow> ('v, 'e) pool \<Rightarrow> ('v, 'e) pool" where
  "pwork g w p \<equiv> p\<lparr>workers := (workers p)(g := w)\<rparr>"

text \<open>Steps under the mutex are possible only when nobody holds it.\<close>

fun pool_step :: "('v::zero, 'e) pool_label \<Rightarrow> ('v, 'e) pool \<Rightarrow> ('v, 'e) pool option" where
  "pool_step Submit p = (if deciding p then None else Some (snd (submit p)))"
| "pool_step (Grow g) p = (if deciding p \<and> workers p g = Gone then Some (grow g p) else None)"
| "pool_step (Take g) p =
     (case (workers p g, queue p) of (Waiting, f # rest) \<Rightarrow> Some (pwork g (Took f) (p\<lparr>queue := rest\<rparr>)) | _ \<Rightarrow> None)"
| "pool_step (Mark g) p =
     (case workers p g of
        Took f \<Rightarrow> if deciding p then None else Some (pwork g (Running f) (p\<lparr>busyWorkers := busyWorkers p + 1\<rparr>))
      | _ \<Rightarrow> None)"
| "pool_step (Finish g out) p =
     (case workers p g of Running f \<Rightarrow> Some (pwork g Ran (p\<lparr>futures := (futures p)(f := complete out)\<rparr>)) | _ \<Rightarrow> None)"
| "pool_step (Unmark g) p =
     (case workers p g of
        Ran \<Rightarrow> if deciding p then None else Some (pwork g Waiting (p\<lparr>busyWorkers := busyWorkers p - 1\<rparr>))
      | _ \<Rightarrow> None)"
| "pool_step (Timer g) p = (case workers p g of Waiting \<Rightarrow> Some (pwork g TimedOut p) | _ \<Rightarrow> None)"
| "pool_step (Shrink g) p =
     (case workers p g of
        TimedOut \<Rightarrow> if deciding p then None
          else if currentWorkers p > MinWorkers (cfg p) then Some (pwork g Gone (p\<lparr>currentWorkers := currentWorkers p - 1\<rparr>))
          else Some (pwork g Waiting p)
      | _ \<Rightarrow> None)"
| "pool_step (SeeClosed g) p =
     (case workers p g of Waiting \<Rightarrow> if closed p \<and> queue p = [] then Some (pwork g SawClosed p) else None | _ \<Rightarrow> None)"
| "pool_step (Exit g) p =
     (case workers p g of
        SawClosed \<Rightarrow> if deciding p then None else Some (pwork g Gone (p\<lparr>currentWorkers := currentWorkers p - 1\<rparr>))
      | _ \<Rightarrow> None)"
| "pool_step Close p = (if deciding p then None else Some (closePool p))"

abbreviation pool_reach :: "config \<Rightarrow> ('v::zero, 'e) pool \<Rightarrow> bool" where
  "pool_reach c \<equiv> reach ((=) (newPool c)) (labelled pool_step)"

lemmas pool_defs = newPool_def resolveDefaults_def spawnWorker_def submit_def grow_def complete_def closePool_def

lemma pool_reach_run: "run pool_step ls (newPool c) = Some p \<Longrightarrow> pool_reach c p"
  by (rule reach_run) (auto intro: reach_start)

section \<open>The invariant\<close>

definition n_alive :: "(nat \<Rightarrow> worker) \<Rightarrow> int" where
  "n_alive f = cnt (\<lambda>w. w \<noteq> Gone) f"

fun busy :: "worker \<Rightarrow> bool" where
  "busy (Running f) \<longleftrightarrow> True"
| "busy Ran \<longleftrightarrow> True"
| "busy _ \<longleftrightarrow> False"

fun carries :: "worker \<Rightarrow> nat option" where
  "carries (Took f) = Some f"
| "carries (Running f) = Some f"
| "carries _ = None"

definition n_busy :: "(nat \<Rightarrow> worker) \<Rightarrow> int" where
  "n_busy f = cnt busy f"

lemma n_upd:
  assumes "tracked Gone f"
  shows "n_alive (f(g := w)) = n_alive f - of_bool (f g \<noteq> Gone) + of_bool (w \<noteq> Gone)"
    "n_busy (f(g := w)) = n_busy f - of_bool (busy (f g)) + of_bool (busy w)"
  using assms unfolding n_alive_def n_busy_def by (simp_all add: cnt_upd [where d = Gone])

definition size_inv :: "('v, 'e) pool \<Rightarrow> bool" where
  "size_inv p \<longleftrightarrow> tracked Gone (workers p) \<and>
     currentWorkers p = n_alive (workers p) \<and> busyWorkers p = n_busy (workers p) \<and>
     1 \<le> MinWorkers (cfg p) \<and> MinWorkers (cfg p) \<le> MaxWorkers (cfg p) \<and> 1 \<le> QueueLimit (cfg p) \<and>
     int (length (queue p)) \<le> QueueLimit (cfg p) \<and> currentWorkers p \<le> MaxWorkers (cfg p) \<and>
     (deciding p \<longrightarrow> \<not> closed p) \<and>
     (\<not> closed p \<or> queue p \<noteq> [] \<longrightarrow> MinWorkers (cfg p) \<le> currentWorkers p \<and> (\<forall>g. workers p g \<noteq> SawClosed))"

text \<open>A future is pending exactly while it is queued or a worker carries it, in one place only.\<close>

definition task_inv :: "('v, 'e) pool \<Rightarrow> bool" where
  "task_inv p \<longleftrightarrow> distinct (queue p) \<and>
     (\<forall>g f. carries (workers p g) = Some f \<longrightarrow> f \<notin> set (queue p)) \<and>
     (\<forall>g h f. carries (workers p g) = Some f \<longrightarrow> carries (workers p h) = Some f \<longrightarrow> g = h) \<and>
     (\<forall>f. futures p f = Pending \<longleftrightarrow> f \<in> set (queue p) \<or> (\<exists>g. carries (workers p g) = Some f)) \<and>
     (\<forall>f. futures p f = Unmade \<longleftrightarrow> next_future p \<le> f)"

lemma tracked_prefix: "tracked Gone (\<lambda>g. if int g < n then Waiting else Gone)"
proof -
  have "{g. (if int g < n then Waiting else Gone) \<noteq> Gone} \<subseteq> {..< nat n}" by auto
  then show ?thesis unfolding tracked_def by (rule finite_subset) simp
qed

lemma size_inv_start: "size_inv (newPool c)"
proof -
  let ?c = "resolveDefaults c"
  have c: "1 \<le> MinWorkers ?c" "MinWorkers ?c \<le> MaxWorkers ?c" "1 \<le> QueueLimit ?c"
    by (auto simp: resolveDefaults_def Let_def)
  have "{g. (if int g < MinWorkers ?c then Waiting else Gone) \<noteq> Gone} = {..< nat (MinWorkers ?c)}" by auto
  then have "n_alive (\<lambda>g. if int g < MinWorkers ?c then Waiting else Gone) = MinWorkers ?c"
    using c(1) by (simp add: n_alive_def cnt_def)
  moreover have "n_busy (\<lambda>g. if int g < MinWorkers ?c then Waiting else Gone) = 0"
  proof -
    have "{g. busy (if int g < MinWorkers ?c then Waiting else Gone)} = {}" by auto
    then show ?thesis unfolding n_busy_def cnt_def by (simp only: card.empty)
  qed
  ultimately show ?thesis
    using c tracked_prefix by (auto simp: size_inv_def newPool_def Let_def)
qed

lemma task_inv_start: "task_inv (newPool c)"
  by (auto simp: task_inv_def newPool_def Let_def split: if_splits)

lemma size_inv_step:
  assumes I: "size_inv p" and "pool_step l p = Some q"
  shows "size_inv q"
proof -
  have T: "tracked Gone (workers p)" using I by (simp add: size_inv_def)
  note upd = n_upd [OF T]
  show ?thesis
  proof (cases l)
    case Submit
    with assms show ?thesis by (auto simp: size_inv_def submit_def Let_def split: if_splits)
  next
    case (Grow g)
    with assms show ?thesis by (auto simp: size_inv_def grow_def spawnWorker_def upd Let_def split: if_splits)
  next
    case (Take g)
    with assms show ?thesis by (auto simp: size_inv_def upd split: worker.splits list.splits if_splits)
  next
    case (Mark g)
    with assms show ?thesis by (auto simp: size_inv_def upd split: worker.splits if_splits)
  next
    case (Finish g out)
    with assms show ?thesis by (auto simp: size_inv_def upd split: worker.splits if_splits)
  next
    case (Unmark g)
    with assms show ?thesis by (auto simp: size_inv_def upd split: worker.splits if_splits)
  next
    case (Timer g)
    with assms show ?thesis by (auto simp: size_inv_def upd split: worker.splits if_splits)
  next
    case (Shrink g)
    with assms show ?thesis by (auto simp: size_inv_def upd split: worker.splits if_splits)
  next
    case (SeeClosed g)
    with assms show ?thesis by (auto simp: size_inv_def upd split: worker.splits if_splits)
  next
    case (Exit g)
    with assms show ?thesis by (auto simp: size_inv_def upd split: worker.splits if_splits)
  next
    case Close
    with assms show ?thesis by (auto simp: size_inv_def closePool_def split: if_splits)
  qed
qed

text \<open>A step that moves a worker without changing what it carries.\<close>

lemma task_inv_same:
  assumes "task_inv p" and "queue q = queue p" and "futures q = futures p" and "next_future q = next_future p"
    and "\<And>g. carries (workers q g) = carries (workers p g)"
  shows "task_inv q"
  using assms unfolding task_inv_def by simp

lemma task_inv_step:
  assumes I: "task_inv p" and "pool_step l p = Some q"
  shows "task_inv q"
proof (cases l)
  case Submit
  have new: "next_future p \<notin> set (queue p)" "carries (workers p g) \<noteq> Some (next_future p)" for g
    using I unfolding task_inv_def by (metis future.distinct(1) order_refl)+
  with assms Submit show ?thesis
    by (auto simp: task_inv_def submit_def Let_def complete_def split: if_splits)
next
  case (Grow g)
  with assms show ?thesis
    by (intro task_inv_same [OF I]) (auto simp: grow_def spawnWorker_def Let_def split: if_splits)
next
  case (Take g)
  with assms(2) obtain f rest where p: "workers p g = Waiting" "queue p = f # rest"
    and q: "q = pwork g (Took f) (p\<lparr>queue := rest\<rparr>)"
    by (auto split: worker.splits list.splits)
  have "carries (workers p h) \<noteq> Some f" for h
    using I p(2) unfolding task_inv_def by auto
  moreover have "futures p f = Pending"
    using I p(2) unfolding task_inv_def by auto
  moreover have "(\<exists>h. carries (((workers p)(g := Took f)) h) = Some f') \<longleftrightarrow> f' = f \<or> (\<exists>h. carries (workers p h) = Some f')" for f'
  proof -
    have "h \<noteq> g" if "carries (workers p h) = Some f'" for h using that p(1) by auto
    then show ?thesis by (auto split: if_splits)
  qed
  ultimately show ?thesis
    using I p unfolding q task_inv_def
    by (simp add: fun_upd_apply split: if_splits) (auto split: if_splits)
next
  case (Mark g)
  with assms show ?thesis
    by (intro task_inv_same [OF I]) (auto split: worker.splits if_splits)
next
  case (Finish g out)
  with assms(2) obtain f where p: "workers p g = Running f"
    and q: "q = pwork g Ran (p\<lparr>futures := (futures p)(f := complete out)\<rparr>)"
    by (auto split: worker.splits)
  have only: "h = g" if "carries (workers p h) = Some f" for h
    using I p that unfolding task_inv_def by (metis carries.simps(2))
  have "f \<notin> set (queue p)" "futures p f = Pending" "\<not> next_future p \<le> f"
    using I p unfolding task_inv_def by (metis carries.simps(2) future.distinct(1))+
  moreover have "complete out \<noteq> Pending" "complete out \<noteq> Unmade"
    by (auto simp: complete_def split: outcome.splits)
  moreover have "(\<exists>h. carries (((workers p)(g := Ran)) h) = Some f') \<longleftrightarrow> f' \<noteq> f \<and> (\<exists>h. carries (workers p h) = Some f')" for f'
  proof -
    have "h \<noteq> g" if "carries (workers p h) = Some f'" "f' \<noteq> f" for h using that p(1) by auto
    with only show ?thesis by (auto split: if_splits)
  qed
  ultimately show ?thesis
    using I p unfolding q task_inv_def
    by (simp add: fun_upd_apply split: if_splits)
next
  case Close
  with assms show ?thesis
    by (intro task_inv_same [OF I]) (auto simp: closePool_def split: if_splits)
qed (use assms in \<open>intro task_inv_same [OF I]; auto split: worker.splits if_splits\<close>)+

interpretation pool: inductive_invariant "(=) (newPool c)" "labelled pool_step" "\<lambda>p. size_inv p \<and> task_inv p" for c
  by unfold_locales (auto simp: labelled_def intro: size_inv_start task_inv_start size_inv_step task_inv_step)

section \<open>Properties\<close>

text \<open>
  C11 (bounds): the counters of the pool are the numbers of its workers and of its busy workers, there
  are at most \<open>MaxWorkers\<close> of them and, until the pool is closed, at least \<open>MinWorkers\<close>, and the queue
  never exceeds its limit, so that the send in \<open>Submit\<close> never blocks.
\<close>

theorem pool_bounds:
  assumes "pool_reach c p"
  shows "currentWorkers p = int (card {g. workers p g \<noteq> Gone}) \<and> busyWorkers p = int (card {g. busy (workers p g)}) \<and>
    currentWorkers p \<le> MaxWorkers (cfg p) \<and> (\<not> closed p \<longrightarrow> 1 \<le> MinWorkers (cfg p) \<and> MinWorkers (cfg p) \<le> currentWorkers p) \<and>
    int (length (queue p)) \<le> QueueLimit (cfg p)"
  using pool.inv_reachable [OF assms] by (auto simp: size_inv_def n_alive_def n_busy_def cnt_def)

definition small_cfg :: config where
  "small_cfg = \<lparr>MinWorkers = 1, MaxWorkers = 2, IdleTimeout = 0, QueueLimit = 2\<rparr>"

definition grow_trace :: "(nat, unit) pool_label list" where
  "grow_trace = [Submit, Grow 1, Take 0, Mark 0, Submit, Grow 2, Take 1, Submit, Grow 2, Submit, Grow 2, Submit]"

theorem pool_bounds_witness:
  "case run pool_step grow_trace (newPool small_cfg) of None \<Rightarrow> False
   | Some p \<Rightarrow> queue p = [2, 3] \<and> currentWorkers p = 2 \<and> int (card {g. workers p g \<noteq> Gone}) = 2"
proof -
  have "\<exists>p. run pool_step grow_trace (newPool small_cfg) = Some p \<and> queue p = [2, 3] \<and> currentWorkers p = 2"
    by (simp add: grow_trace_def small_cfg_def pool_defs)
  then obtain p where p: "run pool_step grow_trace (newPool small_cfg) = Some p" "queue p = [2, 3]" "currentWorkers p = 2" by blast
  from pool_bounds [OF pool_reach_run [OF p(1)]] p show ?thesis by simp
qed



end
