(* ===== verification/Float64.thy ===== *)
theory Float64
  imports Complex_Main Prelude "HOL-Library.Log_Nat"
begin

text \<open>
  The \<open>float64\<close> arithmetic of the language, as far as the breaker, the adaptive limiter and the
  backoff use it: IEEE binary64 values with rounding to the nearest, ties to even. A finite value
  is the rational it stands for. The two zeros are one value: nothing modelled here divides by
  a zero other than the \<open>+0\<close> that comes from converting an integer. Products and sums are rounded
  separately, as on platforms where the compiler does not fuse them. Converting a value without
  a 64-bit integer is left to the platform by the language: it is a parameter of \<open>to_int\<close>.
\<close>

section \<open>Rounding\<close>

definition half_even :: "rat \<Rightarrow> int" where
  "half_even z =
     (let f = \<lfloor>z\<rfloor>; d = z - of_int f in
      if d < 1 / 2 then f else if d > 1 / 2 then f + 1 else if even f then f else f + 1)"

text \<open>The greatest \<open>k\<close> with \<open>2 powi k \<le> x\<close>, for a positive \<open>x\<close>.\<close>

definition floor_log2 :: "rat \<Rightarrow> int" where
  "floor_log2 x = (if 1 \<le> x then bitlen \<lfloor>x\<rfloor> - 1 else - bitlen (\<lceil>1 / x\<rceil> - 1))"

text \<open>The exponent of the last of the 53 bits of \<open>x\<close>; the subnormal numbers share the least one.\<close>

definition ulp_exp :: "rat \<Rightarrow> int" where
  "ulp_exp x = max (- 1074) (floor_log2 x - 52)"

definition round_pos :: "rat \<Rightarrow> rat" where
  "round_pos x = (let e = ulp_exp x in of_int (half_even (x / 2 powi e)) * 2 powi e)"

datatype float64 = NaN | Inf bool | Fin rat

definition rnd :: "rat \<Rightarrow> float64" where
  "rnd x =
     (if x = 0 then Fin 0
      else let y = round_pos \<bar>x\<bar> in
        if 2 ^ 1024 \<le> y then Inf (x > 0) else Fin (if x > 0 then y else - y))"

section \<open>Operations\<close>

definition of_int64 :: "int \<Rightarrow> float64" where
  "of_int64 n = rnd (of_int n)"

fun fless :: "float64 \<Rightarrow> float64 \<Rightarrow> bool" where
  "fless (Fin a) (Fin b) \<longleftrightarrow> a < b"
| "fless (Fin a) (Inf p) \<longleftrightarrow> p"
| "fless (Inf p) (Fin b) \<longleftrightarrow> \<not> p"
| "fless (Inf p) (Inf q) \<longleftrightarrow> \<not> p \<and> q"
| "fless _ _ \<longleftrightarrow> False"

fun fle :: "float64 \<Rightarrow> float64 \<Rightarrow> bool" where
  "fle (Fin a) (Fin b) \<longleftrightarrow> a \<le> b"
| "fle (Fin a) (Inf p) \<longleftrightarrow> p"
| "fle (Inf p) (Fin b) \<longleftrightarrow> \<not> p"
| "fle (Inf p) (Inf q) \<longleftrightarrow> p \<longrightarrow> q"
| "fle _ _ \<longleftrightarrow> False"

fun fneg :: "float64 \<Rightarrow> float64" where
  "fneg NaN = NaN"
| "fneg (Inf p) = Inf (\<not> p)"
| "fneg (Fin a) = Fin (- a)"

fun fadd :: "float64 \<Rightarrow> float64 \<Rightarrow> float64" where
  "fadd (Fin a) (Fin b) = rnd (a + b)"
| "fadd (Fin a) (Inf p) = Inf p"
| "fadd (Inf p) (Fin b) = Inf p"
| "fadd (Inf p) (Inf q) = (if p = q then Inf p else NaN)"
| "fadd _ _ = NaN"

definition fsub :: "float64 \<Rightarrow> float64 \<Rightarrow> float64" where
  "fsub x y = fadd x (fneg y)"

fun fmul :: "float64 \<Rightarrow> float64 \<Rightarrow> float64" where
  "fmul (Fin a) (Fin b) = rnd (a * b)"
| "fmul (Fin a) (Inf p) = (if a = 0 then NaN else Inf ((a > 0) = p))"
| "fmul (Inf p) (Fin b) = (if b = 0 then NaN else Inf (p = (b > 0)))"
| "fmul (Inf p) (Inf q) = Inf (p = q)"
| "fmul _ _ = NaN"

fun fdiv :: "float64 \<Rightarrow> float64 \<Rightarrow> float64" where
  "fdiv (Fin a) (Fin b) = (if b = 0 then (if a = 0 then NaN else Inf (a > 0)) else rnd (a / b))"
| "fdiv (Fin a) (Inf p) = Fin 0"
| "fdiv (Inf p) (Fin b) = Inf (p = (b \<ge> 0))"
| "fdiv _ _ = NaN"

text \<open>The built-in functions \<open>max\<close> and \<open>min\<close>: a NaN argument gives NaN.\<close>

definition fmax :: "float64 \<Rightarrow> float64 \<Rightarrow> float64" where
  "fmax x y = (if x = NaN \<or> y = NaN then NaN else if fless x y then y else x)"

definition fmin :: "float64 \<Rightarrow> float64 \<Rightarrow> float64" where
  "fmin x y = (if x = NaN \<or> y = NaN then NaN else if fless y x then y else x)"

definition trunc_rat :: "rat \<Rightarrow> int" where
  "trunc_rat a = (if 0 \<le> a then \<lfloor>a\<rfloor> else \<lceil>a\<rceil>)"

text \<open>Conversion to a 64-bit integer: towards zero where the value fits, else what the platform does.\<close>

definition to_int :: "(float64 \<Rightarrow> int) \<Rightarrow> float64 \<Rightarrow> int" where
  "to_int platform x =
     (case x of
        Fin a \<Rightarrow> if min_dur \<le> trunc_rat a \<and> trunc_rat a \<le> max_dur then trunc_rat a else platform x
      | _ \<Rightarrow> platform x)"

section \<open>Rounding is monotone and exact on representable values\<close>

lemma half_even_of_int [simp]: "half_even (of_int n) = n"
  by (simp add: half_even_def)

lemma half_even_0 [simp]: "half_even 0 = 0"
  by (simp add: half_even_def)

lemma half_even_bounds: "\<lfloor>z\<rfloor> \<le> half_even z" "half_even z \<le> \<lfloor>z\<rfloor> + 1"
  by (auto simp: half_even_def Let_def)

lemma half_even_mono:
  assumes "z \<le> w"
  shows "half_even z \<le> half_even w"
proof (cases "\<lfloor>z\<rfloor> = \<lfloor>w\<rfloor>")
  case True
  with assms show ?thesis by (auto simp: half_even_def Let_def)
next
  case False
  then have "\<lfloor>z\<rfloor> + 1 \<le> \<lfloor>w\<rfloor>"
    using floor_mono [OF assms] by linarith
  with half_even_bounds [of z] half_even_bounds [of w] show ?thesis by linarith
qed

lemma floor_log2_bounds:
  assumes "0 < x"
  shows "2 powi floor_log2 x \<le> x \<and> x < 2 powi (floor_log2 x + 1)"
proof (cases "1 \<le> x")
  case True
  let ?n = "\<lfloor>x\<rfloor>"
  have n: "1 \<le> ?n" using True by linarith
  have b: "2 ^ nat (bitlen ?n - 1) \<le> ?n" "?n < 2 ^ nat (bitlen ?n)"
    using bitlen_bounds [of ?n] n by auto
  have pos: "1 \<le> bitlen ?n" using b(2) n by (cases "1 \<le> bitlen ?n") auto
  have "(2 :: rat) powi (bitlen ?n - 1) = of_int (2 ^ nat (bitlen ?n - 1))"
    using pos by (simp add: power_int_def)
  also have "\<dots> \<le> x" using b(1) by linarith
  finally have lo: "(2 :: rat) powi (bitlen ?n - 1) \<le> x" .
  have "x < of_int (?n + 1)" by linarith
  also have "\<dots> \<le> of_int (2 ^ nat (bitlen ?n))" using b(2) by (simp only: of_int_le_iff)
  also have "\<dots> = (2 :: rat) powi bitlen ?n" using pos by (simp add: power_int_def)
  finally show ?thesis using lo True by (simp add: floor_log2_def)
next
  case False
  let ?n = "\<lceil>1 / x\<rceil>"
  have inv: "1 < 1 / x" using assms False by (simp add: field_simps)
  then have n: "1 < ?n" by linarith
  let ?j = "bitlen (?n - 1)"
  have b: "2 ^ nat (?j - 1) \<le> ?n - 1" "?n - 1 < 2 ^ nat ?j"
    using bitlen_bounds [of "?n - 1"] n by auto
  have pos: "1 \<le> ?j" using b(2) n by (cases "1 \<le> ?j") auto
  have "1 / x \<le> of_int ?n" by linarith
  also have "\<dots> \<le> of_int (2 ^ nat ?j)" using b(2) by (simp only: of_int_le_iff)
  finally have "1 / x \<le> 2 ^ nat ?j" by simp
  then have lo: "1 / 2 ^ nat ?j \<le> x" using assms by (simp add: field_simps)
  have "of_int (2 ^ nat (?j - 1)) \<le> (of_int (?n - 1) :: rat)" using b(1) by (simp only: of_int_le_iff)
  also have "\<dots> < 1 / x" by linarith
  finally have "2 ^ nat (?j - 1) < 1 / x" by simp
  then have hi: "x < 1 / 2 ^ nat (?j - 1)" using assms by (simp add: field_simps)
  have "2 powi (- ?j) = 1 / (2 :: rat) ^ nat ?j"
    using pos by (simp add: power_int_def inverse_eq_divide power_one_over)
  moreover have "2 powi (- ?j + 1) = 1 / (2 :: rat) ^ nat (?j - 1)"
  proof (cases "?j = 1")
    case False
    with pos have "\<not> 0 \<le> - ?j + 1" "nat (- (- ?j + 1)) = nat (?j - 1)" by simp_all
    then show ?thesis by (simp add: power_int_def inverse_eq_divide power_one_over)
  qed simp
  ultimately show ?thesis using lo hi False by (simp add: floor_log2_def)
qed

lemma powi2_mono: "a \<le> b \<Longrightarrow> (2 :: rat) powi a \<le> 2 powi b"
  by (simp add: power_int_increasing)

lemma powi2_less: "(2 :: rat) powi a < 2 powi b \<Longrightarrow> a < b"
  using powi2_mono [of b a] by linarith

lemma floor_log2_mono:
  assumes "0 < x" and "x \<le> y"
  shows "floor_log2 x \<le> floor_log2 y"
proof -
  have "(2 :: rat) powi floor_log2 x < 2 powi (floor_log2 y + 1)"
    using floor_log2_bounds [of x] floor_log2_bounds [of y] assms by linarith
  then show ?thesis using powi2_less by fastforce
qed

lemma powi2_split: "(2 :: rat) powi (a + b) = 2 powi a * 2 powi b"
  by (simp add: power_int_add)

lemma round_pos_bounds:
  assumes "0 < x"
  shows "round_pos x \<le> 2 powi (ulp_exp x + 53)"
    and "ulp_exp x > - 1074 \<Longrightarrow> 2 powi (ulp_exp x + 52) \<le> round_pos x"
    and "0 \<le> round_pos x"
proof -
  let ?e = "ulp_exp x"
  have "floor_log2 x + 1 \<le> ?e + 53" by (simp add: ulp_exp_def)
  then have "x < 2 powi (?e + 53)"
    using floor_log2_bounds [OF assms] powi2_mono [of "floor_log2 x + 1" "?e + 53"] by linarith
  then have "x / 2 powi ?e \<le> of_int (2 ^ 53)"
    by (simp add: powi2_split field_simps)
  then have "half_even (x / 2 powi ?e) \<le> 2 ^ 53"
    using half_even_mono [of "x / 2 powi ?e" "of_int (2 ^ 53)"] half_even_of_int [of "2 ^ 53"] by simp
  then have "of_int (half_even (x / 2 powi ?e)) \<le> (2 ^ 53 :: rat)"
    by (metis of_int_le_iff of_int_numeral of_int_power)
  then show "round_pos x \<le> 2 powi (?e + 53)"
    unfolding round_pos_def Let_def powi2_split by (simp add: mult_right_mono)
  show "2 powi (?e + 52) \<le> round_pos x" if "?e > - 1074"
  proof -
    from that have "?e = floor_log2 x - 52" by (auto simp: ulp_exp_def max_def split: if_splits)
    then have "2 powi (?e + 52) \<le> x" using floor_log2_bounds [OF assms] by simp
    then have "of_int (2 ^ 52) \<le> x / 2 powi ?e" by (simp add: powi2_split field_simps)
    then have "2 ^ 52 \<le> half_even (x / 2 powi ?e)"
      using half_even_mono [of "of_int (2 ^ 52)" "x / 2 powi ?e"] half_even_of_int [of "2 ^ 52"] by simp
    then have "(2 ^ 52 :: rat) \<le> of_int (half_even (x / 2 powi ?e))"
      by (metis of_int_le_iff of_int_numeral of_int_power)
    then show ?thesis unfolding round_pos_def Let_def powi2_split by (simp add: mult_right_mono)
  qed
  have "0 \<le> half_even (x / 2 powi ?e)"
    using half_even_mono [of "of_int 0" "x / 2 powi ?e"] assms by simp
  then show "0 \<le> round_pos x" by (simp add: round_pos_def Let_def)
qed

lemma round_pos_mono:
  assumes "0 < x" and "x \<le> y"
  shows "round_pos x \<le> round_pos y"
proof (cases "ulp_exp x = ulp_exp y")
  case True
  have "x / 2 powi ulp_exp y \<le> y / 2 powi ulp_exp y"
    using assms by (simp add: divide_right_mono)
  then show ?thesis
    using half_even_mono True by (simp add: round_pos_def Let_def)
next
  case False
  have "ulp_exp x \<le> ulp_exp y"
    using floor_log2_mono [OF assms] by (simp add: ulp_exp_def)
  with False have lt: "ulp_exp x + 53 \<le> ulp_exp y + 52" "ulp_exp y > - 1074"
    by (auto simp: ulp_exp_def)
  have "round_pos x \<le> 2 powi (ulp_exp x + 53)" by (rule round_pos_bounds [OF assms(1)])
  also have "\<dots> \<le> 2 powi (ulp_exp y + 52)" by (rule powi2_mono [OF lt(1)])
  also have "\<dots> \<le> round_pos y" by (rule round_pos_bounds) (use assms lt in auto)
  finally show ?thesis .
qed

text \<open>A value of at most 53 bits above the least exponent is rounded to itself.\<close>

lemma round_pos_fix:
  assumes "x = of_int n * 2 powi ulp_exp x"
  shows "round_pos x = x"
proof -
  have nz: "(2 :: rat) powi ulp_exp x \<noteq> 0" by simp
  have "x / 2 powi ulp_exp x = of_int n"
    using assms nz by (metis nonzero_mult_div_cancel_right)
  then have "half_even (x / 2 powi ulp_exp x) = n" by (metis half_even_of_int)
  then show ?thesis using assms by (simp add: round_pos_def Let_def)
qed

lemma floor_log2_less: "0 < x \<Longrightarrow> x < 2 powi b \<Longrightarrow> floor_log2 x < b"
  using floor_log2_bounds [of x] powi2_less [of "floor_log2 x" b] by linarith

lemma powi2_shift: "(2 :: rat) powi a = of_int (2 ^ nat (a - b)) * 2 powi b" if "b \<le> a"
proof -
  have "(2 :: rat) powi a = 2 powi (a - b) * 2 powi b" using powi2_split [of "a - b" b] by simp
  then show ?thesis using that by (simp add: power_int_def)
qed

lemma round_pos_exact:
  assumes "0 < m" and "m \<le> 2 ^ 53" and "- 1074 \<le> k"
  shows "round_pos (of_int m * 2 powi k) = of_int m * 2 powi k"
proof -
  define x where "x = of_int m * (2 :: rat) powi k"
  have x: "0 < x" using assms by (simp add: x_def)
  have "\<exists>n. x = of_int n * 2 powi ulp_exp x"
  proof (cases "m = 2 ^ 53")
    case False
    have "of_int m < (2 :: rat) ^ 53" using assms(2) False
      by (metis less_le of_int_less_iff of_int_numeral of_int_power)
    then have "x < 2 powi (53 + k)" unfolding x_def powi2_split by simp
    then have "floor_log2 x < 53 + k" by (rule floor_log2_less [OF x])
    then have "ulp_exp x \<le> k" using assms(3) by (simp add: ulp_exp_def)
    from powi2_shift [OF this] have "x = of_int (m * 2 ^ nat (k - ulp_exp x)) * 2 powi ulp_exp x"
      unfolding x_def by (simp only: of_int_mult mult.assoc)
    then show ?thesis by (rule exI)
  next
    case True
    then have xp: "x = 2 powi (53 + k)" unfolding x_def powi2_split by simp
    also have "\<dots> < 2 powi (53 + k + 1)" unfolding powi2_split [of "53 + k" 1] by simp
    finally have "floor_log2 x < 53 + k + 1" by (rule floor_log2_less [OF x])
    then have "ulp_exp x \<le> 53 + k" using assms(3) by (simp add: ulp_exp_def)
    from powi2_shift [OF this] xp have "x = of_int (2 ^ nat (53 + k - ulp_exp x)) * 2 powi ulp_exp x" by simp
    then show ?thesis by (rule exI)
  qed
  then show ?thesis using round_pos_fix unfolding x_def by blast
qed

lemma rnd_0 [simp]: "rnd 0 = Fin 0"
  by (simp add: rnd_def)

lemma rnd_int:
  assumes "\<bar>n\<bar> \<le> 2 ^ 53"
  shows "rnd (of_int n) = Fin (of_int n)"
proof (cases "n = 0")
  case False
  then have "round_pos (of_int \<bar>n\<bar> * 2 powi 0) = of_int \<bar>n\<bar> * 2 powi 0"
    by (intro round_pos_exact) (use assms in auto)
  moreover have "(of_int \<bar>n\<bar> :: rat) < 2 ^ 1024"
  proof -
    have "\<bar>n\<bar> < 2 ^ 1024" using assms by simp
    then have "(of_int \<bar>n\<bar> :: rat) < of_int (2 ^ 1024)" by (simp only: of_int_less_iff)
    then show ?thesis by simp
  qed
  ultimately show ?thesis using False by (auto simp: rnd_def Let_def)
qed simp

lemma rnd_1 [simp]: "rnd 1 = Fin 1"
  using rnd_int [of 1] by simp

lemma of_int64_small: "\<bar>n\<bar> \<le> 2 ^ 53 \<Longrightarrow> of_int64 n = Fin (of_int n)"
  by (simp add: of_int64_def rnd_int)

lemma rnd_pos_mono:
  assumes "0 < x" and "x \<le> y"
  shows "fle (rnd x) (rnd y)"
  using round_pos_mono [OF assms] assms by (auto simp: rnd_def Let_def)

lemma rnd_neg: "rnd (- x) = fneg (rnd x)"
  by (auto simp: rnd_def Let_def)

lemma fle_fneg: "fle (fneg x) (fneg y) \<longleftrightarrow> fle y x"
  by (cases x; cases y) auto

lemma rnd_sign: "0 \<le> x \<Longrightarrow> fle (Fin 0) (rnd x)"
  using round_pos_bounds(3) [of x] by (auto simp: rnd_def Let_def)

text \<open>A number and a greater one are rounded to a number and one at least as great.\<close>

lemma rnd_mono:
  assumes "x \<le> y"
  shows "fle (rnd x) (rnd y)"
proof -
  consider "0 < x" | "x \<le> 0" "0 \<le> y" | "y < 0" by linarith
  then show ?thesis
  proof cases
    case 1
    with assms show ?thesis by (rule rnd_pos_mono [rotated])
  next
    case 2
    have "fle (rnd x) (Fin 0)"
      using rnd_sign [of "- x"] 2(1) fle_fneg [of "Fin 0" "rnd x"] by (simp add: rnd_neg)
    with rnd_sign [OF 2(2)] show ?thesis by (cases "rnd x"; cases "rnd y") auto
  next
    case 3
    with assms have "fle (rnd (- y)) (rnd (- x))" by (intro rnd_pos_mono) auto
    then show ?thesis by (simp add: rnd_neg fle_fneg)
  qed
qed

lemma rnd_not_NaN [simp]: "rnd x \<noteq> NaN"
  by (auto simp: rnd_def Let_def)

text \<open>A value between two representable ones is rounded to a finite value between them.\<close>

lemma rnd_between:
  assumes "rnd a = Fin a" and "rnd b = Fin b" and "a \<le> x" and "x \<le> b"
  obtains y where "rnd x = Fin y" and "a \<le> y" and "y \<le> b"
  using rnd_mono [OF assms(3)] rnd_mono [OF assms(4)] assms(1,2) by (cases "rnd x") auto

lemma fle_trans: "fle x y \<Longrightarrow> fle y z \<Longrightarrow> fle x z"
  by (cases x; cases y; cases z) auto

section \<open>The values of the type\<close>

text \<open>A finite value has 53 bits and an exponent of the type.\<close>

definition is_binary64 :: "float64 \<Rightarrow> bool" where
  "is_binary64 x \<longleftrightarrow>
     (case x of Fin a \<Rightarrow> \<exists>m k. a = of_int m * 2 powi k \<and> \<bar>m\<bar> < 2 ^ 53 \<and> - 1074 \<le> k \<and> k \<le> 971 | _ \<Rightarrow> True)"

lemma is_binary64_Fin:
  "a = of_int m * 2 powi k \<Longrightarrow> \<bar>m\<bar> < 2 ^ 53 \<Longrightarrow> - 1074 \<le> k \<Longrightarrow> k \<le> 971 \<Longrightarrow> is_binary64 (Fin a)"
  unfolding is_binary64_def float64.case by blast

lemma is_binary64_special [simp]: "is_binary64 NaN" "is_binary64 (Inf b)"
  by (simp_all add: is_binary64_def)

lemma is_binary64_0 [simp]: "is_binary64 (Fin 0)"
  by (rule is_binary64_Fin [of 0 0 0]) simp_all

lemma round_pos_binary64:
  assumes "0 < x" and "round_pos x < 2 ^ 1024"
  shows "is_binary64 (Fin (round_pos x))"
proof -
  let ?e = "ulp_exp x" and ?m = "half_even (x / 2 powi ulp_exp x)"
  have r: "round_pos x = of_int ?m * 2 powi ?e" by (simp add: round_pos_def Let_def)
  have e: "- 1074 \<le> ?e" by (simp add: ulp_exp_def)
  have top: "2 ^ 1024 = (2 :: rat) powi 1024" by (simp add: power_int_def)
  have pos: "0 < (2 :: rat) powi ?e" by simp
  have "of_int ?m * 2 powi ?e \<le> (2 ^ 53) * (2 :: rat) powi ?e"
    using round_pos_bounds(1) [OF assms(1)] unfolding r powi2_split by simp
  then have "(of_int ?m :: rat) \<le> of_int (2 ^ 53)" using pos by simp
  then have m53: "?m \<le> 2 ^ 53" by (simp only: of_int_le_iff)
  have "0 \<le> of_int ?m * (2 :: rat) powi ?e" using round_pos_bounds(3) [OF assms(1)] unfolding r .
  then have m0: "0 \<le> ?m" using pos by (simp add: zero_le_mult_iff)
  have e971: "?e \<le> 971"
  proof (cases "?e > - 1074")
    case True
    then have "(2 :: rat) powi (?e + 52) < 2 powi 1024"
      using round_pos_bounds(2) [OF assms(1)] assms(2) top by linarith
    then show ?thesis using powi2_less [of "?e + 52" 1024] by linarith
  qed simp
  show ?thesis
  proof (cases "?m = 2 ^ 53")
    case False
    with m0 m53 have "\<bar>?m\<bar> < 2 ^ 53" by linarith
    with r e e971 show ?thesis by (intro is_binary64_Fin)
  next
    case True
    have "round_pos x = 2 powi (53 + ?e)" unfolding r True powi2_split by simp
    then have "53 + ?e < 1024" using assms(2) top powi2_less [of "53 + ?e" 1024] by simp
    moreover have "round_pos x = of_int (2 ^ 52) * 2 powi (?e + 1)"
      unfolding r True using powi2_split [of ?e 1] by simp
    ultimately show ?thesis using e by (intro is_binary64_Fin [of _ "2 ^ 52" "?e + 1"]) auto
  qed
qed

lemma is_binary64_neg: "is_binary64 (Fin a) \<Longrightarrow> is_binary64 (Fin (- a))"
proof -
  assume "is_binary64 (Fin a)"
  then obtain m k where "a = of_int m * 2 powi k" "\<bar>m\<bar> < 2 ^ 53" "- 1074 \<le> k" "k \<le> 971"
    unfolding is_binary64_def float64.case by blast
  then show ?thesis by (intro is_binary64_Fin [of _ "- m" k]) auto
qed

lemma rnd_binary64: "is_binary64 (rnd x)"
proof (cases "x = 0 \<or> 2 ^ 1024 \<le> round_pos \<bar>x\<bar>")
  case True
  then show ?thesis by (auto simp: rnd_def Let_def)
next
  case False
  then have "is_binary64 (Fin (round_pos \<bar>x\<bar>))" by (intro round_pos_binary64) auto
  with is_binary64_neg [OF this] False show ?thesis by (cases "x > 0") (auto simp: rnd_def Let_def)
qed

lemma fadd_binary64:
  "is_binary64 (fadd x y)" if "is_binary64 x" "is_binary64 y"
  using that by (cases "(x, y)" rule: fadd.cases) (auto simp: rnd_binary64)

lemma fneg_binary64: "is_binary64 x \<Longrightarrow> is_binary64 (fneg x)"
  by (cases x) (auto intro: is_binary64_neg)

lemma fsub_binary64: "is_binary64 x \<Longrightarrow> is_binary64 y \<Longrightarrow> is_binary64 (fsub x y)"
  unfolding fsub_def by (intro fadd_binary64 fneg_binary64)

lemma fmax_binary64: "is_binary64 x \<Longrightarrow> is_binary64 y \<Longrightarrow> is_binary64 (fmax x y)"
  by (simp add: fmax_def)

lemma fmin_binary64: "is_binary64 x \<Longrightarrow> is_binary64 y \<Longrightarrow> is_binary64 (fmin x y)"
  by (simp add: fmin_def)

text \<open>The 64-bit integers.\<close>

definition in_int64 :: "int \<Rightarrow> bool" where
  "in_int64 n \<longleftrightarrow> min_dur \<le> n \<and> n \<le> max_dur"

lemma to_int_in_int64: "(\<And>y. in_int64 (platform y)) \<Longrightarrow> in_int64 (to_int platform x)"
  by (auto simp: to_int_def in_int64_def split: float64.splits)

end
