(* ===== verification/Breaker.thy ===== *)
theory Breaker
  imports Float64
begin

text \<open>
  \<open>sync/breaker/breaker.go\<close>: the circuit breaker. \<open>Do\<close> is three parts: its first locked section
  (\<open>enter\<close>), the call of \<open>fn\<close> without the lock, and its second locked section (\<open>settle_trial\<close> for the
  trial of the half-open state, \<open>settle\<close> for the others), which does not run when \<open>fn\<close> panics. Several
  readings of the clock in one section are separate arguments. Lemmas: at most one trial runs;
  what \<open>settle\<close> decides over the sliding window; what a panicking trial does to the breaker.
\<close>

section \<open>The operations\<close>

datatype state = StateClosed | StateOpen | StateHalfOpen

fun state_string :: "state \<Rightarrow> string" where
  "state_string StateClosed = ''Closed''"
| "state_string StateOpen = ''Open''"
| "state_string StateHalfOpen = ''Half-Open''"

record call_record =
  t :: int
  isFailed :: bool

text \<open>The values of \<open>State\<close> are the three constants, so that the default branch of \<open>String\<close> does not occur.
\<open>OnStateChange\<close> is whether the callback is set; its calls are collected in \<open>notified\<close>.\<close>

record breaker_config =
  FailureThreshold :: float64
  Cooldown :: int
  MinRequests :: int
  Window :: int
  OnStateChange :: bool

definition resolveDefaults :: "breaker_config \<Rightarrow> breaker_config" where
  "resolveDefaults c =
     (let c1 = (if fle (FailureThreshold c) (Fin 0) \<or> fless (Fin 1) (FailureThreshold c)
                then c\<lparr>FailureThreshold := Fin (1 / 2)\<rparr> else c);
          c2 = (if Cooldown c1 \<le> 0 then c1\<lparr>Cooldown := 5 * 10 ^ 9\<rparr> else c1);
          c3 = (if MinRequests c2 \<le> 0 then c2\<lparr>MinRequests := 5\<rparr> else c2)
      in if Window c3 \<le> 0 then c3\<lparr>Window := 10 * 10 ^ 9\<rparr> else c3)"

record breaker =
  cfg :: breaker_config
  state :: state
  openTime :: int
  records :: "call_record list"
  halfOpenExecuting :: bool
  notified :: "(state \<times> state) list"

definition zero_time :: int where
  "zero_time = - (62135596800 * 10 ^ 9)"

definition new :: "breaker_config \<Rightarrow> breaker" where
  "new c = \<lparr>cfg = resolveDefaults c, state = StateClosed, openTime = zero_time, records = [],
     halfOpenExecuting = False, notified = []\<rparr>"

definition transitionTo :: "state \<Rightarrow> int \<Rightarrow> breaker \<Rightarrow> breaker" where
  "transitionTo target ot cb =
     (if state cb = target then cb
      else cb\<lparr>state := target, openTime := ot,
             records := (if target = StateClosed \<or> target = StateOpen then [] else records cb),
             notified := (if OnStateChange (cfg cb) then notified cb @ [(state cb, target)] else notified cb)\<rparr>)"

definition checkState :: "int \<Rightarrow> breaker \<Rightarrow> breaker" where
  "checkState now cb =
     (if state cb = StateOpen \<and> time_sub now (openTime cb) > Cooldown (cfg cb)
      then transitionTo StateHalfOpen zero_time cb else cb)"

definition pruneRecords :: "int \<Rightarrow> breaker \<Rightarrow> breaker" where
  "pruneRecords now cb = cb\<lparr>records := dropWhile (\<lambda>r. t r < now - Window (cfg cb)) (records cb)\<rparr>"

datatype breaker_error = ErrCircuitOpen

text \<open>The first section of \<open>Do\<close>: the error, or whether the call is the half-open trial.\<close>

definition enter :: "int \<Rightarrow> breaker \<Rightarrow> (breaker_error + bool) \<times> breaker" where
  "enter now cb0 =
     (let cb = checkState now cb0 in
      if state cb = StateOpen then (Inl ErrCircuitOpen, cb)
      else if state cb = StateHalfOpen then
        (if halfOpenExecuting cb then (Inl ErrCircuitOpen, cb)
         else (Inr True, cb\<lparr>halfOpenExecuting := True\<rparr>))
      else (Inr False, cb))"

text \<open>The last section of \<open>Do\<close>: of the trial, and of a call admitted in the closed state.\<close>

definition settle_trial :: "bool \<Rightarrow> int \<Rightarrow> breaker \<Rightarrow> breaker" where
  "settle_trial failed now cb =
     (let cb = cb\<lparr>halfOpenExecuting := False\<rparr> in
      if failed then transitionTo StateOpen now cb else transitionTo StateClosed zero_time cb)"

definition tripped :: "breaker \<Rightarrow> bool" where
  "tripped cb \<longleftrightarrow>
     int (length (records cb)) \<ge> MinRequests (cfg cb) \<and>
     (let failures = int (length (filter isFailed (records cb)));
          ratio = fdiv (of_int64 failures) (of_int64 (int (length (records cb))))
      in fle (FailureThreshold (cfg cb)) ratio)"

definition settle :: "bool \<Rightarrow> int \<Rightarrow> int \<Rightarrow> int \<Rightarrow> breaker \<Rightarrow> breaker" where
  "settle failed t1 t2 t3 cb0 =
     (let cb = pruneRecords t2 (cb0\<lparr>records := records cb0 @ [\<lparr>t = t1, isFailed = failed\<rparr>]\<rparr>)
      in if tripped cb then transitionTo StateOpen t3 cb else cb)"

definition stateOf :: "int \<Rightarrow> breaker \<Rightarrow> state \<times> breaker" where
  "stateOf now cb = (let cb = checkState now cb in (state cb, cb))"

section \<open>Interleaving\<close>

datatype brk_place = Outside | InTrial | InCall

record brk_sys =
  brk :: breaker
  clock :: int
  spot :: "nat \<Rightarrow> brk_place"

definition brk_start :: "breaker_config \<Rightarrow> int \<Rightarrow> brk_sys" where
  "brk_start c now = \<lparr>brk = new c, clock = now, spot = (\<lambda>_. Outside)\<rparr>"

datatype brk_label = Enter nat int | Settle nat bool int int int | FnPanics nat | AskState int

text \<open>The clock does not go backwards; a panic of \<open>fn\<close> leaves \<open>Do\<close> without its last section.\<close>

fun brk_step :: "brk_label \<Rightarrow> brk_sys \<Rightarrow> brk_sys option" where
  "brk_step (Enter g now) s =
     (if spot s g = Outside \<and> clock s \<le> now then
        (case enter now (brk s) of
           (Inl e, cb) \<Rightarrow> Some (s\<lparr>brk := cb, clock := now\<rparr>)
         | (Inr trial, cb) \<Rightarrow> Some (s\<lparr>brk := cb, clock := now, spot := (spot s)(g := if trial then InTrial else InCall)\<rparr>))
      else None)"
| "brk_step (Settle g failed t1 t2 t3) s =
     (if clock s \<le> t1 \<and> t1 \<le> t2 \<and> t2 \<le> t3 then
        (case spot s g of
           Outside \<Rightarrow> None
         | InTrial \<Rightarrow> Some (s\<lparr>brk := settle_trial failed t3 (brk s), clock := t3, spot := (spot s)(g := Outside)\<rparr>)
         | InCall \<Rightarrow> Some (s\<lparr>brk := settle failed t1 t2 t3 (brk s), clock := t3, spot := (spot s)(g := Outside)\<rparr>))
      else None)"
| "brk_step (FnPanics g) s = (if spot s g = Outside then None else Some (s\<lparr>spot := (spot s)(g := Outside)\<rparr>))"
| "brk_step (AskState now) s = (if clock s \<le> now then Some (s\<lparr>brk := snd (stateOf now (brk s)), clock := now\<rparr>) else None)"

abbreviation brk_reach :: "breaker_config \<Rightarrow> int \<Rightarrow> brk_sys \<Rightarrow> bool" where
  "brk_reach c now \<equiv> reach ((=) (brk_start c now)) (labelled brk_step)"

lemmas brk_defs = transitionTo_def checkState_def enter_def settle_trial_def settle_def stateOf_def pruneRecords_def

lemma brk_reach_run: "run brk_step ls (brk_start c now) = Some s \<Longrightarrow> brk_reach c now s"
  by (rule reach_run) (auto intro: reach_start)

section \<open>The invariant\<close>

text \<open>
  A configuration as \<open>resolveDefaults\<close> leaves it; the flag of the trial; the records of the window,
  which are in the order of time.
\<close>

definition cfg_ok :: "breaker_config \<Rightarrow> bool" where
  "cfg_ok c \<longleftrightarrow> 0 < Cooldown c \<and> 0 < MinRequests c \<and> 0 < Window c \<and>
     \<not> fle (FailureThreshold c) (Fin 0) \<and> \<not> fless (Fin 1) (FailureThreshold c)"

definition trial_inv :: "brk_sys \<Rightarrow> bool" where
  "trial_inv s \<longleftrightarrow> tracked Outside (spot s) \<and> cnt (\<lambda>p. p = InTrial) (spot s) \<le> of_bool (halfOpenExecuting (brk s)) \<and>
     (halfOpenExecuting (brk s) \<longrightarrow> state (brk s) \<noteq> StateClosed)"

definition window_inv :: "breaker_config \<Rightarrow> brk_sys \<Rightarrow> bool" where
  "window_inv c s \<longleftrightarrow> cfg (brk s) = resolveDefaults c \<and> sorted (map t (records (brk s))) \<and>
     (\<forall>r \<in> set (records (brk s)). t r \<le> clock s) \<and> (state (brk s) = StateOpen \<longrightarrow> openTime (brk s) \<le> clock s)"

lemma resolveDefaults_ok: "cfg_ok (resolveDefaults c)"
  by (simp add: cfg_ok_def resolveDefaults_def Let_def)

lemma checkState_frame [simp]:
  "cfg (checkState now cb) = cfg cb" "records (checkState now cb) = records cb"
  "halfOpenExecuting (checkState now cb) = halfOpenExecuting cb"
  "state (checkState now cb) = StateClosed \<longleftrightarrow> state cb = StateClosed"
  by (auto simp: checkState_def transitionTo_def)

lemma checkState_open:
  "state (checkState now cb) = StateOpen \<Longrightarrow> openTime (checkState now cb) = openTime cb \<and> state cb = StateOpen"
  by (auto simp: checkState_def transitionTo_def split: if_splits)

lemma settle_frame:
  "cfg (settle failed t1 t2 t3 cb) = cfg cb" "halfOpenExecuting (settle failed t1 t2 t3 cb) = halfOpenExecuting cb"
  "state (settle failed t1 t2 t3 cb) = state cb \<or> state (settle failed t1 t2 t3 cb) = StateOpen"
  by (auto simp: settle_def transitionTo_def pruneRecords_def Let_def)

lemma trial_inv_step:
  assumes I: "trial_inv s" and "brk_step l s = Some s'"
  shows "trial_inv s'"
proof -
  have T: "tracked Outside (spot s)" using I by (simp add: trial_inv_def)
  have upd: "cnt (\<lambda>p. p = InTrial) ((spot s)(g := p)) =
      cnt (\<lambda>p. p = InTrial) (spot s) - of_bool (spot s g = InTrial) + of_bool (p = InTrial)" for g p
    by (rule cnt_upd [where d = Outside, OF T]) simp
  show ?thesis
  proof (cases l)
    case (Enter g now)
    with assms show ?thesis
      by (auto simp: trial_inv_def enter_def upd Let_def split: if_splits)
  next
    case (Settle g failed t1 t2 t3)
    have "1 \<le> cnt (\<lambda>p. p = InTrial) (spot s)" if "spot s g = InTrial"
      using cnt_pos [where P = "\<lambda>p. p = InTrial", OF T _ that] by simp
    with assms Settle settle_frame [of failed t1 t2 t3 "brk s"] show ?thesis
      by (auto simp: trial_inv_def settle_trial_def transitionTo_def upd Let_def split: if_splits brk_place.splits)
  next
    case (FnPanics g)
    with assms show ?thesis
      by (auto simp: trial_inv_def upd split: if_splits)
  next
    case (AskState now)
    with assms show ?thesis
      by (auto simp: trial_inv_def stateOf_def Let_def split: if_splits)
  qed
qed

lemma sorted_dropWhile': "sorted (map f xs) \<Longrightarrow> sorted (map f (dropWhile P xs))"
  by (induction xs) auto

lemma records_settle:
  "set (records (settle failed t1 t2 t3 cb)) \<subseteq> insert \<lparr>t = t1, isFailed = failed\<rparr> (set (records cb))"
  by (auto simp: settle_def transitionTo_def pruneRecords_def Let_def dest: set_dropWhileD)

lemma sorted_settle:
  assumes "sorted (map t (records cb))" and "\<forall>r \<in> set (records cb). t r \<le> t1"
  shows "sorted (map t (records (settle failed t1 t2 t3 cb)))"
proof -
  have "sorted (map t (records cb @ [\<lparr>t = t1, isFailed = failed\<rparr>]))"
    using assms by (simp add: sorted_append)
  then show ?thesis
    unfolding settle_def transitionTo_def pruneRecords_def Let_def by (simp add: sorted_dropWhile')
qed

lemma openTime_settle:
  "state (settle failed t1 t2 t3 cb) = StateOpen \<Longrightarrow>
   openTime (settle failed t1 t2 t3 cb) = t3 \<or> state cb = StateOpen \<and> openTime (settle failed t1 t2 t3 cb) = openTime cb"
  by (auto simp: settle_def transitionTo_def pruneRecords_def Let_def split: if_splits)

lemma window_inv_step:
  assumes I: "window_inv c s" and "brk_step l s = Some s'"
  shows "window_inv c s'"
proof -
  have le: "t r \<le> u" if "r \<in> set (records (brk s))" "clock s \<le> u" for r u
    using I that by (auto simp: window_inv_def)
  show ?thesis
  proof (cases l)
    case (Enter g now)
    with assms show ?thesis
      by (auto simp: window_inv_def enter_def Let_def intro: le dest!: checkState_open split: if_splits)
  next
    case (Settle g failed t1 t2 t3)
    show ?thesis
    proof (cases "spot s g = InCall")
      case True
      with assms Settle have s': "s' = s\<lparr>brk := settle failed t1 t2 t3 (brk s), clock := t3, spot := (spot s)(g := Outside)\<rparr>"
        and ts: "clock s \<le> t1" "t1 \<le> t2" "t2 \<le> t3" by (auto split: if_splits)
      have "\<forall>r \<in> set (records (settle failed t1 t2 t3 (brk s))). t r \<le> t3"
        using records_settle [of failed t1 t2 t3 "brk s"] le [where u = t3] ts by auto
      moreover have "sorted (map t (records (settle failed t1 t2 t3 (brk s))))"
        using I le [OF _ ts(1)] by (intro sorted_settle) (simp_all add: window_inv_def)
      moreover have "state (settle failed t1 t2 t3 (brk s)) = StateOpen \<Longrightarrow> openTime (settle failed t1 t2 t3 (brk s)) \<le> t3"
        using I openTime_settle [of failed t1 t2 t3 "brk s"] ts by (auto simp: window_inv_def)
      ultimately show ?thesis
        using I by (simp add: s' window_inv_def settle_frame)
    next
      case False
      with assms Settle show ?thesis
        by (auto simp: window_inv_def settle_trial_def transitionTo_def Let_def intro: le split: if_splits brk_place.splits)
    qed
  next
    case (FnPanics g)
    with assms show ?thesis by (auto simp: window_inv_def split: if_splits)
  next
    case (AskState now)
    with assms show ?thesis
      by (auto simp: window_inv_def stateOf_def Let_def intro: le dest!: checkState_open split: if_splits)
  qed
qed

interpretation breaker: inductive_invariant "(=) (brk_start c now)" "labelled brk_step"
    "\<lambda>s. trial_inv s \<and> window_inv c s" for c now
proof
  show "trial_inv s \<and> window_inv c s" if "brk_start c now = s" for s
    using that by (auto simp: brk_start_def new_def trial_inv_def window_inv_def)
  show "trial_inv s' \<and> window_inv c s'" if "trial_inv s \<and> window_inv c s" "labelled brk_step s s'" for s s'
    using that by (auto simp: labelled_def intro: trial_inv_step window_inv_step)
qed

section \<open>Deciding to open\<close>




lemma enter_blocked:
  "state cb \<noteq> StateClosed \<Longrightarrow> halfOpenExecuting cb \<Longrightarrow> fst (enter now cb) = Inl ErrCircuitOpen"
  by (cases "state (checkState now cb)") (auto simp: enter_def Let_def)

lemma enter_blocked_frame:
  "state cb \<noteq> StateClosed \<Longrightarrow> halfOpenExecuting cb \<Longrightarrow> snd (enter now cb) = checkState now cb"
  by (cases "state (checkState now cb)") (auto simp: enter_def Let_def)

definition small_cfg :: breaker_config where
  "small_cfg = \<lparr>FailureThreshold = Fin (1 / 2), Cooldown = 10, MinRequests = 1, Window = 100, OnStateChange = True\<rparr>"

lemmas brk_run_defs = brk_defs brk_start_def new_def resolveDefaults_def Let_def small_cfg_def tripped_def of_int64_small
  time_sub_def min_dur_def max_dur_def

section \<open>Properties\<close>

text \<open>
  C18 (safety): at most one trial of the half-open state runs at a time, and while it runs every call
  is rejected without running \<open>fn\<close>, whatever the calls admitted before do to the state meanwhile.
\<close>

theorem breaker_one_trial:
  assumes "brk_reach c now0 s" and "spot s g = InTrial"
  shows "(spot s h = InTrial \<longrightarrow> h = g) \<and> fst (enter now (brk s)) = Inl ErrCircuitOpen"
proof -
  have I: "trial_inv s" using breaker.inv_reachable [OF assms(1)] by simp
  then have T: "tracked Outside (spot s)" by (simp add: trial_inv_def)
  have "0 < cnt (\<lambda>p. p = InTrial) (spot s)" by (rule cnt_pos [where P = "\<lambda>p. p = InTrial", OF T _ assms(2)]) simp
  with I have hoe: "halfOpenExecuting (brk s)" "state (brk s) \<noteq> StateClosed"
    by (cases "halfOpenExecuting (brk s)"; simp add: trial_inv_def)+
  have "h = g" if "spot s h = InTrial"
    by (rule cnt_le_one_unique [where P = "\<lambda>p. p = InTrial", OF T _ _ that assms(2)])
      (use I hoe in \<open>simp_all add: trial_inv_def\<close>)
  with enter_blocked [OF hoe(2,1)] show ?thesis by blast
qed

theorem breaker_one_trial_witness:
  "case run brk_step [Enter 0 0, Settle 0 True 0 0 0, Enter 1 11] (brk_start small_cfg 0) of None \<Rightarrow> False
   | Some s \<Rightarrow> spot s 1 = InTrial \<and> fst (enter 50 (brk s)) = Inl ErrCircuitOpen"
proof -
  have "\<exists>s. run brk_step [Enter 0 0, Settle 0 True 0 0 0, Enter 1 11] (brk_start small_cfg 0) = Some s \<and> spot s 1 = InTrial"
    by (simp add: brk_run_defs)
  then obtain s where s: "run brk_step [Enter 0 0, Settle 0 True 0 0 0, Enter 1 11] (brk_start small_cfg 0) = Some s"
    "spot s 1 = InTrial" by blast
  show ?thesis
    unfolding s(1) using breaker_one_trial [OF brk_reach_run [OF s(1)] s(2), of 1 50] s(2) by simp
qed

text \<open>
  C35 (error): an open breaker fails fast until more than the cooldown has passed since it opened,
  its state untouched; after it, and if no trial is recorded as running, the call is let through as the trial.
\<close>

theorem breaker_fail_fast:
  assumes "brk_reach c now0 s" and "state (brk s) = StateOpen" and "Cooldown (cfg (brk s)) < max_dur"
  shows "if now - openTime (brk s) \<le> Cooldown (cfg (brk s)) then enter now (brk s) = (Inl ErrCircuitOpen, brk s)
    else if halfOpenExecuting (brk s) then fst (enter now (brk s)) = Inl ErrCircuitOpen
    else fst (enter now (brk s)) = Inr True \<and> state (snd (enter now (brk s))) = StateHalfOpen"
proof -
  have "cfg_ok (cfg (brk s))"
    using breaker.inv_reachable [OF assms(1)] resolveDefaults_ok by (simp add: window_inv_def)
  then have "min_dur \<le> Cooldown (cfg (brk s))" by (simp add: cfg_ok_def min_dur_def)
  from time_sub_less_iff [OF this assms(3)]
  have "checkState now (brk s) = (if now - openTime (brk s) \<le> Cooldown (cfg (brk s)) then brk s
      else transitionTo StateHalfOpen zero_time (brk s))"
    using assms(2) by (simp add: checkState_def)
  then show ?thesis
    using assms(2) by (simp add: enter_def transitionTo_def Let_def)
qed

theorem breaker_fail_fast_witness:
  "case run brk_step [Enter 0 0, Settle 0 True 0 0 0] (brk_start small_cfg 0) of None \<Rightarrow> False
   | Some s \<Rightarrow> enter 10 (brk s) = (Inl ErrCircuitOpen, brk s) \<and> fst (enter 11 (brk s)) = Inr True"
proof -
  let ?ls = "[Enter 0 0, Settle 0 True 0 0 0]"
  have "\<exists>s. run brk_step ?ls (brk_start small_cfg 0) = Some s \<and> state (brk s) = StateOpen \<and> openTime (brk s) = 0 \<and>
      cfg (brk s) = small_cfg \<and> \<not> halfOpenExecuting (brk s)"
    by (simp add: brk_run_defs)
  then obtain s where s: "run brk_step ?ls (brk_start small_cfg 0) = Some s" "state (brk s) = StateOpen"
      "openTime (brk s) = 0" "cfg (brk s) = small_cfg" "\<not> halfOpenExecuting (brk s)" by blast
  have c: "Cooldown (cfg (brk s)) = 10" "(10 :: int) < max_dur" by (simp_all add: s(4) small_cfg_def max_dur_def)
  then have "Cooldown (cfg (brk s)) < max_dur" by simp
  from breaker_fail_fast [OF brk_reach_run [OF s(1)] s(2) this, of 10]
    breaker_fail_fast [OF brk_reach_run [OF s(1)] s(2) this, of 11] c s(2-) show ?thesis
    unfolding s(1) by simp
qed



text \<open>
  Safety, a defect: when \<open>fn\<close> panics during the trial, \<open>halfOpenExecuting\<close> stays set. From then on no
  step of any goroutine, however long the cooldown, makes the breaker admit a call again.
\<close>

theorem breaker_wedged:
  assumes "brk_reach c now0 s" and "halfOpenExecuting (brk s)" and "\<forall>g. spot s g \<noteq> InTrial"
    and "(labelled brk_step)\<^sup>*\<^sup>* s s'"
  shows "fst (enter now (brk s')) = Inl ErrCircuitOpen"
proof -
  have "trial_inv s' \<and> halfOpenExecuting (brk s') \<and> (\<forall>g. spot s' g \<noteq> InTrial)"
    using assms(4)
  proof (induction rule: rtranclp_induct)
    case base
    show ?case using breaker.inv_reachable [OF assms(1)] assms(2,3) by simp
  next
    case (step u v)
    then obtain l where l: "brk_step l u = Some v" by (auto simp: labelled_def)
    have nc: "state (brk u) \<noteq> StateClosed" using step.IH by (simp add: trial_inv_def)
    have "halfOpenExecuting (brk v) \<and> (\<forall>g. spot v g \<noteq> InTrial)"
    proof (cases l)
      case (Enter g n)
      with l step.IH enter_blocked [OF nc, of n] enter_blocked_frame [OF nc, of n] show ?thesis
        by (cases "enter n (brk u)") (auto split: if_splits)
    qed (use l step.IH in \<open>auto simp: settle_frame stateOf_def Let_def split: if_splits brk_place.splits\<close>)
    with trial_inv_step [OF _ l] step.IH show ?case by simp
  qed
  then show ?thesis by (intro enter_blocked) (auto simp: trial_inv_def)
qed

theorem breaker_wedged_witness:
  "case run brk_step [Enter 0 0, Settle 0 True 0 0 0, Enter 1 11, FnPanics 1] (brk_start small_cfg 0) of None \<Rightarrow> False
   | Some s \<Rightarrow> (\<forall>g. spot s g = Outside) \<and> fst (enter (10 ^ 12) (brk s)) = Inl ErrCircuitOpen"
proof -
  let ?ls = "[Enter 0 0, Settle 0 True 0 0 0, Enter 1 11, FnPanics 1]"
  have "\<exists>s. run brk_step ?ls (brk_start small_cfg 0) = Some s \<and> halfOpenExecuting (brk s) \<and> (\<forall>g. spot s g = Outside)"
    by (simp add: brk_run_defs)
  then obtain s where s: "run brk_step ?ls (brk_start small_cfg 0) = Some s" "halfOpenExecuting (brk s)" "\<forall>g. spot s g = Outside"
    by blast
  then have "\<forall>g. spot s g \<noteq> InTrial" by simp
  from breaker_wedged [OF brk_reach_run [OF s(1)] s(2) this rtranclp.rtrancl_refl] s(3) show ?thesis unfolding s(1) by simp
qed

definition stale_trace :: "brk_label list" where
  "stale_trace = [Enter 0 0, Enter 1 0, Settle 1 True 0 0 0, Enter 2 11, Settle 0 True 12 12 12, Settle 2 False 13 13 13]"

text \<open>
  Safety, a defect: a call admitted before the breaker opened and failing during the trial opens it again;
  the trial that then succeeds closes it at once, from the open state and within the new cooldown.
\<close>

theorem breaker_stale_close:
  "case run brk_step stale_trace (brk_start small_cfg 0) of None \<Rightarrow> False
   | Some s \<Rightarrow> notified (brk s) = [(StateClosed, StateOpen), (StateOpen, StateHalfOpen), (StateHalfOpen, StateOpen), (StateOpen, StateClosed)]
      \<and> clock s = 13"
  by (simp add: stale_trace_def brk_run_defs)

end
