(* ===== verification/Limiter.thy ===== *)
theory Limiter
  imports SlotGate Float64
begin

text \<open>
  \<open>sync/limiter/limiter.go\<close>: the adaptive concurrency limiter. Slots are accounted for as in the
  semaphore (theory SlotGate); the limit is a \<open>float64\<close> that \<open>Release\<close> moves by one according to the
  measured round-trip times. \<open>platform\<close> is what the conversion to an integer gives for values without
  one; a limit that starts finite never needs it. Lemmas: the limit stays within its bounds, every
  slot is accounted for, and the two ways in which the limiter gets stuck.
\<close>

section \<open>The operations\<close>

record limiter =
  limit :: float64
  minLimit :: float64
  maxLimit :: float64
  alpha :: float64
  beta :: float64
  active :: int
  waitChs :: "nat list"
  minRTT :: int
  smoothedRTT :: int
  lastReset :: int

definition newAdaptiveLimiter :: "float64 \<Rightarrow> int \<Rightarrow> limiter" where
  "newAdaptiveLimiter initialLimit now =
     \<lparr>limit = initialLimit, minLimit = Fin 1, maxLimit = Fin 1000, alpha = Fin 2, beta = Fin 5, active = 0,
      waitChs = [], minRTT = 0, smoothedRTT = 0, lastReset = now\<rparr>"

text \<open>The two locked sections of \<open>Acquire\<close>, as in the semaphore.\<close>

definition acquire_section :: "(float64 \<Rightarrow> int) \<Rightarrow> nat \<Rightarrow> limiter \<Rightarrow> limiter \<times> bool" where
  "acquire_section platform ch l =
     (if active l < to_int platform (limit l) then (l\<lparr>active := active l + 1\<rparr>, True)
      else (l\<lparr>waitChs := waitChs l @ [ch]\<rparr>, False))"

definition cancel_section :: "nat \<Rightarrow> limiter \<Rightarrow> limiter" where
  "cancel_section ch l = l\<lparr>waitChs := remove1 ch (waitChs l)\<rparr>"

text \<open>\<open>Release\<close>: the round-trip times, the limit, and the loop that hands free slots out.\<close>

definition measure_rtt :: "(float64 \<Rightarrow> int) \<Rightarrow> int \<Rightarrow> int \<Rightarrow> int \<Rightarrow> limiter \<Rightarrow> limiter" where
  "measure_rtt platform rtt t1 t2 l =
     (let l1 = (if time_sub t1 (lastReset l) > 30 * 10 ^ 9 then l\<lparr>minRTT := 0, lastReset := t2\<rparr> else l);
          l2 = (if minRTT l1 = 0 \<or> rtt < minRTT l1 then l1\<lparr>minRTT := rtt\<rparr> else l1)
      in if smoothedRTT l2 = 0 then l2\<lparr>smoothedRTT := rtt\<rparr>
         else l2\<lparr>smoothedRTT := to_int platform
           (fadd (fmul (rnd (9 / 10)) (of_int64 (smoothedRTT l2))) (fmul (rnd (1 / 10)) (of_int64 rtt)))\<rparr>)"

definition queue_len :: "limiter \<Rightarrow> float64" where
  "queue_len l = fmul (limit l) (fsub (Fin 1) (fdiv (of_int64 (minRTT l)) (of_int64 (smoothedRTT l))))"

definition adjust :: "limiter \<Rightarrow> limiter" where
  "adjust l =
     (if fless (beta l) (queue_len l) then l\<lparr>limit := fmax (minLimit l) (fsub (limit l) (Fin 1))\<rparr>
      else if fless (queue_len l) (alpha l) then l\<lparr>limit := fmin (maxLimit l) (fadd (limit l) (Fin 1))\<rparr>
      else l)"

function hand_out :: "int \<Rightarrow> limiter \<Rightarrow> limiter \<times> nat list" where
  "hand_out slots l =
     (case waitChs l of
        [] \<Rightarrow> (l, [])
      | ch # rest \<Rightarrow>
          if slots > 0
          then (let (l', closed) = hand_out (slots - 1) (l\<lparr>waitChs := rest, active := active l + 1\<rparr>) in (l', ch # closed))
          else (l, []))"
  by pat_completeness auto
termination
  by (relation "measure (\<lambda>(_, l). length (waitChs l))") auto

declare hand_out.simps [simp del]

definition refill :: "(float64 \<Rightarrow> int) \<Rightarrow> limiter \<Rightarrow> limiter \<times> nat list" where
  "refill platform l = hand_out (to_int platform (limit l) - active l) l"

definition release :: "(float64 \<Rightarrow> int) \<Rightarrow> int \<Rightarrow> int \<Rightarrow> int \<Rightarrow> limiter \<Rightarrow> limiter \<times> nat list" where
  "release platform rtt t1 t2 l = refill platform (adjust (measure_rtt platform rtt t1 t2 (l\<lparr>active := active l - 1\<rparr>)))"

section \<open>Interleaving\<close>

record lim_sys =
  lmt :: limiter
  places :: "nat \<Rightarrow> place"
  closed :: "nat set"
  next_ch :: nat
  lost :: int

definition lim_start :: "float64 \<Rightarrow> int \<Rightarrow> lim_sys" where
  "lim_start q now = \<lparr>lmt = newAdaptiveLimiter q now, places = (\<lambda>_. Idle), closed = {}, next_ch = 0, lost = 0\<rparr>"

text \<open>
  \<open>Acquire\<close> does not look at its context before it has queued. \<open>Wake\<close> and \<open>GiveUp\<close> are the branches of its
  \<open>select\<close>: a context may be done at any moment.
\<close>

datatype lim_label = Acquire nat | Wake nat | GiveUp nat | Unqueue nat | Release nat int int int

fun lim_step :: "(float64 \<Rightarrow> int) \<Rightarrow> lim_label \<Rightarrow> lim_sys \<Rightarrow> lim_sys option" where
  "lim_step platform (Acquire g) s =
     (if places s g = Idle then
        (case acquire_section platform (next_ch s) (lmt s) of
           (l, True) \<Rightarrow> Some (s\<lparr>lmt := l, places := (places s)(g := Holding)\<rparr>)
         | (l, False) \<Rightarrow> Some (s\<lparr>lmt := l, places := (places s)(g := Blocked (next_ch s)), next_ch := Suc (next_ch s)\<rparr>))
      else None)"
| "lim_step platform (Wake g) s =
     (case places s g of
        Blocked c \<Rightarrow> if c \<in> closed s then Some (s\<lparr>places := (places s)(g := Holding)\<rparr>) else None
      | _ \<Rightarrow> None)"
| "lim_step platform (GiveUp g) s =
     (case places s g of Blocked c \<Rightarrow> Some (s\<lparr>places := (places s)(g := Cancelling c)\<rparr>) | _ \<Rightarrow> None)"
| "lim_step platform (Unqueue g) s =
     (case places s g of
        Cancelling c \<Rightarrow> Some (s\<lparr>lmt := cancel_section c (lmt s), places := (places s)(g := Idle),
          lost := lost s + of_bool (c \<in> closed s)\<rparr>)
      | _ \<Rightarrow> None)"
| "lim_step platform (Release g rtt t1 t2) s =
     (if places s g = Holding then
        (let (l, cs) = release platform rtt t1 t2 (lmt s)
         in Some (s\<lparr>lmt := l, places := (places s)(g := Idle), closed := closed s \<union> set cs\<rparr>))
      else None)"

abbreviation lim_reach :: "(float64 \<Rightarrow> int) \<Rightarrow> float64 \<Rightarrow> int \<Rightarrow> lim_sys \<Rightarrow> bool" where
  "lim_reach platform q now \<equiv> reach ((=) (lim_start q now)) (labelled (lim_step platform))"

lemma lim_reach_run: "run (lim_step platform) ls (lim_start q now) = Some s \<Longrightarrow> lim_reach platform q now s"
  by (rule reach_run) (auto intro: reach_start)

section \<open>The hand-over loop\<close>

lemma hand_out_laws:
  assumes "hand_out n s = (t, cs)"
  shows "waitChs s = cs @ waitChs t \<and> active t = active s + int (length cs) \<and> limit t = limit s \<and>
    minLimit t = minLimit s \<and> maxLimit t = maxLimit s \<and>
    (waitChs t = [] \<or> n \<le> int (length cs)) \<and> (cs \<noteq> [] \<longrightarrow> int (length cs) \<le> n)"
  using assms
proof (induction n s arbitrary: t cs rule: hand_out.induct)
  case (1 n l)
  show ?case
  proof (cases "waitChs l")
    case Nil
    with "1.prems" show ?thesis by (simp add: hand_out.simps [of n l])
  next
    case (Cons ch rest)
    show ?thesis
    proof (cases "n > 0")
      case False
      with "1.prems" Cons show ?thesis by (auto simp: hand_out.simps [of n l])
    next
      case True
      obtain u ds where u: "hand_out (n - 1) (l\<lparr>waitChs := rest, active := active l + 1\<rparr>) = (u, ds)"
        by fastforce
      with "1.prems" Cons True have t: "t = u" "cs = ch # ds"
        by (auto simp: hand_out.simps [of n l])
      from "1.IH" [OF Cons True u] Cons True t show ?thesis by auto
    qed
  qed
qed

interpretation refill: slot_gate "\<lambda>l. to_int platform (limit l)" active waitChs "refill platform" for platform
  by unfold_locales (auto simp: refill_def dest!: hand_out_laws)

section \<open>The limit\<close>

definition in_range :: "float64 \<Rightarrow> bool" where
  "in_range x \<longleftrightarrow> (\<exists>q. x = Fin q \<and> 1 \<le> q \<and> q \<le> 1000)"

lemma rnd_small [simp]: "rnd 1000 = Fin 1000" "rnd 999 = Fin 999"
  using rnd_int [of 1000] rnd_int [of 999] by simp_all

lemma measure_rtt_frame [simp]:
  "limit (measure_rtt platform rtt t1 t2 l) = limit l" "active (measure_rtt platform rtt t1 t2 l) = active l"
  "waitChs (measure_rtt platform rtt t1 t2 l) = waitChs l" "minLimit (measure_rtt platform rtt t1 t2 l) = minLimit l"
  "maxLimit (measure_rtt platform rtt t1 t2 l) = maxLimit l"
  by (simp_all add: measure_rtt_def Let_def)

lemma adjust_frame [simp]:
  "active (adjust l) = active l" "waitChs (adjust l) = waitChs l"
  "minLimit (adjust l) = minLimit l" "maxLimit (adjust l) = maxLimit l"
  by (simp_all add: adjust_def)

text \<open>One step down is clipped at 1, one step up at 1000; neither leaves the range by rounding.\<close>

lemma adjust_range:
  assumes "in_range (limit l)" and "minLimit l = Fin 1" and "maxLimit l = Fin 1000"
  shows "in_range (limit (adjust l))"
proof -
  from assms(1) obtain q where q: "limit l = Fin q" "1 \<le> q" "q \<le> 1000" by (auto simp: in_range_def)
  obtain d where d: "rnd (q - 1) = Fin d" "0 \<le> d" "d \<le> 999"
    by (rule rnd_between [of 0 999 "q - 1"]) (use q in auto)
  have two: "rnd 2 = Fin 2" and big: "rnd 1001 = Fin 1001" using rnd_int [of 2] rnd_int [of 1001] by simp_all
  obtain u where u: "rnd (q + 1) = Fin u" "2 \<le> u" "u \<le> 1001"
    by (rule rnd_between [OF two big, of "q + 1"]) (use q in auto)
  have "in_range (fmax (Fin 1) (fsub (Fin q) (Fin 1)))" "in_range (fmin (Fin 1000) (fadd (Fin q) (Fin 1)))"
    using d u by (auto simp: in_range_def fmax_def fmin_def fsub_def)
  with assms q show ?thesis by (simp add: adjust_def)
qed

text \<open>A whole limit stays whole.\<close>

lemma adjust_whole:
  assumes "limit l = Fin (of_int n)" and "1 \<le> n" and "n \<le> 1000" and "minLimit l = Fin 1" and "maxLimit l = Fin 1000"
  shows "\<exists>k. limit (adjust l) = Fin (of_int k)"
proof -
  have d: "rnd (of_int n - 1) = Fin (of_int (n - 1))" and u: "rnd (of_int n + 1) = Fin (of_int (n + 1))"
    using rnd_int [of "n - 1"] rnd_int [of "n + 1"] assms(2,3) by simp_all
  have "\<exists>k. fmax (Fin 1) (Fin (of_int (n - 1))) = Fin (of_int k)" "\<exists>k. fmin (Fin 1000) (Fin (of_int (n + 1))) = Fin (of_int k)"
    unfolding fmax_def fmin_def by (auto intro: exI [of _ 1] exI [of _ 1000] exI [of _ "n - 1"] exI [of _ "n + 1"])
  with assms d u show ?thesis by (auto simp: adjust_def fsub_def)
qed

lemma in_range_int:
  assumes "in_range x"
  shows "1 \<le> to_int platform x \<and> to_int platform x \<le> 1000"
proof -
  from assms obtain q where q: "x = Fin q" "1 \<le> q" "q \<le> 1000" by (auto simp: in_range_def)
  then have "1 \<le> trunc_rat q \<and> trunc_rat q \<le> 1000" by (simp add: trunc_rat_def)
  then show ?thesis by (simp add: q to_int_def min_dur_def max_dur_def)
qed

section \<open>The invariant\<close>

definition lim_acct :: "lim_sys \<Rightarrow> bool" where
  "lim_acct s \<longleftrightarrow> acct (active (lmt s)) (waitChs (lmt s)) (closed s) (next_ch s) (places s) (lost s)"

definition lim_inv :: "(float64 \<Rightarrow> int) \<Rightarrow> lim_sys \<Rightarrow> bool" where
  "lim_inv platform s \<longleftrightarrow> lim_acct s \<and> (waitChs (lmt s) = [] \<or> to_int platform (limit (lmt s)) \<le> active (lmt s))"

definition range_inv :: "bool \<Rightarrow> lim_sys \<Rightarrow> bool" where
  "range_inv whole s \<longleftrightarrow> in_range (limit (lmt s)) \<and> active (lmt s) \<le> 1000 \<and>
     minLimit (lmt s) = Fin 1 \<and> maxLimit (lmt s) = Fin 1000 \<and>
     (whole \<longrightarrow> (\<exists>n. limit (lmt s) = Fin (of_int n)))"

text \<open>\<open>refill\<close> keeps the accounting and leaves no free slot with a waiter queued.\<close>

lemma refill_acct:
  assumes "acct (active x) (waitChs x) C n pl k" and "refill platform x = (y, cs)"
  shows "acct (active y) (waitChs y) (C \<union> set cs) n pl k"
  using acct_close [of "active x" cs "waitChs y" C n pl k] assms
    refill.grant_queue [OF assms(2)] refill.grant_act [OF assms(2)] by simp

lemma lim_inv_step:
  assumes I: "lim_inv platform s" and st: "lim_step platform l s = Some s'"
  shows "lim_inv platform s'"
proof (cases l)
  case (Acquire g)
  have A: "acct (active (lmt s)) (waitChs (lmt s)) (closed s) (next_ch s) (places s) (lost s)"
    using I by (simp add: lim_inv_def lim_acct_def)
  from st Acquire have idle: "places s g = Idle" by (auto split: if_splits)
  show ?thesis
  proof (cases "active (lmt s) < to_int platform (limit (lmt s))")
    case True
    with st Acquire idle have "s' = s\<lparr>lmt := (lmt s)\<lparr>active := active (lmt s) + 1\<rparr>, places := (places s)(g := Holding)\<rparr>"
      by (simp add: acquire_section_def)
    with I acct_fast [OF A, of g] idle show ?thesis by (auto simp: lim_inv_def lim_acct_def)
  next
    case False
    with st Acquire idle have "s' = s\<lparr>lmt := (lmt s)\<lparr>waitChs := waitChs (lmt s) @ [next_ch s]\<rparr>,
        places := (places s)(g := Blocked (next_ch s)), next_ch := Suc (next_ch s)\<rparr>"
      by (simp add: acquire_section_def)
    with False acct_block [OF A, of g] idle show ?thesis by (auto simp: lim_inv_def lim_acct_def)
  qed
next
  case (Wake g)
  with assms show ?thesis by (auto simp: lim_inv_def lim_acct_def acct_wake split: place.splits if_splits)
next
  case (GiveUp g)
  with assms show ?thesis by (auto simp: lim_inv_def lim_acct_def acct_cancel split: place.splits if_splits)
next
  case (Unqueue g)
  with st obtain c where c: "places s g = Cancelling c" by (auto split: place.splits)
  from I have "acct (active (lmt s)) (waitChs (lmt s)) (closed s) (next_ch s) (places s) (lost s)"
    by (simp add: lim_inv_def lim_acct_def)
  from acct_leave [OF this c] Unqueue st c I show ?thesis
    by (auto simp: lim_inv_def lim_acct_def cancel_section_def)
next
  case (Release g rtt t1 t2)
  with st have hold: "places s g = Holding" by (auto split: if_splits)
  define y where "y = adjust (measure_rtt platform rtt t1 t2 ((lmt s)\<lparr>active := active (lmt s) - 1\<rparr>))"
  obtain x cs where x: "refill platform y = (x, cs)" by fastforce
  with Release st hold have s': "s' = s\<lparr>lmt := x, places := (places s)(g := Idle), closed := closed s \<union> set cs\<rparr>"
    by (simp add: release_def y_def)
  have "acct (active y) (waitChs y) (closed s) (next_ch s) ((places s)(g := Idle)) (lost s)"
    using I hold by (simp add: lim_inv_def lim_acct_def y_def acct_release)
  from refill_acct [OF this x] refill.grant_stops [OF x] show ?thesis
    by (simp add: s' lim_inv_def lim_acct_def)
qed

lemma range_inv_step:
  assumes I: "range_inv whole s" and st: "lim_step platform l s = Some s'"
  shows "range_inv whole s'"
proof (cases l)
  case (Acquire g)
  from in_range_int [of "limit (lmt s)" platform] I have "to_int platform (limit (lmt s)) \<le> 1000" by (simp add: range_inv_def)
  with st Acquire I show ?thesis
    by (auto simp: range_inv_def acquire_section_def split: if_splits)
next
  case (Release g rtt t1 t2)
  define y where "y = adjust (measure_rtt platform rtt t1 t2 ((lmt s)\<lparr>active := active (lmt s) - 1\<rparr>))"
  obtain x cs where x: "refill platform y = (x, cs)" by fastforce
  with Release st have s': "s' = s\<lparr>lmt := x, places := (places s)(g := Idle), closed := closed s \<union> set cs\<rparr>"
    by (auto simp: release_def y_def split: if_splits)
  have y: "in_range (limit y)" "minLimit y = Fin 1" "maxLimit y = Fin 1000" "active y = active (lmt s) - 1"
    using I unfolding y_def range_inv_def by (auto intro!: adjust_range)
  have fr: "limit x = limit y" "minLimit x = minLimit y" "maxLimit x = maxLimit y"
    using hand_out_laws [OF x [unfolded refill_def]] by simp_all
  have "active x \<le> 1000"
    using refill.grant_act [OF x] refill.grant_fits [OF x] in_range_int [OF y(1), of platform] y(4) I fr
    by (cases "cs = []") (auto simp: range_inv_def)
  moreover have "\<exists>n. limit y = Fin (of_int n)" if whole
  proof -
    from I that obtain n where n: "limit (lmt s) = Fin (of_int n)" by (auto simp: range_inv_def)
    with I have "1 \<le> n" "n \<le> 1000" by (auto simp: range_inv_def in_range_def)
    with n I show ?thesis unfolding y_def range_inv_def by (intro adjust_whole) auto
  qed
  ultimately show ?thesis
    using y fr by (simp add: s' range_inv_def)
qed (use assms in \<open>auto simp: range_inv_def cancel_section_def split: place.splits if_splits\<close>)

lemma lim_inv_start: "lim_inv platform (lim_start q now)"
  by (simp add: lim_inv_def lim_acct_def lim_start_def newAdaptiveLimiter_def acct_init)

interpretation limiter: inductive_invariant "(=) (lim_start q now)" "labelled (lim_step platform)" "lim_inv platform" for q now platform
  by unfold_locales (auto simp: labelled_def intro: lim_inv_start lim_inv_step)

interpretation limited: inductive_invariant "\<lambda>s. s = lim_start (Fin q) now \<and> 1 \<le> q \<and> q \<le> 1000" "labelled (lim_step platform)"
    "range_inv (q \<in> \<int>)" for q now platform
proof
  show "range_inv (q \<in> \<int>) s" if "s = lim_start (Fin q) now \<and> 1 \<le> q \<and> q \<le> 1000" for s
    using that by (auto simp: range_inv_def in_range_def lim_start_def newAdaptiveLimiter_def elim!: Ints_cases)
  show "range_inv (q \<in> \<int>) s'" if "range_inv (q \<in> \<int>) s" "labelled (lim_step platform) s s'" for s s'
    using that by (auto simp: labelled_def intro: range_inv_step)
qed

text \<open>Nobody inside, nobody granted, no free slot: no step changes that.\<close>

definition stuck :: "(float64 \<Rightarrow> int) \<Rightarrow> lim_sys \<Rightarrow> bool" where
  "stuck platform s \<longleftrightarrow> lim_inv platform s \<and> to_int platform (limit (lmt s)) \<le> active (lmt s) \<and> active (lmt s) \<le> lost s"

lemma stuck_nobody:
  assumes "stuck platform s"
  shows "places s g \<noteq> Holding \<and> (places s g = Blocked c \<longrightarrow> c \<notin> closed s) \<and> (places s g = Cancelling c \<longrightarrow> c \<notin> closed s)"
proof -
  have A: "tracked Idle (places s)" "active (lmt s) = cnt (\<lambda>p. p = Holding) (places s) + cnt (granted (closed s)) (places s) + lost s"
    using assms by (auto simp: stuck_def lim_inv_def lim_acct_def acct_def)
  have "cnt (\<lambda>p. p = Holding) (places s) = 0" "cnt (granted (closed s)) (places s) = 0"
    using A(2) assms cnt_nonneg [of "\<lambda>p. p = Holding" "places s"] cnt_nonneg [of "granted (closed s)" "places s"]
    unfolding stuck_def by linarith+
  then have "places s g \<noteq> Holding" "\<not> granted (closed s) (places s g)"
    using cnt_zero_iff [where P = "\<lambda>p. p = Holding", OF A(1)] cnt_zero_iff [where P = "granted (closed s)", OF A(1)] by auto
  then show ?thesis by auto
qed

lemma stuck_step:
  assumes S: "stuck platform s" and st: "lim_step platform l s = Some s'"
  shows "stuck platform s'"
proof -
  have "to_int platform (limit (lmt s')) \<le> active (lmt s') \<and> active (lmt s') \<le> lost s'"
  proof (cases l)
    case (Acquire g)
    then show ?thesis using S st by (auto simp: stuck_def acquire_section_def split: if_splits)
  next
    case (Release g rtt t1 t2)
    with st stuck_nobody [OF S, of g] show ?thesis by simp
  qed (use S st in \<open>auto simp: stuck_def cancel_section_def split: place.splits if_splits\<close>)
  moreover have "lim_inv platform s'" using S lim_inv_step [OF _ st] by (simp add: stuck_def)
  ultimately show ?thesis by (simp add: stuck_def)
qed

lemma stuck_for_ever:
  assumes "(labelled (lim_step platform))\<^sup>*\<^sup>* s s'" and "stuck platform s"
  shows "places s' g \<noteq> Holding"
proof -
  from assms have "stuck platform s'"
    by (induction rule: rtranclp_induct) (auto simp: labelled_def intro: stuck_step)
  then show ?thesis using stuck_nobody by blast
qed

section \<open>Properties\<close>

text \<open>
  C21 (bounds): a limiter made with a limit from 1 to 1000 keeps its limit there, whatever round-trip times are
  reported, and a whole limit stays whole; so at most 1000 goroutines hold a slot, each slot counted in
  \<open>active\<close> is held, handed over or lost, and nobody queues while a slot is free.
\<close>

theorem limiter_bounds:
  assumes "lim_reach platform (Fin q) now s" and "1 \<le> q" and "q \<le> 1000"
  shows "(\<exists>r. limit (lmt s) = Fin r \<and> 1 \<le> r \<and> r \<le> 1000 \<and> (q \<in> \<int> \<longrightarrow> r \<in> \<int>)) \<and>
    active (lmt s) = cnt (\<lambda>p. p = Holding) (places s) + cnt (granted (closed s)) (places s) + lost s \<and>
    cnt (\<lambda>p. p = Holding) (places s) + lost s \<le> 1000 \<and>
    (waitChs (lmt s) = [] \<or> to_int platform (limit (lmt s)) \<le> active (lmt s))"
proof -
  have "reach (\<lambda>s. s = lim_start (Fin q) now \<and> 1 \<le> q \<and> q \<le> 1000) (labelled (lim_step platform)) s"
    using assms by (induction rule: reach.induct) (auto intro: reach_init reach_step)
  then have R: "range_inv (q \<in> \<int>) s" by (rule limited.inv_reachable)
  have L: "lim_inv platform s" by (rule limiter.inv_reachable [OF assms(1)])
  then have A: "active (lmt s) = cnt (\<lambda>p. p = Holding) (places s) + cnt (granted (closed s)) (places s) + lost s"
    by (simp add: lim_inv_def lim_acct_def acct_def)
  moreover have "active (lmt s) \<le> 1000" using R by (simp add: range_inv_def)
  with A have "cnt (\<lambda>p. p = Holding) (places s) + lost s \<le> 1000"
    using cnt_nonneg [of "granted (closed s)" "places s"] by linarith
  moreover have "\<exists>r. limit (lmt s) = Fin r \<and> 1 \<le> r \<and> r \<le> 1000 \<and> (q \<in> \<int> \<longrightarrow> r \<in> \<int>)"
    using R by (auto simp: range_inv_def in_range_def)
  ultimately show ?thesis
    using L by (auto simp: lim_inv_def)
qed

lemmas lim_run_defs = lim_start_def newAdaptiveLimiter_def acquire_section_def cancel_section_def release_def
  measure_rtt_def adjust_def queue_len_def refill_def to_int_def trunc_rat_def min_dur_def max_dur_def time_sub_def
  hand_out.simps Let_def of_int64_small fsub_def fmin_def fmax_def

definition two_trace :: "lim_label list" where
  "two_trace = [Acquire 0, Acquire 1, Release 0 100 0 0]"

lemma rnd_two [simp]: "rnd 2 = Fin 2"
  using rnd_int [of 2] by simp

theorem limiter_bounds_witness:
  "case run (lim_step (\<lambda>_. 0)) two_trace (lim_start (Fin 1) 0) of None \<Rightarrow> False
   | Some s \<Rightarrow> limit (lmt s) = Fin 2 \<and> cnt (\<lambda>p. p = Holding) (places s) + lost s \<le> 1000"
proof -
  have "\<exists>s. run (lim_step (\<lambda>_. 0)) two_trace (lim_start (Fin 1) 0) = Some s \<and> limit (lmt s) = Fin 2"
    by (simp add: two_trace_def lim_run_defs)
  then obtain s where s: "run (lim_step (\<lambda>_. 0)) two_trace (lim_start (Fin 1) 0) = Some s" "limit (lmt s) = Fin 2"
    by blast
  show ?thesis
    unfolding s(1) using limiter_bounds [OF lim_reach_run [OF s(1)]] s(2) by simp
qed

definition leak_trace :: "lim_label list" where
  "leak_trace = [Acquire 0, Acquire 1, Release 0 0 0 0, GiveUp 1, Unqueue 1]"

text \<open>
  Safety, a defect: \<open>Acquire\<close> loses slots as the semaphore's does. Whenever the slots counted in \<open>active\<close>
  are all lost ones and fill the limit, no step of any goroutine makes a slot available again.
\<close>

theorem limiter_stuck:
  assumes "lim_reach platform q now s" and "to_int platform (limit (lmt s)) \<le> lost s" and "\<forall>g. places s g = Idle"
    and "(labelled (lim_step platform))\<^sup>*\<^sup>* s s'"
  shows "places s' g \<noteq> Holding"
proof -
  have I: "lim_inv platform s" by (rule limiter.inv_reachable [OF assms(1)])
  moreover have "active (lmt s) = lost s"
    using I assms(3) by (simp add: lim_inv_def lim_acct_def acct_def cnt_def granted_def)
  ultimately have "stuck platform s" using assms(2) by (simp add: stuck_def)
  then show ?thesis by (rule stuck_for_ever [OF assms(4)])
qed

text \<open>
  Two such states: after the race of a cancellation with the hand-over of the only slot, and a new limiter
  with a limit below 1, to which \<open>NewAdaptiveLimiter\<close> does not apply \<open>minLimit\<close>.
\<close>

theorem limiter_stuck_witness:
  "(case run (lim_step (\<lambda>_. 0)) leak_trace (lim_start (Fin 1) 0) of None \<Rightarrow> False
    | Some s \<Rightarrow> \<forall>s' g. (labelled (lim_step (\<lambda>_. 0)))\<^sup>*\<^sup>* s s' \<longrightarrow> places s' g \<noteq> Holding) \<and>
   (\<forall>s' g. (labelled (lim_step (\<lambda>_. 0)))\<^sup>*\<^sup>* (lim_start (Fin (1 / 2)) 0) s' \<longrightarrow> places s' g \<noteq> Holding)"
proof
  have "\<exists>s. run (lim_step (\<lambda>_. 0)) leak_trace (lim_start (Fin 1) 0) = Some s \<and> limit (lmt s) = Fin 1 \<and> lost s = 1 \<and>
      (\<forall>g. places s g = Idle)"
    by (simp add: leak_trace_def lim_run_defs)
  then obtain s where s: "run (lim_step (\<lambda>_. 0)) leak_trace (lim_start (Fin 1) 0) = Some s" "limit (lmt s) = Fin 1"
    "lost s = 1" "\<forall>g. places s g = Idle" by blast
  have "to_int (\<lambda>_. 0) (limit (lmt s)) \<le> lost s" by (simp add: s(2,3) lim_run_defs)
  from limiter_stuck [OF lim_reach_run [OF s(1)] this s(4)]
  show "case run (lim_step (\<lambda>_. 0)) leak_trace (lim_start (Fin 1) 0) of None \<Rightarrow> False
    | Some s \<Rightarrow> \<forall>s' g. (labelled (lim_step (\<lambda>_. 0)))\<^sup>*\<^sup>* s s' \<longrightarrow> places s' g \<noteq> Holding"
    unfolding s(1) by simp
next
  let ?s = "lim_start (Fin (1 / 2)) 0"
  have "lim_reach (\<lambda>_. 0) (Fin (1 / 2)) 0 ?s" by (rule reach_start)
  moreover have "to_int (\<lambda>_. 0) (limit (lmt ?s)) \<le> lost ?s" and "\<forall>g. places ?s g = Idle"
    by (simp_all add: lim_run_defs)
  ultimately show "\<forall>s' g. (labelled (lim_step (\<lambda>_. 0)))\<^sup>*\<^sup>* ?s s' \<longrightarrow> places s' g \<noteq> Holding"
    using limiter_stuck by blast
qed

end
