(* ===== verification/LimiterSpec.thy ===== *)
theory LimiterSpec
  imports Limiter GateSpec
begin






section \<open>Properties\<close>



end
