(* ===== verification/LimiterTypes.thy ===== *)
theory LimiterTypes
  imports Limiter
begin















end
