(* ===== verification/Sekisho.thy ===== *)
theory Sekisho
  imports Prelude
begin

text \<open>
  \<open>sync/limiter/sekisho.go\<close>: a rate limiter per key. The limiters of \<open>golang.org/x/time/rate\<close> are objects
  in a store, of a type \<open>'l\<close> the model does not look into: \<open>fresh\<close> is \<open>rate.NewLimiter(r, b)\<close>, \<open>allow\<close> what
  \<open>Allow\<close> or the reservation of \<open>Wait\<close> does to one at an instant. A goroutine keeps the pointer that
  \<open>getLimiter\<close> gave it while the sweeper may delete the entry. Lemmas: goroutines using a key within
  its TTL share one limiter; a wait longer than the TTL breaks that; a closed limiter refuses.
\<close>

section \<open>The operations\<close>

record limiterEntry =
  limiter :: nat
  lastTouch :: int

record ('k, 'l) keyedLimiter =
  ttl :: int
  limiters :: "'k \<rightharpoonup> limiterEntry"
  closed :: bool
  objects :: "nat \<Rightarrow> 'l option"
  next_object :: nat

definition newKeyedLimiter :: "int \<Rightarrow> ('k, 'l) keyedLimiter" where
  "newKeyedLimiter t = \<lparr>ttl = t, limiters = Map.empty, closed = False, objects = (\<lambda>_. None), next_object = 0\<rparr>"

text \<open>The period of the sweeper, a millisecond at least; the division truncates.\<close>

definition sweepInterval :: "int \<Rightarrow> int" where
  "sweepInterval t = max (sgn t * (\<bar>t\<bar> div 2)) (10 ^ 6)"

definition sweep :: "int \<Rightarrow> ('k, 'l) keyedLimiter \<Rightarrow> ('k, 'l) keyedLimiter" where
  "sweep now kl = kl\<lparr>limiters := (\<lambda>k. case limiters kl k of
     None \<Rightarrow> None
   | Some e \<Rightarrow> if time_sub now (lastTouch e) > ttl kl then None else Some e)\<rparr>"

datatype limiter_error = ErrClosed

definition getLimiter :: "'l \<Rightarrow> 'k \<Rightarrow> int \<Rightarrow> ('k, 'l) keyedLimiter \<Rightarrow> (limiter_error + nat) \<times> ('k, 'l) keyedLimiter" where
  "getLimiter fresh k now kl =
     (if closed kl then (Inl ErrClosed, kl)
      else (case limiters kl k of
        Some e \<Rightarrow> (Inr (limiter e), kl\<lparr>limiters := (limiters kl)(k \<mapsto> e\<lparr>lastTouch := now\<rparr>)\<rparr>)
      | None \<Rightarrow> (let p = next_object kl in
          (Inr p, kl\<lparr>limiters := (limiters kl)(k \<mapsto> \<lparr>limiter = p, lastTouch = now\<rparr>),
             objects := (objects kl)(p \<mapsto> fresh), next_object := Suc p\<rparr>))))"

text \<open>The call on the limiter itself, made without the mutex of the map.\<close>

definition use_limiter :: "('l \<Rightarrow> int \<Rightarrow> 'r \<times> 'l) \<Rightarrow> nat \<Rightarrow> int \<Rightarrow> ('k, 'l) keyedLimiter \<Rightarrow> 'r option \<times> ('k, 'l) keyedLimiter" where
  "use_limiter allow p now kl =
     (case objects kl p of
        None \<Rightarrow> (None, kl)
      | Some l \<Rightarrow> (let (r, l') = allow l now in (Some r, kl\<lparr>objects := (objects kl)(p \<mapsto> l')\<rparr>)))"

text \<open>The locked part of \<open>Close\<close>; \<open>True\<close>: it goes on to wait for the sweeper.\<close>

definition close_section :: "('k, 'l) keyedLimiter \<Rightarrow> bool \<times> ('k, 'l) keyedLimiter" where
  "close_section kl = (if closed kl then (False, kl) else (True, kl\<lparr>closed := True\<rparr>))"

section \<open>Interleaving\<close>

text \<open>
  \<open>Got k p t\<close>: inside \<open>Allow\<close> or \<open>Wait\<close> with the limiter \<open>p\<close> of \<open>k\<close>, looked up at time \<open>t\<close>. \<open>AwaitSweeper\<close>: in
  \<open>wg.Wait\<close>. The sweeper is alive until it takes the \<open>closeCh\<close> branch of its \<open>select\<close>, where the
  ticker may win a few more times.
\<close>

datatype 'k use_place = Away | Got 'k nat int | AwaitSweeper

record ('k, 'l, 'r) keyed_sys =
  kl :: "('k, 'l) keyedLimiter"
  now :: int
  using_at :: "nat \<Rightarrow> 'k use_place"
  sweeping :: bool
  results :: "('k \<times> 'r) list"

definition keyed_start :: "int \<Rightarrow> int \<Rightarrow> ('k, 'l, 'r) keyed_sys" where
  "keyed_start t n = \<lparr>kl = newKeyedLimiter t, now = n, using_at = (\<lambda>_. Away), sweeping = True, results = []\<rparr>"

datatype 'k keyed_label = Pass int | Lookup nat 'k | Use nat | Tick | SweeperEnds | Close nat | CloseReturns nat

fun keyed_step :: "'l \<Rightarrow> ('l \<Rightarrow> int \<Rightarrow> 'r \<times> 'l) \<Rightarrow> 'k keyed_label \<Rightarrow> ('k, 'l, 'r) keyed_sys \<Rightarrow> ('k, 'l, 'r) keyed_sys option" where
  "keyed_step fresh allow (Pass d) s = (if 0 \<le> d then Some (s\<lparr>now := now s + d\<rparr>) else None)"
| "keyed_step fresh allow (Lookup g k) s =
     (if using_at s g = Away then
        (case getLimiter fresh k (now s) (kl s) of
           (Inl e, k') \<Rightarrow> Some s
         | (Inr p, k') \<Rightarrow> Some (s\<lparr>kl := k', using_at := (using_at s)(g := Got k p (now s))\<rparr>))
      else None)"
| "keyed_step fresh allow (Use g) s =
     (case using_at s g of
        Got k p t \<Rightarrow>
          (case use_limiter allow p (now s) (kl s) of
             (None, k') \<Rightarrow> None
           | (Some r, k') \<Rightarrow> Some (s\<lparr>kl := k', using_at := (using_at s)(g := Away), results := results s @ [(k, r)]\<rparr>))
      | _ \<Rightarrow> None)"
| "keyed_step fresh allow Tick s = (if sweeping s then Some (s\<lparr>kl := sweep (now s) (kl s)\<rparr>) else None)"
| "keyed_step fresh allow SweeperEnds s = (if sweeping s \<and> closed (kl s) then Some (s\<lparr>sweeping := False\<rparr>) else None)"
| "keyed_step fresh allow (Close g) s =
     (if using_at s g = Away then
        (case close_section (kl s) of
           (True, k') \<Rightarrow> Some (s\<lparr>kl := k', using_at := (using_at s)(g := AwaitSweeper)\<rparr>)
         | (False, k') \<Rightarrow> Some s)
      else None)"
| "keyed_step fresh allow (CloseReturns g) s =
     (if using_at s g = AwaitSweeper \<and> \<not> sweeping s then Some (s\<lparr>using_at := (using_at s)(g := Away)\<rparr>) else None)"

abbreviation keyed_reach :: "'l \<Rightarrow> ('l \<Rightarrow> int \<Rightarrow> 'r \<times> 'l) \<Rightarrow> int \<Rightarrow> int \<Rightarrow> ('k, 'l, 'r) keyed_sys \<Rightarrow> bool" where
  "keyed_reach fresh allow t n \<equiv> reach ((=) (keyed_start t n)) (labelled (keyed_step fresh allow))"

lemma keyed_reach_run: "run (keyed_step fresh allow) ls (keyed_start t n) = Some s \<Longrightarrow> keyed_reach fresh allow t n s"
  by (rule reach_run) (auto intro: reach_start)

lemmas keyed_defs = newKeyedLimiter_def sweep_def getLimiter_def use_limiter_def close_section_def keyed_start_def

section \<open>The invariant\<close>

text \<open>
  A pointer in use is the one in the map, touched since, unless the TTL has passed since the lookup;
  no object belongs to two keys.
\<close>

definition owner_inv :: "(nat \<Rightarrow> 'k option) \<Rightarrow> int \<Rightarrow> ('k, 'l, 'r) keyed_sys \<Rightarrow> bool" where
  "owner_inv own t s \<longleftrightarrow> ttl (kl s) = t \<and>
     (\<forall>p. own p \<noteq> None \<longleftrightarrow> p < next_object (kl s)) \<and> (\<forall>p. objects (kl s) p \<noteq> None \<longleftrightarrow> p < next_object (kl s)) \<and>
     (\<forall>k e. limiters (kl s) k = Some e \<longrightarrow> own (limiter e) = Some k \<and> lastTouch e \<le> now s) \<and>
     (\<forall>g k p u. using_at s g = Got k p u \<longrightarrow> own p = Some k \<and> u \<le> now s \<and>
        (now s - u \<le> t \<longrightarrow> (\<exists>e. limiters (kl s) k = Some e \<and> limiter e = p \<and> u \<le> lastTouch e)))"

definition keyed_inv :: "int \<Rightarrow> ('k, 'l, 'r) keyed_sys \<Rightarrow> bool" where
  "keyed_inv t s \<longleftrightarrow> (\<exists>own. owner_inv own t s) \<and> (sweeping s \<or> closed (kl s)) \<and>
     (\<forall>g. using_at s g = AwaitSweeper \<longrightarrow> closed (kl s))"

lemma owner_inv_start: "owner_inv (\<lambda>_. None) t (keyed_start t n)"
  by (simp add: owner_inv_def keyed_defs)

lemma owner_inv_lookup:
  assumes I: "owner_inv own t s" and k': "getLimiter fresh k (now s) (kl s) = (Inr p, k')"
  shows "\<exists>own. owner_inv own t (s\<lparr>kl := k', using_at := (using_at s)(g := Got k p (now s))\<rparr>)"
proof (cases "limiters (kl s) k")
  case (Some e)
  with k' have "p = limiter e" "k' = (kl s)\<lparr>limiters := (limiters (kl s))(k \<mapsto> e\<lparr>lastTouch := now s\<rparr>)\<rparr>"
    by (auto simp: getLimiter_def split: if_splits)
  moreover have "limiter e = q" if "using_at s h = Got k q u" "now s - u \<le> t" for h q u
    using I Some that unfolding owner_inv_def by (metis option.inject)
  ultimately have "owner_inv own t (s\<lparr>kl := k', using_at := (using_at s)(g := Got k p (now s))\<rparr>)"
    using I Some unfolding owner_inv_def by (auto split: if_splits)
  then show ?thesis by blast
next
  case None
  with k' have p: "p = next_object (kl s)"
    and k: "k' = (kl s)\<lparr>limiters := (limiters (kl s))(k \<mapsto> \<lparr>limiter = p, lastTouch = now s\<rparr>),
        objects := (objects (kl s))(p \<mapsto> fresh), next_object := Suc p\<rparr>"
    by (auto simp: getLimiter_def Let_def split: if_splits)
  have own_new: "own p = None" using I p by (auto simp: owner_inv_def)
  have "using_at s h = Got k q u \<Longrightarrow> \<not> now s - u \<le> t" for h q u
    using I None unfolding owner_inv_def by (metis option.distinct(1))
  moreover have "own q = Some k2 \<Longrightarrow> q \<noteq> p" for q k2 using own_new by auto
  ultimately have "owner_inv (own(p \<mapsto> k)) t (s\<lparr>kl := k', using_at := (using_at s)(g := Got k p (now s))\<rparr>)"
    using I p unfolding owner_inv_def k by (auto simp: less_Suc_eq split: if_splits)
  then show ?thesis by blast
qed

lemma owner_inv_sweep:
  assumes I: "owner_inv own t s" and t: "min_dur \<le> t" "t < max_dur"
  shows "owner_inv own t (s\<lparr>kl := sweep (now s) (kl s)\<rparr>)"
proof -
  have ttl: "ttl (kl s) = t" using I by (simp add: owner_inv_def)
  have keep: "limiters (sweep (now s) (kl s)) k = Some e \<longleftrightarrow> limiters (kl s) k = Some e \<and> now s - lastTouch e \<le> t" for k e
    using time_sub_less_iff [OF t, of "now s" "lastTouch e"]
    by (auto simp: sweep_def ttl split: option.splits if_splits)
  have same: "ttl (sweep (now s) (kl s)) = t" "next_object (sweep (now s) (kl s)) = next_object (kl s)"
    "objects (sweep (now s) (kl s)) = objects (kl s)"
    by (simp_all add: sweep_def ttl)
  show ?thesis
    using I unfolding owner_inv_def by (simp add: keep same) fastforce
qed

lemma owner_inv_step:
  assumes I: "owner_inv own t s" and st: "keyed_step fresh allow l s = Some s'" and t: "min_dur \<le> t" "t < max_dur"
  shows "\<exists>own. owner_inv own t s'"
proof (cases l)
  case (Lookup g k)
  with st I show ?thesis
    using owner_inv_lookup [OF I, of fresh k]
    by (auto split: if_splits prod.splits sum.splits)
next
  case Tick
  with st owner_inv_sweep [OF I t] show ?thesis by (auto split: if_splits)
next
  case (Use g)
  with st obtain k p u l' r where g: "using_at s g = Got k p u" and "objects (kl s) p = Some l'"
    and s': "s' = s\<lparr>kl := (kl s)\<lparr>objects := (objects (kl s))(p \<mapsto> r)\<rparr>, using_at := (using_at s)(g := Away),
      results := results s @ [(k, fst (allow l' (now s)))]\<rparr>"
    by (auto simp: use_limiter_def split: use_place.splits option.splits prod.splits)
  moreover have "p < next_object (kl s)" using I calculation(2) by (auto simp: owner_inv_def)
  ultimately have "owner_inv own t s'"
    using I by (auto simp: owner_inv_def s' split: if_splits)
  then show ?thesis by blast
next
  case (Pass d)
  with I st have "owner_inv own t s'" unfolding owner_inv_def by (fastforce split: if_splits)
  then show ?thesis by blast
next
  case SweeperEnds
  with I st have "owner_inv own t s'" by (auto simp: owner_inv_def split: if_splits)
  then show ?thesis by blast
next
  case (Close g)
  with I st have "owner_inv own t s'" by (auto simp: owner_inv_def close_section_def split: if_splits)
  then show ?thesis by blast
next
  case (CloseReturns g)
  with I st have "owner_inv own t s'" by (auto simp: owner_inv_def split: if_splits)
  then show ?thesis by blast
qed

lemma getLimiter_closed: "getLimiter fresh k n l = (x, l') \<Longrightarrow> closed l' = closed l"
  by (auto simp: getLimiter_def Let_def split: if_splits option.splits)

lemma closed_step:
  assumes "keyed_step fresh allow l s = Some s'" and "closed (kl s)"
  shows "closed (kl s')"
  using assms
  by (cases l)
    (auto simp: sweep_def use_limiter_def close_section_def dest: getLimiter_closed
      split: if_splits prod.splits sum.splits use_place.splits option.splits)

lemma keyed_inv_step:
  assumes I: "keyed_inv t s" and st: "keyed_step fresh allow l s = Some s'" and t: "min_dur \<le> t" "t < max_dur"
  shows "keyed_inv t s'"
proof -
  have "\<exists>own. owner_inv own t s'" using I owner_inv_step [OF _ st t] by (auto simp: keyed_inv_def)
  moreover have "(sweeping s' \<or> closed (kl s')) \<and> (\<forall>g. using_at s' g = AwaitSweeper \<longrightarrow> closed (kl s'))"
  proof (cases "closed (kl s)")
    case True
    with closed_step [OF st] show ?thesis by simp
  next
    case False
    with I st show ?thesis
      by (cases l)
        (auto simp: keyed_inv_def sweep_def use_limiter_def close_section_def dest: getLimiter_closed
          split: if_splits prod.splits sum.splits use_place.splits option.splits)
  qed
  ultimately show ?thesis by (simp add: keyed_inv_def)
qed

interpretation keyed: inductive_invariant "\<lambda>s. s = keyed_start t n \<and> min_dur \<le> t \<and> t < max_dur" "labelled (keyed_step fresh allow)"
    "\<lambda>s. keyed_inv t s \<and> min_dur \<le> t \<and> t < max_dur" for t n fresh allow
proof
  show "keyed_inv t s \<and> min_dur \<le> t \<and> t < max_dur" if "s = keyed_start t n \<and> min_dur \<le> t \<and> t < max_dur" for s :: "('a, 'b, 'c) keyed_sys"
    using that owner_inv_start [of t n] by (auto simp: keyed_inv_def keyed_start_def)
  show "keyed_inv t s' \<and> min_dur \<le> t \<and> t < max_dur"
    if "keyed_inv t s \<and> min_dur \<le> t \<and> t < max_dur" "labelled (keyed_step fresh allow) s s'" for s s' :: "('a, 'b, 'c) keyed_sys"
    using that keyed_inv_step by (auto simp: labelled_def)
qed

lemma keyed_inv_reach:
  assumes "keyed_reach fresh allow t n s" and "min_dur \<le> t" and "t < max_dur"
  shows "keyed_inv t s"
proof -
  have "reach (\<lambda>s. s = keyed_start t n \<and> min_dur \<le> t \<and> t < max_dur) (labelled (keyed_step fresh allow)) s"
    using assms by (induction rule: reach.induct) (auto intro: reach_init reach_step)
  from keyed.inv_reachable [OF this] show ?thesis by simp
qed

section \<open>Properties\<close>

text \<open>
  C25 (safety): goroutines that use a key within its TTL of having looked it up use one and the same limiter,
  the one in the map, and no limiter is ever used for two keys.
\<close>

theorem keyed_same_limiter:
  assumes "keyed_reach fresh allow t n s" and "min_dur \<le> t" and "t < max_dur"
    and "using_at s g = Got k p u" and "using_at s h = Got k' p' u'"
  shows "(k = k' \<and> now s - u \<le> t \<and> now s - u' \<le> t \<longrightarrow> p = p' \<and> (\<exists>e. limiters (kl s) k = Some e \<and> limiter e = p)) \<and>
    (p = p' \<longrightarrow> k = k')"
proof -
  obtain own where I: "owner_inv own t s"
    using keyed_inv_reach [OF assms(1-3)] by (auto simp: keyed_inv_def)
  then have own: "own p = Some k" "own p' = Some k'"
    using assms(4,5) by (auto simp: owner_inv_def)
  have cur: "\<exists>e. limiters (kl s) i = Some e \<and> limiter e = q" if "using_at s f = Got i q v" "now s - v \<le> t" for f i q v
    using I that unfolding owner_inv_def by blast
  from own cur [OF assms(4)] cur [OF assms(5)] show ?thesis by auto
qed

text \<open>A token bucket without refill, for the examples: a limiter is the number of events it still allows.\<close>

definition spend :: "nat \<Rightarrow> int \<Rightarrow> bool \<times> nat" where
  "spend l n = (case l of 0 \<Rightarrow> (False, 0) | Suc m \<Rightarrow> (True, m))"

definition two_users :: "nat keyed_label list" where
  "two_users = [Lookup 0 7, Pass 5, Tick, Lookup 1 7]"

theorem keyed_same_limiter_witness:
  "case run (keyed_step 1 spend) two_users (keyed_start 10 0) of None \<Rightarrow> False
   | Some s \<Rightarrow> using_at s 0 = Got 7 0 0 \<and> using_at s 1 = Got 7 0 5 \<and> (\<exists>e. limiters (kl s) 7 = Some e \<and> limiter e = 0)"
proof -
  have "\<exists>s. run (keyed_step 1 spend) two_users (keyed_start 10 0) = Some s \<and> using_at s 0 = Got 7 0 0 \<and>
      using_at s 1 = Got 7 0 5 \<and> now s = 5"
    by (simp add: two_users_def keyed_defs time_sub_def min_dur_def max_dur_def)
  then obtain s where s: "run (keyed_step 1 spend) two_users (keyed_start 10 0) = Some s" "using_at s 0 = Got 7 0 0"
      "using_at s 1 = Got 7 0 5" "now s = 5" by blast
  have t: "min_dur \<le> 10" "10 < max_dur" by (simp_all add: min_dur_def max_dur_def)
  show ?thesis
    unfolding s(1) using keyed_same_limiter [OF keyed_reach_run [OF s(1)] t s(2,3)] s(2-4) by simp
qed

text \<open>
  Error behaviour: once \<open>Close\<close> has taken effect the limiter stays closed; every \<open>Allow\<close> and \<open>Wait\<close> that starts
  then returns \<open>ErrClosed\<close> and creates nothing, and a further \<open>Close\<close> does nothing.
\<close>

theorem keyed_closed:
  assumes "closed (kl s)" and "(labelled (keyed_step fresh allow))\<^sup>*\<^sup>* s s'"
  shows "getLimiter fresh k (now s') (kl s') = (Inl ErrClosed, kl s') \<and> close_section (kl s') = (False, kl s')"
proof -
  from assms(2,1) have "closed (kl s')"
    by (induction rule: rtranclp_induct) (auto simp: labelled_def intro: closed_step)
  then show ?thesis by (simp add: getLimiter_def close_section_def)
qed

theorem keyed_closed_witness:
  "case run (keyed_step 1 spend) [Lookup 0 (7 :: nat), Close 1] (keyed_start 10 0) of None \<Rightarrow> False
   | Some s \<Rightarrow> getLimiter 1 7 (now s) (kl s) = (Inl ErrClosed, kl s) \<and> limiters (kl s) 7 \<noteq> None"
proof -
  have "\<exists>s. run (keyed_step 1 spend) [Lookup 0 (7 :: nat), Close 1] (keyed_start 10 0) = Some s \<and> closed (kl s) \<and> limiters (kl s) 7 \<noteq> None"
    by (simp add: keyed_defs)
  then obtain s where s: "run (keyed_step 1 spend) [Lookup 0 (7 :: nat), Close 1] (keyed_start 10 0) = Some s"
      "closed (kl s)" "limiters (kl s) 7 \<noteq> None" by blast
  show ?thesis
    unfolding s(1) using keyed_closed [where fresh = 1 and allow = spend and k = 7, OF s(2) rtranclp.rtrancl_refl] s(3) by simp
qed

definition split_trace :: "'k \<Rightarrow> 'k keyed_label list" where
  "split_trace k = [Lookup 0 k, Pass 11, Tick, Lookup 1 k, Use 0, Use 1]"

text \<open>
  Safety, a defect: a \<open>Wait\<close> that lasts longer than the TTL does not keep its key alive. The sweeper
  deletes the entry, the next caller gets a second limiter, and with a budget of one event per key
  two events are allowed.
\<close>

theorem keyed_split:
  "case run (keyed_step 1 spend) (split_trace k) (keyed_start 10 0) of None \<Rightarrow> False
   | Some s \<Rightarrow> results s = [(k, True), (k, True)] \<and> fst (spend (snd (spend 1 0)) 0) = False"
  by (simp add: split_trace_def keyed_defs spend_def time_sub_def min_dur_def max_dur_def)

end
