(* ===== verification/Generic.thy ===== *)
theory Generic
  imports Prelude
begin

text \<open>
  \<open>generic/types.go\<close>, \<open>generic/slices.go\<close> and \<open>generic/collections.go\<close>. A pointer to a fresh copy is an
  option, a slice the list of its elements (an option where the code tells nil from empty), a Go
  map a partial map; the order in which \<open>range\<close> visits a map is a parameter, of which only that it
  lists each key once is used. The type arguments compare by equality, so not the floating-point
  ones, whose NaN differs from itself. Lemmas: the loops over slices equal the list functions that
  specify them, also the one that overwrites its argument; sets and the cache against their
  abstract readings.
\<close>

section \<open>types.go\<close>

definition applyOptions :: "('t \<Rightarrow> 't) option list \<Rightarrow> 't \<Rightarrow> 't" where
  "applyOptions opts target = fold (\<lambda>opt t. case opt of None \<Rightarrow> t | Some f \<Rightarrow> f t) opts target"

definition ptr :: "'a \<Rightarrow> 'a option" where
  "ptr v = Some v"

definition ptrOrNil :: "'a::zero \<Rightarrow> 'a option" where
  "ptrOrNil v = (if v = 0 then None else Some v)"

definition isZero :: "'a::zero \<Rightarrow> bool" where
  "isZero v \<longleftrightarrow> v = 0"

definition deref :: "'a::zero option \<Rightarrow> 'a" where
  "deref p = (case p of None \<Rightarrow> 0 | Some v \<Rightarrow> v)"

definition derefOr :: "'a option \<Rightarrow> 'a \<Rightarrow> 'a" where
  "derefOr p def = (case p of None \<Rightarrow> def | Some v \<Rightarrow> v)"

fun coalesce :: "'a::zero list \<Rightarrow> 'a" where
  "coalesce [] = 0"
| "coalesce (v # vs) = (if v \<noteq> 0 then v else coalesce vs)"

definition ternary :: "bool \<Rightarrow> 'a \<Rightarrow> 'a \<Rightarrow> 'a" where
  "ternary c a b = (if c then a else b)"

section \<open>slices.go\<close>

definition indexBy :: "'v list option \<Rightarrow> ('v \<Rightarrow> 'k) \<Rightarrow> ('k \<rightharpoonup> 'v) option" where
  "indexBy xs f = map_option (\<lambda>vs. fold (\<lambda>v res. res(f v \<mapsto> v)) vs Map.empty) xs"

fun unique_loop :: "'a list \<Rightarrow> 'a set \<Rightarrow> 'a list \<Rightarrow> 'a list" where
  "unique_loop [] seen res = res"
| "unique_loop (v # vs) seen res =
     (if v \<notin> seen then unique_loop vs (insert v seen) (res @ [v]) else unique_loop vs seen res)"

definition unique :: "'a list \<Rightarrow> 'a list" where
  "unique xs = (if xs = [] then xs else unique_loop xs {} [])"

definition groupBy :: "'v list option \<Rightarrow> ('v \<Rightarrow> 'k) \<Rightarrow> ('k \<rightharpoonup> 'v list) option" where
  "groupBy xs f = map_option (\<lambda>vs. fold (\<lambda>v res. let k = f v in
     res(k \<mapsto> (case res k of None \<Rightarrow> [] | Some xs \<Rightarrow> xs) @ [v])) vs Map.empty) xs"

fun any :: "'a list \<Rightarrow> ('a \<Rightarrow> bool) \<Rightarrow> bool" where
  "any [] p \<longleftrightarrow> False"
| "any (v # vs) p \<longleftrightarrow> p v \<or> any vs p"

fun all :: "'a list \<Rightarrow> ('a \<Rightarrow> bool) \<Rightarrow> bool" where
  "all [] p \<longleftrightarrow> True"
| "all (v # vs) p \<longleftrightarrow> (if \<not> p v then False else all vs p)"

fun find_first :: "'a::zero list \<Rightarrow> ('a \<Rightarrow> bool) \<Rightarrow> 'a \<times> bool" where
  "find_first [] p = (0, False)"
| "find_first (v # vs) p = (if p v then (v, True) else find_first vs p)"

text \<open>
  \<open>FilterInPlace\<close> over the backing array: the loop reads index \<open>i\<close> of the array it writes to at index
  \<open>n\<close>; then \<open>clear\<close> zeroes the rest. The result is the returned slice and the array.
\<close>

function filter_loop :: "('a \<Rightarrow> bool) \<Rightarrow> nat \<Rightarrow> nat \<Rightarrow> 'a list \<Rightarrow> nat \<times> 'a list" where
  "filter_loop p i n xs =
     (if i < length xs then
        (let v = xs ! i in
         if p v then filter_loop p (Suc i) (Suc n) (xs[n := v]) else filter_loop p (Suc i) n xs)
      else (n, xs))"
  by pat_completeness auto
termination
  by (relation "measure (\<lambda>(p, i, n, xs). length xs - i)") auto

declare filter_loop.simps [simp del]

definition filterInPlace :: "'a::zero list \<Rightarrow> ('a \<Rightarrow> bool) \<Rightarrow> 'a list \<times> 'a list" where
  "filterInPlace xs p =
     (let (n, arr) = filter_loop p 0 0 xs;
          ys = take n arr @ map (\<lambda>_. 0) (drop n arr)
      in (take n ys, ys))"

section \<open>collections.go\<close>

text \<open>The loop fills a slice made with the length of the argument.\<close>

fun map_loop :: "('a \<Rightarrow> 'b) \<Rightarrow> nat \<Rightarrow> 'a list \<Rightarrow> 'b list \<Rightarrow> 'b list" where
  "map_loop f i [] res = res"
| "map_loop f i (v # vs) res = map_loop f (Suc i) vs (res[i := f v])"

definition map_slice :: "'a list option \<Rightarrow> ('a \<Rightarrow> 'b::zero) \<Rightarrow> 'b list option" where
  "map_slice xs f = map_option (\<lambda>vs. map_loop f 0 vs (replicate (length vs) 0)) xs"

type_synonym 'a go_set = "'a \<rightharpoonup> unit"

definition add :: "'a \<Rightarrow> 'a go_set \<Rightarrow> 'a go_set" where
  "add item s = s(item \<mapsto> ())"


definition has :: "'a go_set \<Rightarrow> 'a \<Rightarrow> bool" where
  "has s item \<longleftrightarrow> s item \<noteq> None"



record 'v cacheItem =
  val :: 'v
  expiresAt :: int

type_synonym ('k, 'v) cache = "'k \<rightharpoonup> 'v cacheItem"

definition newCache :: "('k, 'v) cache" where
  "newCache = Map.empty"

definition cacheSet :: "'k \<Rightarrow> 'v \<Rightarrow> int \<Rightarrow> int \<Rightarrow> ('k, 'v) cache \<Rightarrow> ('k, 'v) cache" where
  "cacheSet key v ttl now c = c(key \<mapsto> \<lparr>val = v, expiresAt = now + ttl\<rparr>)"

definition cacheGet :: "'k \<Rightarrow> int \<Rightarrow> ('k, 'v::zero) cache \<Rightarrow> 'v \<times> bool" where
  "cacheGet key now c =
     (case c key of
        None \<Rightarrow> (0, False)
      | Some item \<Rightarrow> if now > expiresAt item then (0, False) else (val item, True))"

section \<open>The loops and their specifications\<close>

lemma filter_loop_spec:
  assumes "n \<le> i" and "i \<le> length xs" and "take n xs = filter p (take i ys)" and "drop i xs = drop i ys"
    and "length xs = length ys"
  shows "\<exists>zs. filter_loop p i n xs = (length (filter p ys), zs) \<and> length zs = length ys \<and>
    take (length (filter p ys)) zs = filter p ys"
  using assms
proof (induction p i n xs rule: filter_loop.induct)
  case (1 p i n xs)
  have n: "n = length (filter p (take i ys))"
    using "1.prems"(1-3) by (metis length_take min.absorb2 order_trans)
  show ?case
  proof (cases "i < length xs")
    case False
    then have "filter_loop p i n xs = (n, xs)" by (simp add: filter_loop.simps [of p i n xs])
    with False "1.prems" n show ?thesis by auto
  next
    case True
    let ?v = "xs ! i"
    have v: "?v = ys ! i" "take (Suc i) ys = take i ys @ [?v]"
      using True "1.prems"(4,5) by (metis hd_drop_conv_nth, metis hd_drop_conv_nth take_Suc_conv_app_nth)
    have tl: "drop (Suc i) xs = drop (Suc i) ys"
      using "1.prems"(4) by (metis drop_Suc tl_drop)
    show ?thesis
    proof (cases "p ?v")
      case p: True
      have "take (Suc n) (xs[n := ?v]) = filter p (take (Suc i) ys)"
        using "1.prems" p True v by (simp add: take_Suc_conv_app_nth)
      moreover have "drop (Suc i) (xs[n := ?v]) = drop (Suc i) ys"
        using tl "1.prems"(1) by simp
      ultimately show ?thesis
        using "1.IH"(1) [OF True refl p] "1.prems" True p
        by (simp add: filter_loop.simps [of p i n xs] Let_def)
    next
      case False
      have "take n xs = filter p (take (Suc i) ys)"
        using "1.prems"(3) False v by simp
      then show ?thesis
        using "1.IH"(2) [OF True refl False] "1.prems" True False tl
        by (simp add: filter_loop.simps [of p i n xs] Let_def)
    qed
  qed
qed

lemma remdups_snoc: "remdups (xs @ [v]) = remdups (filter (\<lambda>u. u \<noteq> v) xs) @ [v]"
  by (induction xs) auto

lemma unique_loop_spec:
  assumes "set res = seen"
  shows "unique_loop vs seen res = res @ rev (remdups (rev (filter (\<lambda>v. v \<notin> seen) vs)))"
  using assms
proof (induction vs seen res rule: unique_loop.induct)
  case (2 v vs seen res)
  have "filter (\<lambda>u. u \<noteq> v) (rev (filter (\<lambda>u. u \<notin> seen) vs)) = rev (filter (\<lambda>u. u \<notin> insert v seen) vs)"
    by (induction vs) auto
  with 2 show ?case by (simp add: remdups_snoc)
qed simp

lemma map_loop_spec:
  "length pre + length vs = length res \<Longrightarrow> take (length pre) res = pre \<Longrightarrow>
   map_loop f (length pre) vs res = pre @ map f vs"
proof (induction vs arbitrary: pre res)
  case (Cons v vs)
  let ?res = "res[length pre := f v]"
  have "take (Suc (length pre)) ?res = pre @ [f v]"
    using Cons.prems by (simp add: take_Suc_conv_app_nth)
  with Cons.IH [of "pre @ [f v]" ?res] Cons.prems show ?case by simp
qed simp

lemma any_iff: "any vs p \<longleftrightarrow> (\<exists>v \<in> set vs. p v)"
  by (induction vs) auto

lemma all_iff: "all vs p \<longleftrightarrow> (\<forall>v \<in> set vs. p v)"
  by (induction vs) auto

lemma find_first_spec: "find_first vs p = (case List.find p vs of None \<Rightarrow> (0, False) | Some v \<Rightarrow> (v, True))"
  by (induction vs) auto

lemma indexBy_fold: "fold (\<lambda>v res. res(f v \<mapsto> v)) vs m k =
    (case filter (\<lambda>v. f v = k) vs of [] \<Rightarrow> m k | xs \<Rightarrow> Some (last xs))"
  by (induction vs arbitrary: m) (auto split: list.splits)

lemma groupBy_fold: "fold (\<lambda>v res. let k = f v in res(k \<mapsto> (case res k of None \<Rightarrow> [] | Some xs \<Rightarrow> xs) @ [v])) vs m k =
    (case filter (\<lambda>v. f v = k) vs of [] \<Rightarrow> m k | xs \<Rightarrow> Some ((case m k of None \<Rightarrow> [] | Some ys \<Rightarrow> ys) @ xs))"
  by (induction vs arbitrary: m) (auto simp: Let_def split: list.splits option.splits)

section \<open>Sets\<close>

text \<open>The contract of a set with an insertion and a membership test, read through \<open>elems\<close>.\<close>

locale set_interface =
  fixes empty :: "'s"
    and insert_elem :: "'a \<Rightarrow> 's \<Rightarrow> 's"
    and member :: "'s \<Rightarrow> 'a \<Rightarrow> bool"
    and elems :: "'s \<Rightarrow> 'a set"
  assumes elems_empty: "elems empty = {}"
    and elems_insert: "elems (insert_elem x s) = insert x (elems s)"
    and member_iff: "member s x \<longleftrightarrow> x \<in> elems s"
begin

lemma elems_fold: "elems (fold (\<lambda>x s. if P x then insert_elem x s else s) xs s) = elems s \<union> {x \<in> set xs. P x}"
  by (induction xs arbitrary: s) (auto simp: elems_insert)

lemma elems_fold_all: "elems (fold insert_elem xs empty) = set xs"
  using elems_fold [of "\<lambda>_. True" xs empty] by (simp add: elems_empty)

lemma elems_fold_member: "elems (fold (\<lambda>x s. if member t x then insert_elem x s else s) xs empty) = set xs \<inter> elems t"
  using elems_fold [of "member t" xs empty] by (auto simp: elems_empty member_iff)

end

interpretation go_set: set_interface Map.empty add has dom
  by unfold_locales (auto simp: add_def has_def)



section \<open>The cache and its history\<close>

text \<open>The calls of \<open>Set\<close> so far, each with its key, value, TTL and time.\<close>

type_synonym ('k, 'v) history = "('k \<times> 'v \<times> int \<times> int) list"

definition replay :: "('k, 'v) history \<Rightarrow> ('k, 'v) cache" where
  "replay h = fold (\<lambda>(k, v, ttl, now) c. cacheSet k v ttl now c) h newCache"

lemma replay_lookup:
  "replay h k = (case filter (\<lambda>(k', _). k' = k) h of [] \<Rightarrow> None
     | xs \<Rightarrow> (case last xs of (_, v, ttl, t) \<Rightarrow> Some \<lparr>val = v, expiresAt = t + ttl\<rparr>))"
proof -
  have "fold (\<lambda>(k, v, ttl, now) c. cacheSet k v ttl now c) h m k =
      (case filter (\<lambda>(k', _). k' = k) h of [] \<Rightarrow> m k
       | xs \<Rightarrow> (case last xs of (_, v, ttl, t) \<Rightarrow> Some \<lparr>val = v, expiresAt = t + ttl\<rparr>))" for m
    by (induction h arbitrary: m) (auto simp: cacheSet_def split: list.splits)
  then show ?thesis by (simp add: replay_def newCache_def)
qed

section \<open>Properties\<close>

text \<open>
  C26 (equivalence): \<open>FilterInPlace\<close>, which reads the array it overwrites, returns the elements that satisfy the
  predicate in their order, and leaves zero values in the rest of the array.
\<close>

theorem generic_filter_in_place:
  "filterInPlace xs p = (filter p xs, filter p xs @ replicate (length (filter (\<lambda>v. \<not> p v) xs)) 0)"
proof -
  obtain zs where z: "filter_loop p 0 0 xs = (length (filter p xs), zs)" "length zs = length xs"
      "take (length (filter p xs)) zs = filter p xs"
    using filter_loop_spec [of 0 0 xs p xs] by auto
  have "length xs - length (filter p xs) = length (filter (\<lambda>v. \<not> p v) xs)"
    using sum_length_filter_compl [of p xs] by linarith
  then have "map (\<lambda>_. 0) (drop (length (filter p xs)) zs) = replicate (length (filter (\<lambda>v. \<not> p v) xs)) 0"
    by (simp add: map_replicate_const z(2))
  then show ?thesis
    using z by (simp add: filterInPlace_def)
qed

text \<open>
  Functional: \<open>Unique\<close> keeps the first occurrence of every element, in order: it is the library's
  duplicate removal from the other end, without duplicates, with the same elements, and idempotent.
\<close>

theorem generic_unique:
  "unique xs = rev (remdups (rev xs)) \<and> distinct (unique xs) \<and> set (unique xs) = set xs \<and> unique (unique xs) = unique xs"
proof -
  have u: "unique ys = rev (remdups (rev ys))" for ys :: "'a list"
    using unique_loop_spec [of "[]" "{}" ys] by (simp add: unique_def)
  then show ?thesis by (simp add: distinct_remdups_id)
qed

text \<open>
  Functional: \<open>GroupBy\<close> maps a key to the elements with that key, in order, \<open>IndexBy\<close> to the last of them, and
  neither has any other key.
\<close>

theorem generic_group_index:
  "groupBy (Some xs) f = Some (\<lambda>k. if k \<in> f ` set xs then Some (filter (\<lambda>v. f v = k) xs) else None) \<and>
   indexBy (Some xs) f = Some (\<lambda>k. if k \<in> f ` set xs then Some (last (filter (\<lambda>v. f v = k) xs)) else None)"
proof -
  have "k \<in> f ` set xs \<longleftrightarrow> filter (\<lambda>v. f v = k) xs \<noteq> []" for k
    by (auto simp: filter_empty_conv)
  then show ?thesis
    by (auto simp: groupBy_def indexBy_def fun_eq_iff groupBy_fold indexBy_fold split: list.splits)
qed




text \<open>
  Refinement: the cache stands for the history of \<open>Set\<close> calls: \<open>Get\<close> returns the value of the last one with
  its key until, and including, the instant at which its TTL ends, and otherwise the zero value and \<open>false\<close>.
\<close>

theorem generic_cache_history:
  "cacheGet k now (replay h) =
     (case filter (\<lambda>(k', _). k' = k) h of
        [] \<Rightarrow> (0, False)
      | xs \<Rightarrow> (case last xs of (_, v, ttl, t) \<Rightarrow> if now - t \<le> ttl then (v, True) else (0, False)))"
  by (auto simp: cacheGet_def replay_lookup split: list.splits prod.splits)

text \<open>
  Round trip: dereferencing gives back what a pointer was made from, also through \<open>PtrOrNil\<close>, which is nil for
  the zero value only, and a default is used for nil only; \<open>Coalesce\<close> finds the first non-zero value.
\<close>

theorem generic_pointers:
  "deref (ptr v) = v \<and> deref (ptrOrNil v) = v \<and> (ptrOrNil v = None \<longleftrightarrow> isZero v) \<and> derefOr (ptr v) d = v \<and>
   derefOr (ptrOrNil v) d = ternary (isZero v) d v \<and>
   coalesce vs = fst (find_first vs (\<lambda>v. \<not> isZero v))"
  by (induction vs) (auto simp: deref_def ptr_def ptrOrNil_def derefOr_def isZero_def ternary_def)

text \<open>Functional: the loop of \<open>Map\<close> over a preallocated slice is the map of the elements; nil stays nil.\<close>

theorem generic_map:
  "map_slice xs f = map_option (List.map f) xs"
  by (cases xs) (simp_all add: map_slice_def map_loop_spec [of "[]", simplified])

end
