(* ===== verification/GenericPar.thy ===== *)
theory GenericPar
  imports Prelude
begin

text \<open>
  \<open>ParallelMap\<close> and \<open>ParallelForEach\<close> of \<open>generic/concurrency.go\<close>. Both run the same loop: take a slot of the
  channel \<open>sem\<close>, start a goroutine for the next element, and wait for all at the end. The system below
  is that loop; the two functions differ in what a goroutine stores and in what is returned.
  Lemmas: at most \<open>limit\<close> calls of \<open>fn\<close> run at once; what is returned once all have ended.
\<close>

section \<open>The loop and its goroutines\<close>

text \<open>
  A goroutine runs \<open>fn\<close>, has stored its result, or has given its slot back (the deferred calls run in reverse
  order), and is over after \<open>wg.Done\<close>.
\<close>

datatype par_worker = NotStarted | InFn | Stored | SlotBack | Over

datatype 'out par_main = Looping | WaitGroup | Cancelled | Returned 'out

record ('r, 'o, 'out) par =
  total :: nat
  limit :: nat
  next_idx :: nat
  slots_used :: nat
  worker :: "nat \<Rightarrow> par_worker"
  stored :: "nat \<Rightarrow> 'r option"
  collected :: 'o
  main :: "'out par_main"

text \<open>The limit that is used: at least one.\<close>

definition effective_limit :: "int \<Rightarrow> nat" where
  "effective_limit lim = (if lim \<le> 0 then 1 else nat lim)"

definition par_start :: "nat \<Rightarrow> int \<Rightarrow> 'o \<Rightarrow> ('r, 'o, 'out) par" where
  "par_start n lim out = \<lparr>total = n, limit = effective_limit lim, next_idx = 0, slots_used = 0,
     worker = (\<lambda>_. NotStarted), stored = (\<lambda>_. None), collected = out, main = Looping\<rparr>"

datatype 'r par_label = Spawn | CtxDone | LoopEnds | FnReturns nat 'r | FreeSlot nat | Done nat | WaitReturns

text \<open>\<open>store\<close>: what a goroutine does with its result; \<open>finish\<close>: what is returned after \<open>wg.Wait\<close>.\<close>

fun par_step :: "(nat \<Rightarrow> 'r \<Rightarrow> 'o \<Rightarrow> 'o) \<Rightarrow> ('o \<Rightarrow> 'out) \<Rightarrow> 'r par_label \<Rightarrow> ('r, 'o, 'out) par \<Rightarrow> ('r, 'o, 'out) par option" where
  "par_step store finish Spawn s =
     (if main s = Looping \<and> next_idx s < total s \<and> slots_used s < limit s then
        Some (s\<lparr>slots_used := slots_used s + 1, worker := (worker s)(next_idx s := InFn), next_idx := next_idx s + 1\<rparr>)
      else None)"
| "par_step store finish CtxDone s =
     (if main s = Looping \<and> next_idx s < total s then Some (s\<lparr>main := Cancelled\<rparr>) else None)"
| "par_step store finish LoopEnds s =
     (if main s = Looping \<and> next_idx s = total s then Some (s\<lparr>main := WaitGroup\<rparr>) else None)"
| "par_step store finish (FnReturns i r) s =
     (if worker s i = InFn then
        Some (s\<lparr>worker := (worker s)(i := Stored), stored := (stored s)(i \<mapsto> r), collected := store i r (collected s)\<rparr>)
      else None)"
| "par_step store finish (FreeSlot i) s =
     (if worker s i = Stored then Some (s\<lparr>worker := (worker s)(i := SlotBack), slots_used := slots_used s - 1\<rparr>) else None)"
| "par_step store finish (Done i) s =
     (if worker s i = SlotBack then Some (s\<lparr>worker := (worker s)(i := Over)\<rparr>) else None)"
| "par_step store finish WaitReturns s =
     (if main s = WaitGroup \<and> (\<forall>i \<in> set [0 ..< total s]. worker s i = Over) then Some (s\<lparr>main := Returned (finish (collected s))\<rparr>) else None)"

section \<open>The two functions\<close>

text \<open>\<open>ParallelMap\<close>: the result goes to its index. It returns nil for an empty slice and when cancelled.\<close>

definition map_store :: "nat \<Rightarrow> 'b \<Rightarrow> 'b list \<Rightarrow> 'b list" where
  "map_store i r res = res[i := r]"

definition pmap_start :: "'a list \<Rightarrow> int \<Rightarrow> ('b, 'b::zero list, 'b list) par" where
  "pmap_start xs lim = par_start (length xs) lim (replicate (length xs) 0)"

abbreviation pmap_step :: "'b par_label \<Rightarrow> ('b, 'b::zero list, 'b list) par \<Rightarrow> ('b, 'b list, 'b list) par option" where
  "pmap_step \<equiv> par_step map_store (\<lambda>res. res)"

text \<open>\<open>ParallelForEach\<close>: an error is sent to a channel of capacity \<open>n\<close>, or dropped when that is full.\<close>

definition each_store :: "nat \<Rightarrow> nat \<Rightarrow> 'e option \<Rightarrow> 'e list \<Rightarrow> 'e list" where
  "each_store n i r errs =
     (case r of None \<Rightarrow> errs | Some e \<Rightarrow> if length errs < n then errs @ [e] else errs)"

definition each_start :: "'a list \<Rightarrow> int \<Rightarrow> ('e option, 'e list, 'e option) par" where
  "each_start xs lim = par_start (length xs) lim []"

text \<open>A receive from the closed channel: its first element, or nil.\<close>

definition first_err :: "'e list \<Rightarrow> 'e option" where
  "first_err errs = (case errs of [] \<Rightarrow> None | e # _ \<Rightarrow> Some e)"

abbreviation each_step :: "nat \<Rightarrow> 'e option par_label \<Rightarrow> ('e option, 'e list, 'e option) par \<Rightarrow> ('e option, 'e list, 'e option) par option" where
  "each_step n \<equiv> par_step (each_store n) first_err"

section \<open>Slots\<close>

definition takes_slot :: "par_worker \<Rightarrow> bool" where
  "takes_slot w \<longleftrightarrow> w = InFn \<or> w = Stored"

definition par_inv :: "nat \<Rightarrow> ('r, 'o, 'out) par \<Rightarrow> bool" where
  "par_inv n s \<longleftrightarrow> total s = n \<and> 1 \<le> limit s \<and> slots_used s \<le> limit s \<and> next_idx s \<le> n \<and> tracked NotStarted (worker s) \<and>
     int (slots_used s) = cnt takes_slot (worker s) \<and> (\<forall>i. worker s i = NotStarted \<longleftrightarrow> next_idx s \<le> i) \<and>
     (\<forall>i. stored s i = None \<longleftrightarrow> worker s i = NotStarted \<or> worker s i = InFn) \<and>
     (main s = WaitGroup \<longrightarrow> next_idx s = n) \<and>
     (\<forall>out. main s = Returned out \<longrightarrow> next_idx s = n \<and> (\<forall>i < n. worker s i = Over))"

lemma cnt_takes:
  "tracked NotStarted f \<Longrightarrow> cnt takes_slot (f(i := w)) = cnt takes_slot f - of_bool (takes_slot (f i)) + of_bool (takes_slot w)"
  by (rule cnt_upd [where d = NotStarted]) (simp_all add: takes_slot_def)

lemma par_inv_start: "par_inv n (par_start n lim out)"
  by (auto simp: par_inv_def par_start_def effective_limit_def takes_slot_def)

lemma par_inv_step:
  assumes I: "par_inv n s" and st: "par_step store finish l s = Some s'"
  shows "par_inv n s'"
proof -
  have T: "tracked NotStarted (worker s)" using I by (simp add: par_inv_def)
  have pos: "0 < slots_used s" if "worker s i = Stored" for i
    using I cnt_pos [where P = takes_slot and g = i, OF T] that by (simp add: par_inv_def takes_slot_def)
  have lt: "i < next_idx s" if "worker s i \<noteq> NotStarted" for i
    using I that unfolding par_inv_def by (meson linorder_not_le)
  show ?thesis
  proof (cases l)
    case Spawn
    have "\<not> takes_slot (worker s (next_idx s))" "takes_slot InFn"
      using lt [of "next_idx s"] by (auto simp: takes_slot_def)
    with Spawn I st show ?thesis by (auto simp: par_inv_def cnt_takes less_Suc_eq_le Suc_le_eq split: if_splits)
  next
    case (FnReturns i r)
    with st lt [of i] have "worker s i = InFn" "i < next_idx s" by (auto split: if_splits)
    with FnReturns I st show ?thesis by (auto simp: par_inv_def cnt_takes takes_slot_def split: if_splits)
  next
    case (FreeSlot i)
    with st lt [of i] have "worker s i = Stored" "i < next_idx s" by (auto split: if_splits)
    with FreeSlot I st pos [OF this(1)] show ?thesis
      by (auto simp: par_inv_def cnt_takes takes_slot_def of_nat_diff split: if_splits)
  next
    case (Done i)
    with st lt [of i] have "worker s i = SlotBack" "i < next_idx s" by (auto split: if_splits)
    with Done I st show ?thesis by (auto simp: par_inv_def cnt_takes takes_slot_def split: if_splits)
  qed (use I st in \<open>auto simp: par_inv_def split: if_splits\<close>)
qed

section \<open>What is stored\<close>

text \<open>
  The contract of the store operation: after it, \<open>reads out i = Some r\<close> tells the results stored so far. Each of
  the two functions meets it, and the lemmas of the locale hold for both.
\<close>

locale par_output =
  fixes n :: nat
    and store :: "nat \<Rightarrow> 'r \<Rightarrow> 'o \<Rightarrow> 'o"
    and good :: "(nat \<Rightarrow> 'r option) \<Rightarrow> 'o \<Rightarrow> bool"
    and start :: 'o
  assumes good_start: "good (\<lambda>_. None) start"
    and good_store: "i < n \<Longrightarrow> f i = None \<Longrightarrow> (\<forall>j. f j \<noteq> None \<longrightarrow> j < n) \<Longrightarrow> good f out \<Longrightarrow> good (f(i \<mapsto> r)) (store i r out)"
begin

definition out_inv :: "('o \<Rightarrow> 'out) \<Rightarrow> ('r, 'o, 'out) par \<Rightarrow> bool" where
  "out_inv finish s \<longleftrightarrow> par_inv n s \<and> good (stored s) (collected s) \<and> (\<forall>r. main s = Returned r \<longrightarrow> r = finish (collected s))"

lemma out_inv_step:
  assumes I: "out_inv finish s" and st: "par_step store finish l s = Some s'"
  shows "out_inv finish s'"
proof -
  have P: "par_inv n s" using I by (simp add: out_inv_def)
  have range: "\<forall>j. stored s j \<noteq> None \<longrightarrow> j < n"
    using P unfolding par_inv_def by (metis leI order_trans)
  have "good (stored s') (collected s') \<and> (\<forall>r. main s' = Returned r \<longrightarrow> r = finish (collected s'))"
  proof (cases l)
    case (FnReturns i r)
    with st have i: "worker s i = InFn" by (auto split: if_splits)
    then have "i < n" "stored s i = None" "\<forall>r. main s \<noteq> Returned r"
      using P unfolding par_inv_def by (metis linorder_not_le order_trans par_worker.distinct)+
    with FnReturns st I i good_store [OF _ _ range] show ?thesis
      by (auto simp: out_inv_def)
  qed (use I st in \<open>auto simp: out_inv_def split: if_splits\<close>)
  with par_inv_step [OF P st] show ?thesis by (simp add: out_inv_def)
qed

lemma out_inv_reach: "reach ((=) (par_start n lim start)) (labelled (par_step store finish)) s \<Longrightarrow> out_inv finish s"
proof (induction rule: reach.induct)
  case (reach_init s)
  then show ?case using par_inv_start [of n lim start] good_start by (auto simp: out_inv_def par_start_def)
next
  case (reach_step s t)
  then show ?case by (auto simp: labelled_def intro: out_inv_step)
qed

end

text \<open>\<open>par\<close> states of a function that has returned normally: everything has been stored.\<close>

lemma par_returned:
  assumes "par_inv n s" and "main s = Returned out" and "i < n"
  shows "stored s i \<noteq> None"
  using assms unfolding par_inv_def by (metis par_worker.distinct(7) par_worker.distinct(13))

interpretation pmap: par_output n map_store "\<lambda>f res. length res = n \<and> (\<forall>i r. f i = Some r \<longrightarrow> i < n \<longrightarrow> res ! i = r)"
    "replicate n 0" for n
  by unfold_locales (auto simp: map_store_def nth_list_update)

text \<open>The errors sent so far: as many as there are failed calls, and each one's error among them.\<close>

definition errs_ok :: "nat \<Rightarrow> (nat \<Rightarrow> 'e option option) \<Rightarrow> 'e list \<Rightarrow> bool" where
  "errs_ok n f errs \<longleftrightarrow> length errs = card {i. i < n \<and> (\<exists>e. f i = Some (Some e))} \<and>
     (\<forall>e. e \<in> set errs \<longleftrightarrow> (\<exists>i < n. f i = Some (Some e)))"

lemma errs_ok_store:
  assumes "i < n" and "f i = None" and "errs_ok n f errs"
  shows "errs_ok n (f(i \<mapsto> r)) (each_store n i r errs)"
proof (cases r)
  case None
  have "{j. j < n \<and> (\<exists>e. (f(i \<mapsto> None)) j = Some (Some e))} = {j. j < n \<and> (\<exists>e. f j = Some (Some e))}"
    using assms(2) by auto
  with None assms show ?thesis
    unfolding errs_ok_def each_store_def by (auto simp del: fun_upd_apply) (auto split: if_splits)
next
  case (Some x)
  let ?A = "{j. j < n \<and> (\<exists>e. f j = Some (Some e))}"
  have new: "{j. j < n \<and> (\<exists>e. (f(i \<mapsto> Some x)) j = Some (Some e))} = insert i ?A" "i \<notin> ?A" "finite ?A"
    using assms(1,2) by auto
  have "card (insert i ?A) \<le> n"
    using card_mono [of "{..< n}" "insert i ?A"] assms(1) by auto
  then have room: "length errs < n" using new assms(3) by (simp add: errs_ok_def)
  have "(\<exists>j < n. (f(i \<mapsto> Some x)) j = Some (Some e)) \<longleftrightarrow> e = x \<or> (\<exists>j < n. f j = Some (Some e))" for e
    using assms(1,2) by (metis fun_upd_apply option.distinct(1) option.inject)
  with new room Some assms(3) show ?thesis
    unfolding errs_ok_def each_store_def by (auto simp del: fun_upd_apply)
qed

interpretation peach: par_output n "each_store n" "errs_ok n" "[]" for n
proof
  show "errs_ok n (\<lambda>_. None) []" by (simp add: errs_ok_def)
qed (rule errs_ok_store)

section \<open>Properties\<close>

abbreviation pmap_reach :: "'a list \<Rightarrow> int \<Rightarrow> ('b, 'b::zero list, 'b list) par \<Rightarrow> bool" where
  "pmap_reach xs lim \<equiv> reach ((=) (pmap_start xs lim)) (labelled pmap_step)"

abbreviation each_reach :: "'a list \<Rightarrow> int \<Rightarrow> ('e option, 'e list, 'e option) par \<Rightarrow> bool" where
  "each_reach xs lim \<equiv> reach ((=) (each_start xs lim)) (labelled (each_step (length xs)))"

lemma pmap_inv_reach: "pmap_reach xs lim s \<Longrightarrow> pmap.out_inv (length xs) (\<lambda>res. res) s"
  unfolding pmap_start_def by (rule pmap.out_inv_reach)

lemma each_inv_reach: "each_reach xs lim s \<Longrightarrow> peach.out_inv (length xs) first_err s"
  unfolding each_start_def by (rule peach.out_inv_reach)

lemma limit_step: "par_step store finish l s = Some s' \<Longrightarrow> limit s' = limit s"
  by (cases l) (auto split: if_splits)

lemma pmap_limit: "pmap_reach xs lim s \<Longrightarrow> limit s = effective_limit lim"
  by (induction rule: reach.induct) (auto simp: pmap_start_def par_start_def labelled_def dest: limit_step)

text \<open>
  C29 (functional): \<open>ParallelMap\<close> never runs more than the limit of calls at once, and a normal return gives the slice
  whose element \<open>i\<close> is what the call for element \<open>i\<close> returned, whatever the order in which they end.
\<close>

theorem parallel_map_result:
  assumes "pmap_reach xs lim s"
  shows "card {i. worker s i = InFn} \<le> effective_limit lim \<and>
    (\<forall>res. main s = Returned res \<longrightarrow> length res = length xs \<and> (\<forall>i < length xs. stored s i = Some (res ! i)))"
proof -
  have O: "pmap.out_inv (length xs) (\<lambda>res. res) s" by (rule pmap_inv_reach [OF assms])
  then have P: "par_inv (length xs) s" by (simp add: pmap.out_inv_def)
  then have T: "tracked NotStarted (worker s)" by (simp add: par_inv_def)
  have "{i. worker s i = InFn} \<subseteq> {i. takes_slot (worker s i)}" by (auto simp: takes_slot_def)
  then have "card {i. worker s i = InFn} \<le> card {i. takes_slot (worker s i)}"
    by (rule card_mono [rotated]) (rule tracked_finite [OF T], simp add: takes_slot_def)
  also have "\<dots> \<le> limit s" using P by (simp add: par_inv_def cnt_def)
  finally have "card {i. worker s i = InFn} \<le> effective_limit lim" using pmap_limit [OF assms] by simp
  moreover have "length res = length xs \<and> (\<forall>i < length xs. stored s i = Some (res ! i))" if "main s = Returned res" for res
    using O par_returned [OF P that] that by (auto simp: pmap.out_inv_def)
  ultimately show ?thesis by blast
qed

definition pmap_trace :: "nat par_label list" where
  "pmap_trace = [Spawn, Spawn, FnReturns 1 20, FreeSlot 1, Spawn, LoopEnds, FnReturns 2 30, Done 1, FnReturns 0 10,
     FreeSlot 2, FreeSlot 0, Done 0, Done 2, WaitReturns]"

lemma pmap_reach_run: "run pmap_step ls (pmap_start xs lim) = Some s \<Longrightarrow> pmap_reach xs lim s"
  by (rule reach_run) (auto intro: reach_start)

lemma each_reach_run: "run (each_step (length xs)) ls (each_start xs lim) = Some s \<Longrightarrow> each_reach xs lim s"
  by (rule reach_run) (auto intro: reach_start)

lemmas par_run_defs = par_start_def pmap_start_def each_start_def effective_limit_def map_store_def each_store_def
  first_err_def upt_rec

theorem parallel_map_result_witness:
  "case run pmap_step pmap_trace (pmap_start ''abc'' 2) of None \<Rightarrow> False
   | Some s \<Rightarrow> main s = Returned [10, 20, 30] \<and> stored s 1 = Some ([10, 20, 30] ! 1)"
proof -
  have "\<exists>s. run pmap_step pmap_trace (pmap_start ''abc'' 2) = Some s \<and> main s = Returned [10, 20, 30]"
    by (simp add: pmap_trace_def par_run_defs)
  then obtain s where s: "run pmap_step pmap_trace (pmap_start ''abc'' 2) = Some s" "main s = Returned [10, 20, 30]" by blast
  have "stored s 1 = Some ([10, 20, 30] ! 1)"
    using parallel_map_result [OF pmap_reach_run [OF s(1)]] s(2) by force
  with s show ?thesis unfolding s(1) by simp
qed

text \<open>
  when \<open>ParallelForEach\<close> returns normally, every element has been processed, and it returns
  nil exactly when no call failed and otherwise the error of some failed call: none is dropped
  because the channel has room for all of them.
\<close>

theorem parallel_each_result:
  assumes "each_reach xs lim s" and "main s = Returned out"
  shows "(\<forall>i < length xs. stored s i \<noteq> None) \<and> (out = None \<longleftrightarrow> (\<forall>i < length xs. stored s i = Some None)) \<and>
    (\<forall>e. out = Some e \<longrightarrow> (\<exists>i < length xs. stored s i = Some (Some e))) \<and>
    length (collected s) = card {i. i < length xs \<and> (\<exists>e. stored s i = Some (Some e))}"
proof -
  have O: "peach.out_inv (length xs) first_err s" by (rule each_inv_reach [OF assms(1)])
  then have P: "par_inv (length xs) s" and E: "errs_ok (length xs) (stored s) (collected s)"
    and out: "out = first_err (collected s)"
    using assms(2) by (simp_all add: peach.out_inv_def)
  have all: "\<forall>i < length xs. stored s i \<noteq> None" using par_returned [OF P assms(2)] by blast
  have err: "e \<in> set (collected s) \<longleftrightarrow> (\<exists>i < length xs. stored s i = Some (Some e))" for e
    using E by (simp add: errs_ok_def)
  have "out = None \<longleftrightarrow> (\<forall>e. e \<notin> set (collected s))"
    unfolding out first_err_def by (cases "collected s") auto
  also have "\<dots> \<longleftrightarrow> (\<forall>i < length xs. stored s i = Some None)"
    unfolding err using all by (metis option.exhaust option.inject option.distinct(1))
  finally have "out = None \<longleftrightarrow> (\<forall>i < length xs. stored s i = Some None)" .
  moreover have "\<exists>i < length xs. stored s i = Some (Some e)" if "out = Some e" for e
    using that err [of e] unfolding out first_err_def by (cases "collected s") auto
  ultimately show ?thesis using all E by (simp add: errs_ok_def)
qed

definition each_trace :: "nat option par_label list" where
  "each_trace = [Spawn, FnReturns 0 None, FreeSlot 0, Spawn, FnReturns 1 (Some 7), FreeSlot 1, LoopEnds, Done 1, Done 0, WaitReturns]"

theorem parallel_each_result_witness:
  "case run (each_step 2) each_trace (each_start ''ab'' 0) of None \<Rightarrow> False
   | Some s \<Rightarrow> main s = Returned (Some 7) \<and> (\<exists>i < 2. stored s i = Some (Some 7))"
proof -
  have "\<exists>s. run (each_step (length ''ab'')) each_trace (each_start ''ab'' 0) = Some s \<and> main s = Returned (Some 7)"
    by (simp add: each_trace_def par_run_defs)
  then obtain s where s: "run (each_step (length ''ab'')) each_trace (each_start ''ab'' 0) = Some s" "main s = Returned (Some 7)" by blast
  have "\<exists>i < 2. stored s i = Some (Some 7)"
    using parallel_each_result [OF each_reach_run [OF s(1)] s(2)] by (simp add: numeral_2_eq_2)
  moreover have "run (each_step 2) each_trace (each_start ''ab'' 0) = Some s" using s(1) by (simp add: numeral_2_eq_2)
  ultimately show ?thesis using s(2) by (simp only: option.case simp_thms)
qed

end
