(* ===== verification/GenericFlight.thy ===== *)
theory GenericFlight
  imports Prelude
begin

text \<open>
  \<open>SingleFlight\<close> of \<open>generic/concurrency.go\<close>. Each locked section is one step; a goroutine in
  \<open>c.wg.Wait()\<close> can go on once the call's \<open>wg.Done()\<close> was executed. Lemmas: one execution per key at a
  time and its result for everybody who joined it; what a panic of \<open>fn\<close> leaves behind.
\<close>

section \<open>SingleFlight\<close>

record ('v, 'e) sfCall =
  finished :: bool
  val :: 'v
  err :: "'e option"

record ('k, 'v, 'e) singleFlight =
  m :: "'k \<rightharpoonup> nat"
  calls :: "nat \<Rightarrow> ('v, 'e) sfCall"
  next_call :: nat

definition newSingleFlight :: "('k, 'v::zero, 'e) singleFlight" where
  "newSingleFlight = \<lparr>m = Map.empty, calls = (\<lambda>_. \<lparr>finished = False, val = 0, err = None\<rparr>), next_call = 0\<rparr>"

text \<open>The first section of \<open>Do\<close>: the call found (\<open>False\<close>) or made (\<open>True\<close>).\<close>

definition do_section :: "'k \<Rightarrow> ('k, 'v::zero, 'e) singleFlight \<Rightarrow> nat \<times> bool \<times> ('k, 'v, 'e) singleFlight" where
  "do_section key g =
     (case m g key of
        Some c \<Rightarrow> (c, False, g)
      | None \<Rightarrow> (let c = next_call g in
          (c, True, g\<lparr>m := (m g)(key \<mapsto> c), calls := (calls g)(c := \<lparr>finished = False, val = 0, err = None\<rparr>), next_call := Suc c\<rparr>)))"

definition finish_call :: "nat \<Rightarrow> 'v \<Rightarrow> 'e option \<Rightarrow> ('k, 'v, 'e) singleFlight \<Rightarrow> ('k, 'v, 'e) singleFlight" where
  "finish_call c v e g = g\<lparr>calls := (calls g)(c := \<lparr>finished = True, val = v, err = e\<rparr>)\<rparr>"

definition forget :: "'k \<Rightarrow> ('k, 'v, 'e) singleFlight \<Rightarrow> ('k, 'v, 'e) singleFlight" where
  "forget key g = g\<lparr>m := (m g)(key := None)\<rparr>"

definition result_of :: "nat \<Rightarrow> ('k, 'v, 'e) singleFlight \<Rightarrow> 'v \<times> 'e option" where
  "result_of c g = (val (calls g c), err (calls g c))"

datatype ('k, 'v, 'e) sf_place = Idle | Joined 'k nat | InFn 'k nat | Forgetting 'k nat | Got 'k nat "'v \<times> 'e option" | Unwound

record ('k, 'v, 'e) sf_sys =
  sf :: "('k, 'v, 'e) singleFlight"
  sfp :: "nat \<Rightarrow> ('k, 'v, 'e) sf_place"

definition sf_start :: "('k, 'v::zero, 'e) sf_sys" where
  "sf_start = \<lparr>sf = newSingleFlight, sfp = (\<lambda>_. Idle)\<rparr>"

datatype ('k, 'v, 'e) sf_label = Call nat 'k | FnReturns nat 'v "'e option" | FnPanics nat | Forget nat | WaitReturns nat | Leave nat

abbreviation sf_move :: "nat \<Rightarrow> ('k, 'v, 'e) sf_place \<Rightarrow> ('k, 'v, 'e) sf_sys \<Rightarrow> ('k, 'v, 'e) sf_sys" where
  "sf_move i p s \<equiv> s\<lparr>sfp := (sfp s)(i := p)\<rparr>"

fun sf_step :: "('k, 'v::zero, 'e) sf_label \<Rightarrow> ('k, 'v, 'e) sf_sys \<Rightarrow> ('k, 'v, 'e) sf_sys option" where
  "sf_step (Call i key) s =
     (if sfp s i = Idle then
        (case do_section key (sf s) of
           (c, fresh, g) \<Rightarrow> Some (sf_move i (if fresh then InFn key c else Joined key c) (s\<lparr>sf := g\<rparr>)))
      else None)"
| "sf_step (FnReturns i v e) s =
     (case sfp s i of InFn key c \<Rightarrow> Some (sf_move i (Forgetting key c) (s\<lparr>sf := finish_call c v e (sf s)\<rparr>)) | _ \<Rightarrow> None)"
| "sf_step (FnPanics i) s = (case sfp s i of InFn key c \<Rightarrow> Some (sf_move i Unwound s) | _ \<Rightarrow> None)"
| "sf_step (Forget i) s =
     (case sfp s i of
        Forgetting key c \<Rightarrow> Some (sf_move i (Got key c (result_of c (sf s))) (s\<lparr>sf := forget key (sf s)\<rparr>))
      | _ \<Rightarrow> None)"
| "sf_step (WaitReturns i) s =
     (case sfp s i of
        Joined key c \<Rightarrow> if finished (calls (sf s) c) then Some (sf_move i (Got key c (result_of c (sf s))) s) else None
      | _ \<Rightarrow> None)"
| "sf_step (Leave i) s = (case sfp s i of Got key c r \<Rightarrow> Some (sf_move i Idle s) | Unwound \<Rightarrow> Some (sf_move i Idle s) | _ \<Rightarrow> None)"

abbreviation sf_reach :: "('k, 'v::zero, 'e) sf_sys \<Rightarrow> bool" where
  "sf_reach \<equiv> reach ((=) sf_start) (labelled sf_step)"

lemma sf_reach_run: "run sf_step ls sf_start = Some s \<Longrightarrow> sf_reach s"
  by (rule reach_run) (auto intro: reach_start)

lemmas sf_defs = newSingleFlight_def do_section_def finish_call_def forget_def result_of_def sf_start_def

text \<open>
  The goroutine that executes a call is registered under the call's key until it forgets it; a call is
  finished from the return of \<open>fn\<close> on; everybody else knows the key under which the call was made.
\<close>

fun runs :: "('k, 'v, 'e) sf_place \<Rightarrow> ('k \<times> nat) option" where
  "runs (InFn k c) = Some (k, c)"
| "runs (Forgetting k c) = Some (k, c)"
| "runs _ = None"

fun knows :: "('k, 'v, 'e) sf_place \<Rightarrow> nat option" where
  "knows (Joined k c) = Some c"
| "knows (InFn k c) = Some c"
| "knows (Forgetting k c) = Some c"
| "knows (Got k c r) = Some c"
| "knows _ = None"

definition sf_inv :: "('k, 'v, 'e) sf_sys \<Rightarrow> bool" where
  "sf_inv s \<longleftrightarrow>
     (\<forall>i k c. runs (sfp s i) = Some (k, c) \<longrightarrow> m (sf s) k = Some c) \<and>
     (\<forall>i j k c. runs (sfp s i) = Some (k, c) \<longrightarrow> runs (sfp s j) = Some (k, c) \<longrightarrow> i = j) \<and>
     (\<forall>i k c. sfp s i = InFn k c \<longrightarrow> \<not> finished (calls (sf s) c)) \<and>
     (\<forall>i k c. sfp s i = Forgetting k c \<longrightarrow> finished (calls (sf s) c)) \<and>
     (\<forall>i k c r. sfp s i = Got k c r \<longrightarrow> finished (calls (sf s) c) \<and> r = result_of c (sf s)) \<and>
     (\<forall>i c. knows (sfp s i) = Some c \<longrightarrow> c < next_call (sf s)) \<and>
     (\<forall>k c. m (sf s) k = Some c \<longrightarrow> c < next_call (sf s)) \<and>
     (\<forall>k k' c. m (sf s) k = Some c \<longrightarrow> m (sf s) k' = Some c \<longrightarrow> k = k')"

lemma sf_inv_start: "sf_inv sf_start"
  by (simp add: sf_inv_def sf_defs)

lemma sf_invD:
  assumes "sf_inv s"
  shows "runs (sfp s i) = Some (k, c) \<Longrightarrow> m (sf s) k = Some c"
    and "runs (sfp s i) = Some (k, c) \<Longrightarrow> runs (sfp s j) = Some (k, c) \<Longrightarrow> i = j"
    and "sfp s i = InFn k c \<Longrightarrow> \<not> finished (calls (sf s) c)"
    and "sfp s i = Forgetting k c \<Longrightarrow> finished (calls (sf s) c)"
    and "sfp s i = Got k c r \<Longrightarrow> finished (calls (sf s) c) \<and> r = result_of c (sf s)"
    and "knows (sfp s i) = Some c \<Longrightarrow> c < next_call (sf s)"
    and "m (sf s) k = Some c \<Longrightarrow> c < next_call (sf s)"
    and "m (sf s) k = Some c \<Longrightarrow> m (sf s) k' = Some c \<Longrightarrow> k = k'"
  using assms unfolding sf_inv_def by - (elim conjE; (blast | fastforce); fail)+

lemma sf_runs_unique:
  assumes "sf_inv s" and "runs (sfp s i) = Some (k, c)" and "runs (sfp s j) = Some (k', c')"
    and "k = k' \<or> c = c'"
  shows "i = j \<and> k = k' \<and> c = c'"
proof -
  have "m (sf s) k = Some c" "m (sf s) k' = Some c'"
    using sf_invD(1) [OF assms(1,2)] sf_invD(1) [OF assms(1,3)] by simp_all
  with assms(4) sf_invD(8) [OF assms(1), of k c k'] have "k = k' \<and> c = c'" by auto
  with assms(2,3) sf_invD(2) [OF assms(1)] show ?thesis by blast
qed

text \<open>The step that starts the execution for a key, and the one that ends it.\<close>

lemma sf_inv_start_call:
  fixes s :: "('k, 'v::zero, 'e) sf_sys"
  assumes I: "sf_inv s" and idle: "sfp s i = Idle" and None: "m (sf s) key = None"
  shows "sf_inv (sf_move i (InFn key (next_call (sf s))) (s\<lparr>sf := (sf s)\<lparr>m := (m (sf s))(key \<mapsto> next_call (sf s)),
    calls := (calls (sf s))(next_call (sf s) := \<lparr>finished = False, val = 0, err = None\<rparr>),
    next_call := Suc (next_call (sf s))\<rparr>\<rparr>))"
proof -
  let ?c = "next_call (sf s)"
  have new: "runs (sfp s j) = Some (k, c) \<Longrightarrow> k \<noteq> key \<and> c \<noteq> ?c" "knows (sfp s j) = Some c \<Longrightarrow> c \<noteq> ?c"
      "m (sf s) k = Some c \<Longrightarrow> c \<noteq> ?c" for j k c
    using sf_invD(1,6) [OF I, of j] sf_invD(7) [OF I, of k c] None by fastforce+
  have nr: "runs (sfp s j) \<noteq> Some (key, c)" for j c using new(1) [of j key c] by auto
  have "sfp s j = Got k c r \<Longrightarrow> c \<noteq> ?c" "sfp s j = InFn k c \<Longrightarrow> c \<noteq> ?c" "sfp s j = Forgetting k c \<Longrightarrow> c \<noteq> ?c" for j k c r
    using new(2) [of j c] by simp_all
  then show ?thesis
    using I new idle unfolding sf_inv_def by (auto simp: nr less_Suc_eq result_of_def split: if_splits)
qed

lemma sf_inv_returns:
  fixes s :: "('k, 'v::zero, 'e) sf_sys"
  assumes I: "sf_inv s" and at: "sfp s i = InFn key c"
  shows "sf_inv (sf_move i (Forgetting key c) (s\<lparr>sf := finish_call c v e (sf s)\<rparr>))"
proof -
  define s' where s': "s' = sf_move i (Forgetting key c) (s\<lparr>sf := finish_call c v e (sf s)\<rparr>)"
  have reg: "m (sf s) key = Some c" "\<not> finished (calls (sf s) c)" "c < next_call (sf s)"
    using sf_invD(1,3,6) [OF I, of i] at by simp_all
  have own: "k = key" if "m (sf s) k = Some c" for k using sf_invD(8) [OF I that reg(1)] .
  have others: "j = i" if "runs (sfp s j) = Some (k, c)" for j k
    using sf_runs_unique [OF I that, of i key c] at by simp
  have others_fn: "j = i" if "sfp s j = InFn k c" for j k using others [of j k] that by simp
  have got: "sfp s j \<noteq> Got k c r" for j k r using sf_invD(5) [OF I, of j k c r] reg(2) by blast
  have runs_same: "runs (sfp s' j) = runs (sfp s j)" "knows (sfp s' j) = knows (sfp s j)" for j by (simp_all add: s' at)
  have m_same: "m (sf s') = m (sf s)" "next_call (sf s') = next_call (sf s)" by (simp_all add: s' finish_call_def)
  have calls: "calls (sf s') d = (if d = c then \<lparr>finished = True, val = v, err = e\<rparr> else calls (sf s) d)" for d
    by (simp add: s' finish_call_def)
  have pl: "sfp s' j = (if j = i then Forgetting key c else sfp s j)" for j by (simp add: s')
  have "sf_inv s'"
    unfolding sf_inv_def runs_same m_same calls pl result_of_def
    using I reg own others others_fn got unfolding sf_inv_def result_of_def by (auto split: if_splits)
  then show ?thesis by (simp only: s')
qed

lemma sf_inv_step:
  assumes I: "sf_inv s" and st: "sf_step l s = Some s'"
  shows "sf_inv s'"
proof (cases l)
  case (Call i key)
  show ?thesis
  proof (cases "m (sf s) key")
    case (Some c)
    with Call st have s': "sfp s i = Idle" "s' = sf_move i (Joined key c) s"
      by (auto simp: do_section_def split: if_splits)
    have "c < next_call (sf s)" by (rule sf_invD(7) [OF I Some])
    then show ?thesis using I s' Some unfolding sf_inv_def by (auto split: if_splits)
  next
    case None
    let ?c = "next_call (sf s)"
    from Call None st have "sfp s i = Idle" "s' = sf_move i (InFn key ?c) (s\<lparr>sf := (sf s)\<lparr>m := (m (sf s))(key \<mapsto> ?c),
        calls := (calls (sf s))(?c := \<lparr>finished = False, val = 0, err = None\<rparr>), next_call := Suc ?c\<rparr>\<rparr>)"
      by (auto simp: do_section_def Let_def split: if_splits)
    with sf_inv_start_call [OF I _ None] show ?thesis by simp
  qed
next
  case (FnReturns i v e)
  with st obtain key c where "sfp s i = InFn key c" "s' = sf_move i (Forgetting key c) (s\<lparr>sf := finish_call c v e (sf s)\<rparr>)"
    by (auto split: sf_place.splits)
  with sf_inv_returns [OF I] show ?thesis by simp
next
  case (FnPanics i)
  with st obtain key c where at: "sfp s i = InFn key c" and s': "s' = sf_move i Unwound s"
    by (auto split: sf_place.splits)
  with I s' show ?thesis unfolding sf_inv_def by (auto split: if_splits)
next
  case (Forget i)
  with st obtain key c where at: "sfp s i = Forgetting key c"
    and s': "s' = sf_move i (Got key c (result_of c (sf s))) (s\<lparr>sf := forget key (sf s)\<rparr>)"
    by (auto split: sf_place.splits)
  have reg: "m (sf s) key = Some c" "finished (calls (sf s) c)" "c < next_call (sf s)"
    using sf_invD(1,4,6) [OF I, of i] at by simp_all
  have other: "j = i" if "runs (sfp s j) = Some (key, d)" for j d
    using sf_runs_unique [OF I that, of i key c] at by simp
  show ?thesis
    using I reg other unfolding sf_inv_def s' by (auto simp: forget_def result_of_def split: if_splits)
next
  case (WaitReturns i)
  with st obtain key c where at: "sfp s i = Joined key c" "finished (calls (sf s) c)"
    and s': "s' = sf_move i (Got key c (result_of c (sf s))) s"
    by (auto split: sf_place.splits if_splits)
  have "c < next_call (sf s)" using sf_invD(6) [OF I, of i] at by simp
  then show ?thesis
    using I at unfolding sf_inv_def s' by (auto split: if_splits)
next
  case (Leave i)
  then have s': "s' = sf_move i Idle s" and at: "runs (sfp s i) = None" using st by (auto split: sf_place.splits)
  then show ?thesis
    using I unfolding sf_inv_def s' by (auto split: if_splits)
qed

interpretation single_flight: inductive_invariant "(=) sf_start" "labelled sf_step" sf_inv
  by unfold_locales (auto simp: labelled_def intro: sf_inv_start sf_inv_step)

section \<open>An abandoned call\<close>

text \<open>Registered, not finished, and executed by nobody: no step changes that.\<close>

definition abandoned :: "'k \<Rightarrow> nat \<Rightarrow> ('k, 'v, 'e) sf_sys \<Rightarrow> bool" where
  "abandoned key c s \<longleftrightarrow> sf_inv s \<and> m (sf s) key = Some c \<and> \<not> finished (calls (sf s) c) \<and> (\<forall>i. runs (sfp s i) \<noteq> Some (key, c))"

lemma runs_key:
  "sf_inv s \<Longrightarrow> m (sf s) key = Some c \<Longrightarrow> runs (sfp s i) = Some (k, d) \<Longrightarrow> (k, d) \<noteq> (key, c) \<Longrightarrow> k \<noteq> key \<and> d \<noteq> c"
  using sf_invD(1) [of s i k d] sf_invD(8) [of s key c k] by auto

lemma abandoned_step:
  assumes A: "abandoned key c s" and st: "sf_step l s = Some s'"
  shows "abandoned key c s'"
proof -
  have I: "sf_inv s" and M: "m (sf s) key = Some c" and F: "\<not> finished (calls (sf s) c)"
    and N: "runs (sfp s i) \<noteq> Some (key, c)" for i
    using A by (simp_all add: abandoned_def)
  have c: "c < next_call (sf s)" by (rule sf_invD(7) [OF I M])
  have "m (sf s') key = Some c \<and> \<not> finished (calls (sf s') c) \<and> (\<forall>i. runs (sfp s' i) \<noteq> Some (key, c))"
  proof (cases l)
    case (Call i k)
    with st M F N c show ?thesis
      by (auto simp: do_section_def Let_def split: if_splits option.splits)
  next
    case (FnReturns i v e)
    with st obtain k d where at: "sfp s i = InFn k d" by (auto split: sf_place.splits)
    with runs_key [OF I M, of i k d] N [of i] FnReturns st M F N show ?thesis
      by (auto simp: finish_call_def split: if_splits)
  next
    case (Forget i)
    with st obtain k d where at: "sfp s i = Forgetting k d" by (auto split: sf_place.splits)
    with runs_key [OF I M, of i k d] N [of i] Forget st M F N show ?thesis
      by (auto simp: forget_def split: if_splits)
  qed (use st M F N in \<open>auto split: sf_place.splits if_splits\<close>)
  with sf_inv_step [OF I st] show ?thesis by (simp add: abandoned_def)
qed

section \<open>Properties\<close>

text \<open>
  C38 (safety): at any time at most one goroutine executes \<open>fn\<close> for a key, and all goroutines that return from the same
  call return the same value and error, which are the ones its execution has produced.
\<close>

theorem single_flight_once:
  assumes "sf_reach s"
  shows "(sfp s i = InFn k c \<and> sfp s j = InFn k c' \<longrightarrow> i = j) \<and>
    (sfp s i = Got k d r \<longrightarrow> finished (calls (sf s) d) \<and> r = result_of d (sf s)) \<and>
    (sfp s i = Got k d r \<and> sfp s j = Got k' d r' \<longrightarrow> r = r')"
proof -
  have I: "sf_inv s" by (rule single_flight.inv_reachable [OF assms])
  show ?thesis
    using sf_runs_unique [OF I, of i k c j k c'] sf_invD(5) [OF I, of i k d r] sf_invD(5) [OF I, of j k' d r'] by auto
qed

definition sf_trace :: "(nat, nat, unit) sf_label list" where
  "sf_trace = [Call 0 5, Call 1 5, FnReturns 0 42 None, WaitReturns 1, Forget 0]"

theorem single_flight_once_witness:
  "case run sf_step sf_trace sf_start of None \<Rightarrow> False
   | Some s \<Rightarrow> sfp s 0 = Got 5 0 (42, None) \<and> sfp s 1 = Got 5 0 (42, None) \<and> (42, None) = result_of 0 (sf s)"
proof -
  have "\<exists>s. run sf_step sf_trace sf_start = Some s \<and> sfp s 0 = Got 5 0 (42, None) \<and> sfp s 1 = Got 5 0 (42, None)"
    by (simp add: sf_trace_def sf_defs)
  then obtain s where s: "run sf_step sf_trace sf_start = Some s" "sfp s 0 = Got 5 0 (42, None)" "sfp s 1 = Got 5 0 (42, None)"
    by blast
  have "(42, None) = result_of 0 (sf s)"
    using single_flight_once [OF sf_reach_run [OF s(1)], of 0 5 0 0 0 0 "(42, None)"] s(2) by simp
  with s(2,3) show ?thesis unfolding s(1) by simp
qed

text \<open>
  Safety, a defect: when \<open>fn\<close> panics, \<open>Do\<close> neither executes \<open>wg.Done()\<close> nor deletes the key. Whatever happens
  afterwards, the goroutines that joined the call never return, and every later \<open>Do\<close> for the key joins them.
\<close>

theorem single_flight_panic:
  assumes "sf_reach s" and "sfp s i = InFn key c" and "sf_step (FnPanics i) s = Some u" and "(labelled sf_step)\<^sup>*\<^sup>* u t"
  shows "do_section key (sf t) = (c, False, sf t) \<and> (sfp t j = Joined k c \<longrightarrow> sf_step (WaitReturns j) t = None)"
proof -
  have I: "sf_inv s" by (rule single_flight.inv_reachable [OF assms(1)])
  have u: "u = sf_move i Unwound s" using assms(2,3) by simp
  have "runs (sfp u g) \<noteq> Some (key, c)" for g
    using sf_runs_unique [OF I, of g key c i key c] assms(2) by (auto simp: u)
  moreover have "m (sf s) key = Some c" "\<not> finished (calls (sf s) c)"
    using sf_invD(1,3) [OF I, of i] assms(2) by simp_all
  ultimately have "abandoned key c u"
    using sf_inv_step [OF I assms(3)] by (simp add: abandoned_def u)
  with assms(4) have "abandoned key c t"
    by (induction rule: rtranclp_induct) (auto simp: labelled_def intro: abandoned_step)
  then show ?thesis by (auto simp: abandoned_def do_section_def)
qed

theorem single_flight_panic_witness:
  "case run sf_step [Call 0 (5 :: nat), Call 1 5] (sf_start :: (nat, nat, unit) sf_sys) of None \<Rightarrow> False
   | Some s \<Rightarrow> (case sf_step (FnPanics 0) s of None \<Rightarrow> False
       | Some u \<Rightarrow> sfp u 1 = Joined 5 0 \<and> sf_step (WaitReturns 1) u = None \<and> do_section 5 (sf u) = (0, False, sf u))"
proof -
  have "\<exists>s u. run sf_step [Call 0 (5 :: nat), Call 1 5] (sf_start :: (nat, nat, unit) sf_sys) = Some s \<and> sfp s 0 = InFn 5 0 \<and>
      sf_step (FnPanics 0) s = Some u \<and> sfp u 1 = Joined 5 0"
    by (simp add: sf_defs)
  then obtain s u where s: "run sf_step [Call 0 (5 :: nat), Call 1 5] (sf_start :: (nat, nat, unit) sf_sys) = Some s"
      "sfp s 0 = InFn 5 0" "sf_step (FnPanics 0) s = Some u" "sfp u 1 = Joined 5 0" by blast
  have "do_section 5 (sf u) = (0, False, sf u) \<and> sf_step (WaitReturns 1) u = None"
    using single_flight_panic [OF sf_reach_run [OF s(1)] s(2,3) rtranclp.rtrancl_refl, of 1 5] s(4) by blast
  with s(4) show ?thesis unfolding s(1) option.case s(3) by blast
qed

end
