(* ===== verification/GenericLoader.thy ===== *)
theory GenericLoader
  imports Prelude
begin

text \<open>
  \<open>DataLoader\<close> of \<open>generic/concurrency.go\<close>: loads register a channel under their key, a timer starts one batch
  for all that registered. A channel has room for one result. The keys of a batch are listed in the
  order in which \<open>range\<close> visited the map, which is a parameter of the step. Lemmas: a waiting load is
  registered with the timer armed, or in exactly one running batch, or answered; a batch answers each
  of its channels with the result for the key it was registered under.
\<close>

section \<open>The operations\<close>





definition chans :: "('k \<rightharpoonup> nat list) \<Rightarrow> 'k \<Rightarrow> nat list" where
  "chans p k = (case p k of None \<Rightarrow> [] | Some cs \<Rightarrow> cs)"






section \<open>Interleaving\<close>










section \<open>Where a channel is\<close>




lemma chans_empty [simp]: "chans Map.empty k = []"
  by (simp add: chans_def)





section \<open>The invariant\<close>









section \<open>Properties\<close>




end
