(* ===== verification/GenericRetry.thy ===== *)
theory GenericRetry
  imports Float64
begin

text \<open>
  \<open>Retry\<close>, \<open>Backoff\<close> and \<open>Future\<close> of \<open>generic/concurrency.go\<close>. What the function, the context and the timer do
  is given by functions on a state of the world. The backoff computes in \<open>float64\<close>; \<open>math.Pow\<close>, whose
  rounding the language leaves open, and the random numbers are parameters. Lemmas: how often \<open>Retry\<close>
  calls the function and what it returns; the delays of the backoff stay within its maximum, until
  the power overflows.
\<close>

section \<open>Retry\<close>











section \<open>Backoff\<close>

record backoff =
  minDelay :: int
  maxDelay :: int
  factor :: float64
  jitter :: float64
  attempts :: nat

definition newBackoff :: "int \<Rightarrow> int \<Rightarrow> float64 \<Rightarrow> float64 \<Rightarrow> backoff" where
  "newBackoff mn mx f j = \<lparr>minDelay = mn, maxDelay = mx, factor = (if fle f (Fin 0) then Fin 2 else f), jitter = j, attempts = 0\<rparr>"

text \<open>\<open>Duration.Milliseconds\<close>, which truncates, and \<open>math.Floor\<close>.\<close>

definition milliseconds :: "int \<Rightarrow> int" where
  "milliseconds d = sgn d * (\<bar>d\<bar> div 10 ^ 6)"

fun ffloor :: "float64 \<Rightarrow> float64" where
  "ffloor (Fin a) = Fin (of_int \<lfloor>a\<rfloor>)"
| "ffloor x = x"

text \<open>The milliseconds before the conversion: \<open>p\<close> is the power, \<open>u\<close> and \<open>heads\<close> the random draws.\<close>

definition spread :: "float64 \<Rightarrow> bool \<Rightarrow> float64 \<Rightarrow> float64 \<Rightarrow> float64" where
  "spread u heads j ms =
     (if fless (Fin 0) j then
        (let deviation = ffloor (fmul (fmul u j) ms) in if heads then fsub ms deviation else fadd ms deviation)
      else ms)"

definition clamp :: "int \<Rightarrow> float64 \<Rightarrow> float64" where
  "clamp mx ms =
     (let ms = (if fless (of_int64 (milliseconds mx)) ms then of_int64 (milliseconds mx) else ms)
      in if fless ms (Fin 0) then Fin 0 else ms)"

text \<open>Multiplication of 64-bit integers wraps around.\<close>

definition wrap64 :: "int \<Rightarrow> int" where
  "wrap64 n = (n + 2 ^ 63) mod 2 ^ 64 - 2 ^ 63"

definition next_delay :: "(float64 \<Rightarrow> int) \<Rightarrow> (float64 \<Rightarrow> nat \<Rightarrow> float64) \<Rightarrow> float64 \<Rightarrow> bool \<Rightarrow> backoff \<Rightarrow> int \<times> backoff" where
  "next_delay platform pow u heads b =
     (let n = attempts b;
          ms = fmul (of_int64 (milliseconds (minDelay b))) (pow (factor b) n);
          ms = clamp (maxDelay b) (spread u heads (jitter b) ms)
      in (wrap64 (to_int platform ms * 10 ^ 6), b\<lparr>attempts := Suc n\<rparr>))"

definition reset :: "backoff \<Rightarrow> backoff" where
  "reset b = b\<lparr>attempts := 0\<rparr>"

lemma wrap64_small: "min_dur \<le> n \<Longrightarrow> n \<le> max_dur \<Longrightarrow> wrap64 n = n"
  by (simp add: wrap64_def min_dur_def max_dur_def)

lemma milliseconds_bounds:
  assumes "0 \<le> d" and "d \<le> max_dur"
  shows "0 \<le> milliseconds d \<and> milliseconds d * 10 ^ 6 \<le> d \<and> milliseconds d \<le> 2 ^ 53"
proof -
  have "milliseconds d = d div 10 ^ 6" using assms(1) by (auto simp: milliseconds_def sgn_if)
  moreover have "d div 10 ^ 6 \<le> 2 ^ 53"
  proof -
    have "d div 10 ^ 6 \<le> max_dur div 10 ^ 6" using assms(2) by (rule zdiv_mono1) simp
    then show ?thesis by (simp add: max_dur_def)
  qed
  moreover have "d div 1000000 * 1000000 \<le> d"
    using div_mult_mod_eq [of d 1000000] pos_mod_sign [of 1000000 d] by linarith
  then have "d div 10 ^ 6 * 10 ^ 6 \<le> d" by simp
  ultimately show ?thesis using assms(1) by (simp add: pos_imp_zdiv_nonneg_iff)
qed

lemma clamp_range:
  assumes "ms \<noteq> NaN" and "0 \<le> mx" and "mx \<le> max_dur"
  shows "\<exists>q. clamp mx ms = Fin q \<and> 0 \<le> q \<and> q \<le> of_int (milliseconds mx)"
proof -
  have m: "of_int64 (milliseconds mx) = Fin (of_int (milliseconds mx))" "0 \<le> milliseconds mx"
    using milliseconds_bounds [OF assms(2,3)] by (simp_all add: of_int64_small)
  show ?thesis
    using assms(1) m(2) by (cases ms) (auto simp: clamp_def m(1) Let_def)
qed

section \<open>Future\<close>

datatype ('v, 'e) future = Unfinished | Finished 'v "'e option"

text \<open>
  \<open>Get\<close>: the branch its \<open>select\<close> takes, \<open>None\<close> when it blocks; when both are ready, \<open>favour_ctx\<close> is the choice. The
  goroutine of \<open>NewFuture\<close> stores the result of the function and closes the channel.
\<close>

definition newFuture :: "('v, 'e) future" where
  "newFuture = Unfinished"

definition finish_future :: "'v \<times> 'e option \<Rightarrow> ('v, 'e) future \<Rightarrow> ('v, 'e) future" where
  "finish_future out f = (case f of Unfinished \<Rightarrow> Finished (fst out) (snd out) | _ \<Rightarrow> f)"

definition future_get :: "bool \<Rightarrow> 'e option \<Rightarrow> ('v::zero, 'e) future \<Rightarrow> ('v \<times> 'e option) option" where
  "future_get favour_ctx ctxErr f =
     (case (ctxErr, f) of
        (None, Unfinished) \<Rightarrow> None
      | (Some e, Unfinished) \<Rightarrow> Some (0, Some e)
      | (None, Finished v r) \<Rightarrow> Some (v, r)
      | (Some e, Finished v r) \<Rightarrow> if favour_ctx then Some (0, Some e) else Some (v, r))"

section \<open>Properties\<close>




text \<open>
  Bounds: as long as the computed milliseconds are a number, the delay is between zero and the maximum,
  whatever the random draws; every call counts one attempt.
\<close>

theorem backoff_bounds:
  assumes "0 \<le> maxDelay b" and "maxDelay b \<le> max_dur"
    and "spread u heads (jitter b) (fmul (of_int64 (milliseconds (minDelay b))) (pow (factor b) (attempts b))) \<noteq> NaN"
  shows "0 \<le> fst (next_delay platform pow u heads b) \<and> fst (next_delay platform pow u heads b) \<le> maxDelay b \<and>
    attempts (snd (next_delay platform pow u heads b)) = Suc (attempts b)"
proof -
  obtain q where q: "clamp (maxDelay b) (spread u heads (jitter b) (fmul (of_int64 (milliseconds (minDelay b))) (pow (factor b) (attempts b)))) = Fin q"
      "0 \<le> q" "q \<le> of_int (milliseconds (maxDelay b))"
    using clamp_range [OF assms(3,1,2)] by blast
  have mb: "milliseconds (maxDelay b) * 10 ^ 6 \<le> maxDelay b" using milliseconds_bounds [OF assms(1,2)] by simp
  have fl: "0 \<le> \<lfloor>q\<rfloor>" "\<lfloor>q\<rfloor> \<le> milliseconds (maxDelay b)" using q(2,3) by (simp_all add: floor_le_iff)
  then have le: "\<lfloor>q\<rfloor> * 10 ^ 6 \<le> maxDelay b"
    using mb mult_right_mono [OF fl(2), of "10 ^ 6"] by simp
  moreover from this have "\<lfloor>q\<rfloor> * 1 \<le> \<lfloor>q\<rfloor> * 10 ^ 6" using fl(1) by (intro mult_left_mono) simp_all
  ultimately have "\<lfloor>q\<rfloor> * 1 \<le> maxDelay b" by (rule order_trans [rotated])
  with assms(2) have "\<lfloor>q\<rfloor> \<le> max_dur" by linarith
  then have "to_int platform (Fin q) = \<lfloor>q\<rfloor>"
    using q(2) fl(1) by (simp add: to_int_def trunc_rat_def min_dur_def max_dur_def)
  moreover have "wrap64 (\<lfloor>q\<rfloor> * 10 ^ 6) = \<lfloor>q\<rfloor> * 10 ^ 6"
  proof (rule wrap64_small)
    have "0 \<le> \<lfloor>q\<rfloor> * 10 ^ 6" using fl(1) by simp
    then show "min_dur \<le> \<lfloor>q\<rfloor> * 10 ^ 6" by (rule order_trans [rotated]) (simp add: min_dur_def)
    show "\<lfloor>q\<rfloor> * 10 ^ 6 \<le> max_dur" by (rule order_trans [OF le assms(2)])
  qed
  ultimately show ?thesis
    using q(1) le fl(1) by (simp add: next_delay_def Let_def)
qed

definition doubling :: "float64 \<Rightarrow> nat \<Rightarrow> float64" where
  "doubling f n = (if n < 1024 then Fin (2 ^ n) else Inf True)"

theorem backoff_bounds_witness:
  "fst (next_delay (\<lambda>_. 0) doubling (Fin 0) True (newBackoff (10 ^ 8) (10 ^ 9) (Fin 2) (Fin 0))) \<le> 10 ^ 9"
  using backoff_bounds [of "newBackoff (10 ^ 8) (10 ^ 9) (Fin 2) (Fin 0)" "Fin 0" True doubling "\<lambda>_. 0"]
  by (simp add: newBackoff_def max_dur_def spread_def doubling_def of_int64_small milliseconds_def)

text \<open>
  Safety, a defect: once the power has overflowed to infinity and the jitter is subtracted, the milliseconds
  are not a number, both comparisons of the clamping are false, and the delay is what the platform makes of
  converting NaN; where that is the least 64-bit integer, as on amd64, the delay is zero.
\<close>

theorem backoff_overflow:
  assumes "pow (factor b) (attempts b) = Inf True" and "10 ^ 6 \<le> minDelay b" and "minDelay b \<le> max_dur"
    and "jitter b = Fin 1" and "u = Fin (1 / 2)"
  shows "fst (next_delay platform pow u True b) = wrap64 (platform NaN * 10 ^ 6) \<and> wrap64 (min_dur * 10 ^ 6) = 0"
proof -
  have "0 \<le> minDelay b" using assms(2) by simp
  then have "milliseconds (minDelay b) \<le> 2 ^ 53" using milliseconds_bounds assms(3) by blast
  moreover have "1 \<le> milliseconds (minDelay b)"
  proof -
    have "(10 ^ 6) div 10 ^ 6 \<le> minDelay b div 10 ^ 6" using assms(2) by (rule zdiv_mono1) simp
    then show ?thesis using assms(2) by (simp add: milliseconds_def)
  qed
  ultimately have "of_int64 (milliseconds (minDelay b)) = Fin (of_int (milliseconds (minDelay b)))" "0 < milliseconds (minDelay b)"
    by (simp_all add: of_int64_small)
  moreover have "rnd (1 / 2) = Fin (1 / 2)"
    using round_pos_exact [of 1 "- 1"] by (simp add: rnd_def Let_def power_int_minus)
  ultimately have "spread u True (jitter b) (fmul (of_int64 (milliseconds (minDelay b))) (pow (factor b) (attempts b))) = NaN"
    using assms(1,4,5) by (simp add: spread_def fsub_def)
  moreover have "clamp (maxDelay b) NaN = NaN" by (simp add: clamp_def)
  ultimately show ?thesis
    by (simp add: next_delay_def to_int_def wrap64_def min_dur_def)
qed

theorem backoff_overflow_witness:
  "fst (next_delay (\<lambda>_. min_dur) doubling (Fin (1 / 2)) True
     ((newBackoff (10 ^ 8) (10 ^ 9) (Fin 2) (Fin 1))\<lparr>attempts := 2000\<rparr>)) = 0"
  using backoff_overflow [of doubling "(newBackoff (10 ^ 8) (10 ^ 9) (Fin 2) (Fin 1))\<lparr>attempts := 2000\<rparr>" "Fin (1 / 2)" "\<lambda>_. min_dur"]
  by (simp add: newBackoff_def doubling_def max_dur_def)

text \<open>
  Functional: \<open>Get\<close> blocks only while the function runs and the context lives; it returns the function's result or
  the context's error, and the result cannot change once it is there.
\<close>

theorem future_get_result:
  "(future_get favour err f = None \<longleftrightarrow> f = Unfinished \<and> err = None) \<and>
   future_get favour None (finish_future out newFuture) = Some out \<and>
   finish_future out' (finish_future out newFuture) = finish_future out newFuture"
  by (cases f; cases err; cases out) (auto simp: future_get_def finish_future_def newFuture_def)

end
