(* ===== verification/Lazy.thy ===== *)
theory Lazy
  imports Locked
begin

text \<open>
  \<open>sync/lazy/lazy.go\<close>: a value initialised at its first use. \<open>init\<close> acts on a state of the world and may
  panic, which releases the mutex through the deferred \<open>Unlock\<close> and leaves the container as it was. The last
  section takes the operations apart into their assignments and interleaves goroutines under the mutex.
  Lemmas: a sequence of operations refines one remembered result; so does every concurrent use.
\<close>

section \<open>The operations\<close>

record ('v, 'e) lazy =
  val :: 'v
  err :: "'e option"
  initialized :: bool

definition new :: "('v::zero, 'e) lazy" where
  "new = \<lparr>val = 0, err = None, initialized = False\<rparr>"

definition get :: "('w \<Rightarrow> ('v \<times> 'e option) outcome \<times> 'w) \<Rightarrow> ('v, 'e) lazy \<Rightarrow> 'w \<Rightarrow>
    ('v \<times> 'e option) outcome \<times> ('v, 'e) lazy \<times> 'w" where
  "get init l w =
     (if initialized l then (Returned (val l, err l), l, w)
      else (case init w of
        (Panicked, w') \<Rightarrow> (Panicked, l, w')
      | (Returned (v, e), w') \<Rightarrow> (Returned (v, e), l\<lparr>val := v, err := e, initialized := True\<rparr>, w')))"

definition reset :: "('v::zero, 'e) lazy \<Rightarrow> ('v, 'e) lazy" where
  "reset l = l\<lparr>initialized := False, val := 0, err := None\<rparr>"

section \<open>Sequences of operations\<close>

datatype lazy_op = Get | Reset

fun lazy_run :: "('w \<Rightarrow> ('v::zero \<times> 'e option) outcome \<times> 'w) \<Rightarrow> lazy_op list \<Rightarrow> ('v, 'e) lazy \<Rightarrow> 'w \<Rightarrow>
    ('v \<times> 'e option) outcome list \<times> ('v, 'e) lazy \<times> 'w" where
  "lazy_run init [] l w = ([], l, w)"
| "lazy_run init (Get # ops) l w =
     (case get init l w of (r, l1, w1) \<Rightarrow> (case lazy_run init ops l1 w1 of (rs, l2, w2) \<Rightarrow> (r # rs, l2, w2)))"
| "lazy_run init (Reset # ops) l w = lazy_run init ops (reset l) w"

text \<open>The specification: at most one remembered result.\<close>

fun memo_run :: "('w \<Rightarrow> 'r outcome \<times> 'w) \<Rightarrow> lazy_op list \<Rightarrow> 'r option \<Rightarrow> 'w \<Rightarrow> 'r outcome list \<times> 'r option \<times> 'w" where
  "memo_run init [] c w = ([], c, w)"
| "memo_run init (Get # ops) (Some r) w = (case memo_run init ops (Some r) w of (rs, c, w') \<Rightarrow> (Returned r # rs, c, w'))"
| "memo_run init (Get # ops) None w =
     (case init w of (out, w1) \<Rightarrow>
        (case memo_run init ops (case out of Returned r \<Rightarrow> Some r | Panicked \<Rightarrow> None) w1 of (rs, c, w') \<Rightarrow> (out # rs, c, w')))"
| "memo_run init (Reset # ops) c w = memo_run init ops None w"

definition remembered :: "('v, 'e) lazy \<Rightarrow> ('v \<times> 'e option) option" where
  "remembered l = (if initialized l then Some (val l, err l) else None)"

lemma remembered_new: "remembered new = None"
  by (simp add: remembered_def new_def)

text \<open>
  Refinement: any sequence of \<open>Get\<close> and \<open>Reset\<close> returns, does to the world and leaves remembered what the one
  remembered result prescribes: the initialisation runs at the first \<open>Get\<close> and at the first one after a
  \<open>Reset\<close> or a panic, and at no other; errors are remembered like values.
\<close>

theorem lazy_refines_memo:
  "(case lazy_run init ops l w of (rs, l', w') \<Rightarrow> (rs, remembered l', w')) = memo_run init ops (remembered l) w"
proof (induction init ops l w rule: lazy_run.induct)
  case (1 init l w)
  show ?case by simp
next
  case (2 init ops l w)
  obtain r l1 w1 where g: "get init l w = (r, l1, w1)" by (metis prod_cases3)
  obtain rs l2 w2 where t: "lazy_run init ops l1 w1 = (rs, l2, w2)" by (metis prod_cases3)
  from 2 [OF g [symmetric] refl] t have IH: "memo_run init ops (remembered l1) w1 = (rs, remembered l2, w2)" by simp
  have "memo_run init (Get # ops) (remembered l) w = (r # rs, remembered l2, w2)"
  proof (cases "initialized l")
    case True
    then have "remembered l = Some (val l, err l)" by (simp add: remembered_def)
    moreover from True g have "r = Returned (val l, err l)" "l1 = l" "w1 = w" by (auto simp: get_def)
    ultimately show ?thesis using IH by simp
  next
    case False
    then have "remembered l = None" by (simp add: remembered_def)
    moreover from False g have "init w = (r, w1)" and "remembered l1 = (case r of Returned x \<Rightarrow> Some x | Panicked \<Rightarrow> None)"
      by (auto simp: get_def remembered_def split: prod.splits outcome.splits)
    ultimately show ?thesis using IH by simp
  qed
  then show ?case using g t by simp
next
  case (3 init ops l w)
  have "remembered (reset l) = None" by (simp add: remembered_def reset_def)
  with 3 show ?case by simp
qed

section \<open>Concurrent use\<close>

text \<open>
  The program points of \<open>Get\<close> (the test of \<open>done\<close>, the call of \<open>init\<close>, the assignment of its results, of \<open>done\<close>, and
  the return) and the three assignments of \<open>Reset\<close>.
\<close>

datatype ('v, 'e) lazy_point = TestDone | CallInit | StoreResult 'v "'e option" | StoreDone | ReturnValue
  | ClearDone | ClearValue | ClearErr

fun lazy_entry :: "lazy_op \<Rightarrow> ('v, 'e) lazy_point" where
  "lazy_entry Get = TestDone"
| "lazy_entry Reset = ClearDone"

fun lazy_micro :: "('w \<Rightarrow> ('v::zero \<times> 'e option) outcome \<times> 'w) \<Rightarrow> ('v, 'e) lazy_point \<Rightarrow> ('v, 'e) lazy \<times> 'w \<Rightarrow>
    (('v, 'e) lazy \<times> 'w) \<times> (('v, 'e) lazy_point + ('v \<times> 'e option) outcome option)" where
  "lazy_micro init TestDone (l, w) = ((l, w), Inl (if initialized l then ReturnValue else CallInit))"
| "lazy_micro init CallInit (l, w) =
     (case init w of
        (Panicked, w') \<Rightarrow> ((l, w'), Inr (Some Panicked))
      | (Returned (v, e), w') \<Rightarrow> ((l, w'), Inl (StoreResult v e)))"
| "lazy_micro init (StoreResult v e) (l, w) = ((l\<lparr>val := v, err := e\<rparr>, w), Inl StoreDone)"
| "lazy_micro init StoreDone (l, w) = ((l\<lparr>initialized := True\<rparr>, w), Inl ReturnValue)"
| "lazy_micro init ReturnValue (l, w) = ((l, w), Inr (Some (Returned (val l, err l))))"
| "lazy_micro init ClearDone (l, w) = ((l\<lparr>initialized := False\<rparr>, w), Inl ClearValue)"
| "lazy_micro init ClearValue (l, w) = ((l\<lparr>val := 0\<rparr>, w), Inl ClearErr)"
| "lazy_micro init ClearErr (l, w) = ((l\<lparr>err := None\<rparr>, w), Inr None)"

fun lazy_effect :: "('w \<Rightarrow> ('v::zero \<times> 'e option) outcome \<times> 'w) \<Rightarrow> lazy_op \<Rightarrow> ('v, 'e) lazy \<times> 'w \<Rightarrow>
    ('v \<times> 'e option) outcome option \<times> (('v, 'e) lazy \<times> 'w)" where
  "lazy_effect init Get (l, w) = (case get init l w of (r, l', w') \<Rightarrow> (Some r, (l', w')))"
| "lazy_effect init Reset (l, w) = (None, (reset l, w))"

lemma lazy_computes: "\<exists>n. exec (lazy_micro init) n (lazy_entry opn) d = (case lazy_effect init opn d of (r, d') \<Rightarrow> (d', Inr r))"
proof -
  obtain l w where d: "d = (l, w)" by fastforce
  obtain out w' where i: "init w = (out, w')" by fastforce
  let ?computed = "\<lambda>n. exec (lazy_micro init) n (lazy_entry opn) d = (case lazy_effect init opn d of (r, d') \<Rightarrow> (d', Inr r))"
  consider "opn = Reset" | "opn = Get" "initialized l \<or> out = Panicked" | r where "opn = Get" "\<not> initialized l" "out = Returned r"
    by (cases opn; cases out) auto
  then show ?thesis
  proof cases
    case 1
    then have "?computed 3" by (simp add: d reset_def numeral_3_eq_3)
    then show ?thesis by blast
  next
    case 2
    then have "?computed 2" using i by (auto simp: d get_def numeral_2_eq_2)
    then show ?thesis by blast
  next
    case 3
    then have "?computed (Suc (Suc (Suc (Suc (Suc 0)))))" using i by (cases r) (simp add: d get_def)
    then show ?thesis by blast
  qed
qed

interpretation lazy: locked_object "\<lambda>b. b" mu_attempt mu_unlock lazy_entry "lazy_micro init" "lazy_effect init" for init
  by unfold_locales (rule lazy_computes)

abbreviation lazy_step where
  "lazy_step init \<equiv> locked_step mu_attempt mu_unlock lazy_entry (lazy_micro init)"

lemma replay_lazy_run:
  "replay (lazy_effect init) ops (l, w) = (rs, (l', w')) \<Longrightarrow> lazy_run init ops l w = (List.map_filter (\<lambda>r. r) rs, l', w')"
proof (induction ops arbitrary: l w rs)
  case (Cons opn ops)
  then show ?case
    by (cases opn) (auto simp: map_filter_def split: prod.splits)
qed (simp add: map_filter_def)

text \<open>
  C27 (refinement): any number of goroutines call \<open>Get\<close> and \<open>Reset\<close>, interleaved at every assignment: whenever nobody
  is inside an operation, the results they got, the world and what is remembered are those of one
  remembered result, for the operations in the order in which they released the mutex. The
  initialisation runs at the first \<open>Get\<close>, and at the first one after a \<open>Reset\<close> or a panic, and at no other.
\<close>

theorem lazy_linearizable:
  assumes "reach ((=) (locked_start False (new, w0))) (labelled (lazy_step init)) s" and "\<And>g. \<not> is_inner (spot s g)"
  shows "memo_run init (map fst (log s)) None w0 =
    (List.map_filter snd (log s), remembered (fst (data s)), snd (data s))"
proof -
  obtain l' w' where d: "data s = (l', w')" by fastforce
  have "replay (lazy_effect init) (map fst (log s)) (new, w0) = (map snd (log s), (l', w'))"
    using lazy.linearizable [OF assms(1) _ assms(2)] d by simp
  from replay_lazy_run [OF this]
  have "lazy_run init (map fst (log s)) new w0 = (List.map_filter snd (log s), l', w')"
    by (simp add: map_filter_def comp_def filter_map)
  then show ?thesis
    using lazy_refines_memo [of init "map fst (log s)" new w0] d by (simp add: remembered_new)
qed

text \<open>Two goroutines: the second waits while the first initialises, and gets the same value.\<close>

definition demo_init :: "nat \<Rightarrow> (nat \<times> unit option) outcome \<times> nat" where
  "demo_init w = (Returned (w + 40, None), Suc w)"

definition demo_gets :: "lazy_op locked_label list" where
  "demo_gets = [Begin 0 Get, Begin 1 Get, Take 0, Micro 0, Take 1, Micro 0, Micro 0, Micro 0, Micro 0, Finish 0,
     Take 1, Micro 1, Micro 1, Finish 1]"

theorem lazy_linearizable_witness:
  "\<exists>s. run (lazy_step demo_init) demo_gets (locked_start False (new, 2)) = Some s \<and>
     memo_run demo_init [Get, Get] None 2 = ([Returned (42, None), Returned (42, None)], Some (42, None), 3) \<and>
     snd (data s) = 3"
proof -
  have "\<exists>s. run (lazy_step demo_init) demo_gets (locked_start False (new, 2)) = Some s \<and>
      (\<forall>g. \<not> is_inner (spot s g)) \<and> log s = [(Get, Some (Returned (42, None))), (Get, Some (Returned (42, None)))] \<and>
      data s = (\<lparr>val = 42, err = None, initialized = True\<rparr>, 3)"
    by (simp add: demo_gets_def locked_start_def mu_attempt_def mu_unlock_def new_def demo_init_def)
  then obtain s where s: "run (lazy_step demo_init) demo_gets (locked_start False (new, 2)) = Some s"
    "\<And>g. \<not> is_inner (spot s g)" "log s = [(Get, Some (Returned (42, None))), (Get, Some (Returned (42, None)))]"
    "data s = (\<lparr>val = 42, err = None, initialized = True\<rparr>, 3)" by blast
  have "memo_run demo_init [Get, Get] None 2 = ([Returned (42, None), Returned (42, None)], Some (42, None), 3)"
    using lazy_linearizable [OF reach_run [OF s(1) reach_start] s(2)] s(3,4)
    by (simp add: map_filter_def remembered_def)
  with s(1,4) show ?thesis by auto
qed

end
