(* ===== verification/Behavior.thy ===== *)
theory Behavior
  imports Prelude
begin

text \<open>
  \<open>behavior/behavior.go\<close>: an orchestrator that runs its behaviors in goroutines. \<open>Stop\<close> keeps the mutex
  while it waits for them, so it is two steps: \<open>holder\<close> says that it is inside. The context of
  a start is a number; it is done when \<open>Stop\<close> or fail-fast cancelled it, or the caller's context is. A
  running behavior may call methods of the orchestrator, which need the mutex. Logging is left out.
  Lemmas: names are unique and a behavior runs once at a time; \<open>Stop\<close> waits for all; how it deadlocks.
\<close>

section \<open>The operations\<close>

record 'b behavior =
  bname :: string
  body :: 'b

record 'b orchestrator =
  behaviors :: "'b behavior list"
  running :: bool
  cancel_of :: nat
  failFast :: bool
  cancelled :: "nat \<Rightarrow> bool"
  next_ctx :: nat

definition newOrchestrator :: "bool \<Rightarrow> 'b orchestrator" where
  "newOrchestrator ff = \<lparr>behaviors = [], running = False, cancel_of = 0, failFast = ff, cancelled = (\<lambda>_. False), next_ctx = 0\<rparr>"

fun registered :: "'b behavior list \<Rightarrow> string \<Rightarrow> bool" where
  "registered [] n \<longleftrightarrow> False"
| "registered (b # bs) n \<longleftrightarrow> (if bname b = n then True else registered bs n)"

definition register :: "'b behavior \<Rightarrow> 'b orchestrator \<Rightarrow> 'b orchestrator" where
  "register b orc = (if registered (behaviors orc) (bname b) then orc else orc\<lparr>behaviors := behaviors orc @ [b]\<rparr>)"

datatype start_error = AlreadyRunning

text \<open>\<open>Start\<close>, up to the loop: the new context, or the error.\<close>

definition start :: "'b orchestrator \<Rightarrow> (start_error + nat) \<times> 'b orchestrator" where
  "start orc =
     (if running orc then (Inl AlreadyRunning, orc)
      else (let c = next_ctx orc in (Inr c, orc\<lparr>running := True, cancel_of := c, next_ctx := Suc c\<rparr>)))"

definition cancel_ctx :: "nat \<Rightarrow> 'b orchestrator \<Rightarrow> 'b orchestrator" where
  "cancel_ctx c orc = orc\<lparr>cancelled := (cancelled orc)(c := True)\<rparr>"

text \<open>After \<open>Run\<close> returned: an error while the context is live cancels it under fail-fast.\<close>

definition run_returned :: "nat \<Rightarrow> bool \<Rightarrow> 'b orchestrator \<Rightarrow> 'b orchestrator" where
  "run_returned c failed orc =
     (if failed \<and> \<not> cancelled orc c \<and> failFast orc then cancel_ctx c orc else orc)"

definition count :: "'b orchestrator \<Rightarrow> nat" where
  "count orc = length (behaviors orc)"

section \<open>Interleaving\<close>

text \<open>A goroutine of \<open>Start\<close>: in \<open>Run\<close>, in a method of the orchestrator that it called from \<open>Run\<close>, or over.\<close>

datatype 'b task = NoTask | InRun "'b behavior" nat | InMethod "'b behavior" nat | Ended

record 'b orch_sys =
  orch :: "'b orchestrator"
  holder :: bool
  tasks :: "'b task list"

definition orch_start :: "bool \<Rightarrow> 'b orch_sys" where
  "orch_start ff = \<lparr>orch = newOrchestrator ff, holder = False, tasks = []\<rparr>"

datatype 'b orch_label = Register "'b behavior" | Start | StopLocks | StopReturns | ParentDone nat
  | RunReturns nat bool | CallMethod nat | MethodReturns nat

fun live :: "'b task \<Rightarrow> bool" where
  "live (InRun b c) \<longleftrightarrow> True"
| "live (InMethod b c) \<longleftrightarrow> True"
| "live _ \<longleftrightarrow> False"

fun orch_step :: "'b orch_label \<Rightarrow> 'b orch_sys \<Rightarrow> 'b orch_sys option" where
  "orch_step (Register b) s = (if holder s then None else Some (s\<lparr>orch := register b (orch s)\<rparr>))"
| "orch_step Start s =
     (if holder s then None
      else (case start (orch s) of
        (Inl e, orc) \<Rightarrow> Some s
      | (Inr c, orc) \<Rightarrow> Some (s\<lparr>orch := orc, tasks := tasks s @ map (\<lambda>b. InRun b c) (behaviors orc)\<rparr>)))"
| "orch_step StopLocks s =
     (if holder s then None
      else if \<not> running (orch s) then Some s
      else Some (s\<lparr>orch := cancel_ctx (cancel_of (orch s)) (orch s), holder := True\<rparr>))"
| "orch_step StopReturns s =
     (if holder s \<and> \<not> list_ex live (tasks s) then Some (s\<lparr>orch := (orch s)\<lparr>running := False\<rparr>, holder := False\<rparr>) else None)"
| "orch_step (ParentDone c) s = Some (s\<lparr>orch := cancel_ctx c (orch s)\<rparr>)"
| "orch_step (RunReturns i failed) s =
     (if i < length (tasks s) then
        (case tasks s ! i of
           InRun b c \<Rightarrow> Some (s\<lparr>orch := run_returned c failed (orch s), tasks := (tasks s)[i := Ended]\<rparr>)
         | _ \<Rightarrow> None)
      else None)"
| "orch_step (CallMethod i) s =
     (if i < length (tasks s) then
        (case tasks s ! i of InRun b c \<Rightarrow> Some (s\<lparr>tasks := (tasks s)[i := InMethod b c]\<rparr>) | _ \<Rightarrow> None)
      else None)"
| "orch_step (MethodReturns i) s =
     (if i < length (tasks s) \<and> \<not> holder s then
        (case tasks s ! i of InMethod b c \<Rightarrow> Some (s\<lparr>tasks := (tasks s)[i := InRun b c]\<rparr>) | _ \<Rightarrow> None)
      else None)"

abbreviation orch_reach :: "bool \<Rightarrow> 'b orch_sys \<Rightarrow> bool" where
  "orch_reach ff \<equiv> reach ((=) (orch_start ff)) (labelled orch_step)"

lemma orch_reach_run: "run orch_step ls (orch_start ff) = Some s \<Longrightarrow> orch_reach ff s"
  by (rule reach_run) (auto intro: reach_start)

lemmas orch_defs = newOrchestrator_def register_def start_def cancel_ctx_def run_returned_def orch_start_def

section \<open>The invariant\<close>

text \<open>The behaviors that are running, by name, in the order in which they were started.\<close>

fun live_name :: "'b task \<Rightarrow> string list" where
  "live_name (InRun b c) = [bname b]"
| "live_name (InMethod b c) = [bname b]"
| "live_name _ = []"

definition live_names :: "'b task list \<Rightarrow> string list" where
  "live_names ts = concat (map live_name ts)"

lemma live_name_iff: "live_name u = [] \<longleftrightarrow> \<not> live u"
  by (cases u) auto

lemma live_names_nil: "live_names ts = [] \<longleftrightarrow> \<not> list_ex live ts"
  by (induction ts) (auto simp: live_names_def live_name_iff)

lemma live_names_append: "live_names (xs @ ys) = live_names xs @ live_names ys"
  by (simp add: live_names_def)

lemma live_names_started: "live_names (map (\<lambda>b. InRun b c) bs) = map bname bs"
  by (induction bs) (simp_all add: live_names_def)

text \<open>A task that keeps or loses its name.\<close>

lemma live_names_same:
  "i < length ts \<Longrightarrow> live_name u = live_name (ts ! i) \<Longrightarrow> live_names (ts[i := u]) = live_names ts"
  unfolding live_names_def by (metis list_update_id map_update)

lemma live_names_ended:
  assumes "i < length ts" and "distinct (live_names ts)"
  shows "distinct (live_names (ts[i := Ended])) \<and> set (live_names (ts[i := Ended])) \<subseteq> set (live_names ts)"
proof -
  have ts: "take i ts @ [ts ! i] @ drop (Suc i) ts = ts" using assms(1) by (simp add: id_take_nth_drop [symmetric])
  have "live_names (take i ts @ [ts ! i] @ drop (Suc i) ts) = live_names (take i ts) @ live_name (ts ! i) @ live_names (drop (Suc i) ts)"
    by (simp add: live_names_def)
  then have "live_names ts = live_names (take i ts) @ live_name (ts ! i) @ live_names (drop (Suc i) ts)"
    by (simp only: ts)
  moreover have "live_names (ts[i := Ended]) = live_names (take i ts) @ live_names (drop (Suc i) ts)"
    using assms(1) by (simp add: upd_conv_take_nth_drop live_names_def)
  ultimately show ?thesis using assms(2) by auto
qed

text \<open>A running behavior has the context of the current start, the one that \<open>Stop\<close> cancels.\<close>

fun of_ctx :: "nat \<Rightarrow> 'b task \<Rightarrow> bool" where
  "of_ctx c (InRun b d) \<longleftrightarrow> d = c"
| "of_ctx c (InMethod b d) \<longleftrightarrow> d = c"
| "of_ctx c _ \<longleftrightarrow> True"

lemma of_ctx_dead: "live_names ts = [] \<Longrightarrow> list_all (of_ctx d) ts"
proof (induction ts)
  case (Cons u us)
  then show ?case by (cases u) (simp_all add: live_names_def)
qed simp

lemma of_ctx_started: "list_all (of_ctx d) (map (\<lambda>b. InRun b d) bs)"
  by (induction bs) simp_all

definition orch_inv :: "bool \<Rightarrow> 'b orch_sys \<Rightarrow> bool" where
  "orch_inv ff s \<longleftrightarrow> distinct (map bname (behaviors (orch s))) \<and> distinct (live_names (tasks s)) \<and>
     set (live_names (tasks s)) \<subseteq> bname ` set (behaviors (orch s)) \<and>
     (\<not> running (orch s) \<longrightarrow> live_names (tasks s) = []) \<and>
     (holder s \<longrightarrow> running (orch s) \<and> cancelled (orch s) (cancel_of (orch s))) \<and> failFast (orch s) = ff \<and>
     list_all (of_ctx (cancel_of (orch s))) (tasks s)"

lemma registered_iff: "registered bs n \<longleftrightarrow> n \<in> bname ` set bs"
  by (induction bs) auto

lemma orch_inv_returned:
  assumes I: "orch_inv ff s" and i: "i < length (tasks s)" "tasks s ! i = InRun b c"
  shows "orch_inv ff (s\<lparr>orch := run_returned c failed (orch s), tasks := (tasks s)[i := Ended]\<rparr>)" (is "orch_inv ff ?t")
proof -
  have d: "distinct (live_names (tasks s))" using I by (simp add: orch_inv_def)
  have fr: "behaviors (orch ?t) = behaviors (orch s)" "running (orch ?t) = running (orch s)" "cancel_of (orch ?t) = cancel_of (orch s)"
    "failFast (orch ?t) = failFast (orch s)" "cancelled (orch s) e \<Longrightarrow> cancelled (orch ?t) e" for e
    by (simp_all add: run_returned_def cancel_ctx_def)
  have len: "live_names ((tasks s)[i := Ended]) = []" if "live_names (tasks s) = []"
    using live_names_ended [OF i(1) d] that by simp
  have "list_all (of_ctx (cancel_of (orch s))) ((tasks s)[i := Ended])"
    using I list_all_update [of _ "tasks s" Ended] by (simp add: orch_inv_def)
  moreover have "distinct (live_names ((tasks s)[i := Ended])) \<and>
      set (live_names ((tasks s)[i := Ended])) \<subseteq> bname ` set (behaviors (orch s))"
    using live_names_ended [OF i(1) d] I unfolding orch_inv_def by blast
  moreover have "tasks ?t = (tasks s)[i := Ended]" "holder ?t = holder s" by simp_all
  ultimately show ?thesis using I fr len unfolding orch_inv_def by simp
qed

lemma orch_inv_step:
  assumes I: "orch_inv ff s" and st: "orch_step l s = Some s'"
  shows "orch_inv ff s'"
proof (cases l)
  case (Register b)
  with st have "s' = s\<lparr>orch := register b (orch s)\<rparr>" by (simp split: if_splits)
  with I show ?thesis
    unfolding orch_inv_def by (auto simp: register_def registered_iff)
next
  case Start
  show ?thesis
  proof (cases "running (orch s)")
    case True
    with Start st have "s' = s" by (simp add: start_def split: if_splits)
    with I show ?thesis by simp
  next
    case False
    with Start st have s': "s' = s\<lparr>orch := (orch s)\<lparr>running := True, cancel_of := next_ctx (orch s), next_ctx := Suc (next_ctx (orch s))\<rparr>,
        tasks := tasks s @ map (\<lambda>b. InRun b (next_ctx (orch s))) (behaviors (orch s))\<rparr>"
      by (simp add: start_def Let_def split: if_splits)
    from I False have "live_names (tasks s) = []" and "\<not> holder s" by (auto simp: orch_inv_def)
    with I show ?thesis by (simp add: s' orch_inv_def live_names_append live_names_started of_ctx_dead of_ctx_started)
  qed
next
  case StopLocks
  with assms show ?thesis by (auto simp: orch_inv_def cancel_ctx_def split: if_splits)
next
  case StopReturns
  with assms show ?thesis by (auto simp: orch_inv_def live_names_nil split: if_splits)
next
  case (ParentDone c)
  with assms show ?thesis by (auto simp: orch_inv_def cancel_ctx_def)
next
  case (RunReturns i failed)
  with st obtain b c where "i < length (tasks s)" "tasks s ! i = InRun b c"
    and "s' = s\<lparr>orch := run_returned c failed (orch s), tasks := (tasks s)[i := Ended]\<rparr>"
    by (auto split: if_splits task.splits)
  with orch_inv_returned [OF I] show ?thesis by simp
next
  case (CallMethod i)
  with st obtain b c where i: "i < length (tasks s)" "tasks s ! i = InRun b c"
    and s': "s' = s\<lparr>tasks := (tasks s)[i := InMethod b c]\<rparr>"
    by (auto split: if_splits task.splits)
  have "of_ctx (cancel_of (orch s)) (InMethod b c)" using I i list_all_at [of "of_ctx (cancel_of (orch s))" "tasks s" i] by (simp add: orch_inv_def)
  with I live_names_same [OF i(1), of "InMethod b c"] i(2) s' show ?thesis
    by (simp add: orch_inv_def list_all_update)
next
  case (MethodReturns i)
  with st obtain b c where i: "i < length (tasks s)" "tasks s ! i = InMethod b c"
    and s': "s' = s\<lparr>tasks := (tasks s)[i := InRun b c]\<rparr>"
    by (auto split: if_splits task.splits)
  have "of_ctx (cancel_of (orch s)) (InRun b c)" using I i list_all_at [of "of_ctx (cancel_of (orch s))" "tasks s" i] by (simp add: orch_inv_def)
  with I live_names_same [OF i(1), of "InRun b c"] i(2) s' show ?thesis
    by (simp add: orch_inv_def list_all_update)
qed

interpretation orchestrator: inductive_invariant "(=) (orch_start ff)" "labelled orch_step" "orch_inv ff" for ff
proof
  show "orch_inv ff s" if "orch_start ff = s" for s :: "'b orch_sys"
    using that by (auto simp: orch_inv_def orch_start_def newOrchestrator_def live_names_def)
  show "orch_inv ff s'" if "orch_inv ff s" and "labelled orch_step s s'" for s s' :: "'b orch_sys"
    using that orch_inv_step by (auto simp: labelled_def)
qed

lemma orch_reach_inv: "orch_reach ff s \<Longrightarrow> orch_inv ff s"
  by (rule orchestrator.inv_reachable)

section \<open>Properties\<close>

text \<open>
  C40 (invariant): names are unique; a registered behavior has at most one running \<open>Run\<close>, and only registered
  ones run; while the orchestrator is not running nothing does, so a \<open>Start\<close> that succeeds makes exactly the
  registered behaviors the running ones.
\<close>

theorem behavior_once:
  assumes "orch_reach ff s"
  shows "distinct (map bname (behaviors (orch s))) \<and> distinct (live_names (tasks s)) \<and>
    set (live_names (tasks s)) \<subseteq> bname ` set (behaviors (orch s)) \<and>
    (orch_step Start s = Some s' \<and> s' \<noteq> s \<longrightarrow> live_names (tasks s') = map bname (behaviors (orch s)))"
proof -
  have I: "orch_inv ff s" using assms by (rule orch_reach_inv)
  have "live_names (tasks s') = map bname (behaviors (orch s))" if "orch_step Start s = Some s'" and "s' \<noteq> s"
  proof -
    have nr: "\<not> running (orch s)" using that by (auto simp: start_def split: if_splits)
    with I have "live_names (tasks s) = []" by (simp add: orch_inv_def)
    with nr that show ?thesis
      by (auto simp: start_def Let_def live_names_append live_names_started split: if_splits)
  qed
  with I show ?thesis unfolding orch_inv_def by blast
qed

text \<open>
  once \<open>Stop\<close> waits, the context of every behavior still running is cancelled; \<open>Stop\<close> returns when and
  only when none runs; and \<open>Register\<close>, \<open>Start\<close> and a second \<open>Stop\<close> wait for it.
\<close>

theorem behavior_stop:
  assumes "orch_reach ff s" and "holder s"
  shows "(\<forall>i b c. i < length (tasks s) \<and> (tasks s ! i = InRun b c \<or> tasks s ! i = InMethod b c) \<longrightarrow> cancelled (orch s) c) \<and>
    (orch_step StopReturns s \<noteq> None \<longleftrightarrow> \<not> list_ex live (tasks s)) \<and>
    orch_step (Register b0) s = None \<and> orch_step Start s = None \<and> orch_step StopLocks s = None"
proof -
  have "orch_inv ff s" using assms(1) by (rule orch_reach_inv)
  with assms(2) have L: "list_all (of_ctx (cancel_of (orch s))) (tasks s)" and c: "cancelled (orch s) (cancel_of (orch s))"
    by (simp_all add: orch_inv_def)
  have "cancelled (orch s) d" if "i < length (tasks s)" "tasks s ! i = InRun b d \<or> tasks s ! i = InMethod b d" for i b d
    using list_all_at [OF L that(1)] that(2) c by auto
  with assms(2) show ?thesis by auto
qed

text \<open>
  under fail-fast a behavior that returns an error leaves every other running one with a cancelled
  context; without it, or when the behavior returns no error, no context is cancelled.
\<close>

theorem behavior_fail_fast:
  assumes "orch_reach ff s" and "orch_step (RunReturns i failed) s = Some s'"
  shows "if ff \<and> failed
    then \<forall>j b c. j < length (tasks s') \<and> (tasks s' ! j = InRun b c \<or> tasks s' ! j = InMethod b c) \<longrightarrow> cancelled (orch s') c
    else cancelled (orch s') = cancelled (orch s)"
proof -
  have I: "orch_inv ff s" using assms(1) by (rule orch_reach_inv)
  then have L: "list_all (of_ctx (cancel_of (orch s))) (tasks s)" and f: "failFast (orch s) = ff" by (simp_all add: orch_inv_def)
  from assms(2) obtain b c where i: "i < length (tasks s)" "tasks s ! i = InRun b c"
    and s': "s' = s\<lparr>orch := run_returned c failed (orch s), tasks := (tasks s)[i := Ended]\<rparr>"
    by (auto split: if_splits task.splits)
  have c: "c = cancel_of (orch s)" using list_all_at [OF L i(1)] i(2) by simp
  have L': "list_all (of_ctx c) (tasks s')" using list_all_update [OF L, of Ended i] by (simp add: s' c)
  show ?thesis
  proof (cases "ff \<and> failed")
    case True
    with f have "cancelled (orch s') c" by (simp add: s' run_returned_def cancel_ctx_def)
    then have "cancelled (orch s') d" if "j < length (tasks s')" "tasks s' ! j = InRun e d \<or> tasks s' ! j = InMethod e d" for j d e
      using list_all_at [OF L' that(1)] that(2) by auto
    with True show ?thesis by auto
  next
    case False
    with f show ?thesis by (auto simp: s' run_returned_def)
  qed
qed

text \<open>A step keeps \<open>Stop\<close> waiting and the behavior in its method call.\<close>

lemma orch_stuck_step:
  assumes "holder s" and "i < length (tasks s)" and "tasks s ! i = InMethod b c" and "orch_step l s = Some s'"
  shows "holder s' \<and> i < length (tasks s') \<and> tasks s' ! i = InMethod b c"
proof (cases l)
  case StopReturns
  have "list_ex live (tasks s)" using assms(2,3) by (auto simp: list_ex_length)
  with StopReturns assms(1,4) show ?thesis by simp
next
  case (RunReturns j failed)
  with assms show ?thesis by (auto simp: nth_list_update split: if_splits task.splits)
next
  case (CallMethod j)
  with assms show ?thesis by (auto simp: nth_list_update split: if_splits task.splits)
qed (use assms in \<open>auto split: if_splits sum.splits prod.splits\<close>)

interpretation orch_stuck: inductive_invariant "\<lambda>s. holder s \<and> i < length (tasks s) \<and> tasks s ! i = InMethod b c" "labelled orch_step"
    "\<lambda>s. holder s \<and> i < length (tasks s) \<and> tasks s ! i = InMethod b c" for i and b :: "'b behavior" and c
proof
  show "holder s' \<and> i < length (tasks s') \<and> tasks s' ! i = InMethod b c"
    if "holder s \<and> i < length (tasks s) \<and> tasks s ! i = InMethod b c" and "labelled orch_step s s'" for s s' :: "'b orch_sys"
    using that orch_stuck_step unfolding labelled_def by blast
qed

text \<open>
  \<open>Stop\<close> waits with the mutex held. A behavior that is then in a call of \<open>Register\<close>, \<open>Count\<close>,
  \<open>Start\<close> or \<open>Stop\<close> never gets out of it, whatever happens next, and \<open>Stop\<close> never returns.
\<close>

theorem behavior_deadlock:
  assumes "holder s" and "i < length (tasks s)" and "tasks s ! i = InMethod b c" and "(labelled orch_step)\<^sup>*\<^sup>* s s'"
  shows "tasks s' ! i = InMethod b c \<and> holder s' \<and> orch_step (MethodReturns i) s' = None \<and> orch_step StopReturns s' = None"
proof -
  have *: "holder s' \<and> i < length (tasks s') \<and> tasks s' ! i = InMethod b c"
    by (rule orch_stuck.inv_steps [OF assms(4)]) (use assms in simp)
  then have "list_ex live (tasks s')" by (auto simp: list_ex_length)
  with * show ?thesis by simp
qed

section \<open>Concrete runs\<close>

definition demo_orch :: "unit orch_label list" where
  "demo_orch = [Register \<lparr>bname = ''a'', body = ()\<rparr>, Register \<lparr>bname = ''b'', body = ()\<rparr>,
     Register \<lparr>bname = ''a'', body = ()\<rparr>]"

lemma demo_orch_run: "\<exists>s. run orch_step demo_orch (orch_start True) = Some s \<and> length (behaviors (orch s)) = 2 \<and>
    (\<exists>s'. orch_step Start s = Some s' \<and> s' \<noteq> s)"
  by (simp add: demo_orch_def orch_defs Let_def)

lemma demo_orch_stopping: "\<exists>s. run orch_step (demo_orch @ [Start, CallMethod 0, StopLocks]) (orch_start True) = Some s \<and>
    holder s \<and> length (tasks s) = 2 \<and> tasks s ! 0 = InMethod \<lparr>bname = ''a'', body = ()\<rparr> 0"
  by (simp add: demo_orch_def orch_defs Let_def)

lemma demo_orch_failed: "\<exists>s s'. run orch_step (demo_orch @ [Start]) (orch_start True) = Some s \<and>
    orch_step (RunReturns 1 True) s = Some s' \<and> length (tasks s') = 2 \<and> tasks s' ! 0 = InRun \<lparr>bname = ''a'', body = ()\<rparr> 0"
  by (simp add: demo_orch_def orch_defs Let_def)

theorem behavior_once_witness:
  "\<exists>s s'. run orch_step demo_orch (orch_start True) = Some s \<and> length (behaviors (orch s)) = 2 \<and>
     orch_step Start s = Some s' \<and> live_names (tasks s') = map bname (behaviors (orch s))"
proof -
  obtain s s' where s: "run orch_step demo_orch (orch_start True) = Some s" "length (behaviors (orch s)) = 2"
    "orch_step Start s = Some s'" "s' \<noteq> s" using demo_orch_run by blast
  have "live_names (tasks s') = map bname (behaviors (orch s))"
    using behavior_once [OF orch_reach_run [OF s(1)], of s'] s(3,4) by blast
  with s(1-3) show ?thesis by blast
qed

theorem behavior_stop_witness:
  "\<exists>s. run orch_step (demo_orch @ [Start, CallMethod 0, StopLocks]) (orch_start True) = Some s \<and> cancelled (orch s) 0"
proof -
  obtain s where s: "run orch_step (demo_orch @ [Start, CallMethod 0, StopLocks]) (orch_start True) = Some s"
    "holder s" "length (tasks s) = 2" "tasks s ! 0 = InMethod \<lparr>bname = ''a'', body = ()\<rparr> 0"
    using demo_orch_stopping by blast
  have "0 < length (tasks s)" using s(3) by simp
  then have "cancelled (orch s) 0"
    using behavior_stop [OF orch_reach_run [OF s(1)] s(2)] s(4) by blast
  with s(1) show ?thesis by blast
qed

theorem behavior_fail_fast_witness:
  "\<exists>s s'. run orch_step (demo_orch @ [Start]) (orch_start True) = Some s \<and>
     orch_step (RunReturns 1 True) s = Some s' \<and> cancelled (orch s') 0"
proof -
  obtain s s' where s: "run orch_step (demo_orch @ [Start]) (orch_start True) = Some s"
    "orch_step (RunReturns 1 True) s = Some s'" "length (tasks s') = 2" "tasks s' ! 0 = InRun \<lparr>bname = ''a'', body = ()\<rparr> 0"
    using demo_orch_failed by blast
  have "0 < length (tasks s')" using s(3) by simp
  then have "cancelled (orch s') 0"
    using behavior_fail_fast [OF orch_reach_run [OF s(1)] s(2)] s(4) by (simp only: simp_thms if_True) blast
  with s(1,2) show ?thesis by blast
qed

theorem behavior_deadlock_witness:
  "\<exists>s. run orch_step (demo_orch @ [Start, CallMethod 0, StopLocks]) (orch_start True) = Some s \<and>
     (\<forall>s'. (labelled orch_step)\<^sup>*\<^sup>* s s' \<longrightarrow> orch_step StopReturns s' = None)"
proof -
  obtain s where s: "run orch_step (demo_orch @ [Start, CallMethod 0, StopLocks]) (orch_start True) = Some s"
    "holder s" "length (tasks s) = 2" "tasks s ! 0 = InMethod \<lparr>bname = ''a'', body = ()\<rparr> 0"
    using demo_orch_stopping by blast
  have "0 < length (tasks s)" using s(3) by simp
  from behavior_deadlock [OF s(2) this s(4)] s(1) show ?thesis by blast
qed

end
