(* ===== verification/Yumi.thy ===== *)
theory Yumi
  imports Prelude Float64
begin

text \<open>
  \<open>yumi/yumi.go\<close> and the \<open>Process\<close> of \<open>yumi/pipeline.go\<close>: workers take tasks from a closed channel and send the
  results to another, which the caller drains. Task objects come from a \<open>sync.Pool\<close>; one is used in one place
  at a time and every field is set when it is taken, so tasks are values here. What \<open>mapper\<close> may return for an
  input is a parameter; the limiter of the rate package returns an error or not as it likes. An error carries
  where it comes from.
  Lemmas: every task is in one place; what \<open>Process\<close> returns; it never blocks and always ends.
\<close>

section \<open>Configuration\<close>

record config =
  Workers :: int
  RPS :: float64
  Burst :: int
  FailFast :: bool

definition resolveDefaults :: "config \<Rightarrow> config" where
  "resolveDefaults c = c\<lparr>Workers := (if Workers c \<le> 0 then 1 else Workers c), Burst := (if Burst c \<le> 0 then 1 else Burst c)\<rparr>"

text \<open>The limiter is the rate and the burst it was made with.\<close>

record pipeline =
  config_of :: config
  limiter :: "(float64 \<times> int) option"

definition newPipeline :: "config \<Rightarrow> pipeline" where
  "newPipeline cfg =
     (let c = resolveDefaults cfg in
      \<lparr>config_of = c, limiter = (if fless (Fin 0) (RPS c) then Some (RPS c, Burst c) else None)\<rparr>)"

section \<open>Process\<close>

datatype 'e perr = ContextErr | LimiterErr | MapperErr 'e

record ('i, 'o, 'e) ptask =
  idx :: nat
  val :: 'i
  res :: 'o
  err :: "'e perr option"

text \<open>A worker: at the \<open>select\<close>, with a task it took, in the limiter's \<open>Wait\<close>, in \<open>mapper\<close>, or over.\<close>

datatype ('i, 'o, 'e) place = Selecting | HasTask "('i, 'o, 'e) ptask" | Limiting "('i, 'o, 'e) ptask"
  | Mapping "('i, 'o, 'e) ptask" | Exited

text \<open>A returned error: one, or the join of several.\<close>

datatype 'e ret_err = Single "'e perr" | Joined "'e perr list"

record ('i, 'o, 'e) process =
  pipe :: pipeline
  total :: nat
  ctxDone :: bool
  cancelled :: bool
  tasksCh :: "('i, 'o, 'e) ptask list"
  resultsCh :: "('i, 'o, 'e) ptask list"
  resultsClosed :: bool
  workers :: "('i, 'o, 'e) place list"
  outputs :: "'o list"
  collectedErrors :: "'e perr list"
  firstErr :: "'e perr option"
  handled :: "('i, 'o, 'e) ptask list"
  result :: "('e ret_err + 'o list) option"

definition fresh_task :: "nat \<times> 'i \<Rightarrow> ('i, 'o::zero, 'e) ptask" where
  "fresh_task = (\<lambda>(i, v). \<lparr>idx = i, val = v, res = 0, err = None\<rparr>)"

text \<open>The two early returns, or the filled channel and the workers. \<open>handled\<close> is the history of results received.\<close>

definition process_start :: "pipeline \<Rightarrow> bool \<Rightarrow> 'i list \<Rightarrow> ('i, 'o::zero, 'e) process" where
  "process_start p dn inputs =
     \<lparr>pipe = p, total = length inputs, ctxDone = dn, cancelled = False,
      tasksCh = map fresh_task (enumerate 0 inputs), resultsCh = [], resultsClosed = False,
      workers = replicate (nat (min (Workers (config_of p)) (int (length inputs)))) Selecting,
      outputs = replicate (length inputs) 0, collectedErrors = [], firstErr = None, handled = [],
      result = (if inputs = [] then Some (Inr []) else if dn then Some (Inl (Single ContextErr)) else None)\<rparr>"

definition run_done :: "('i, 'o, 'e) process \<Rightarrow> bool" where
  "run_done s \<longleftrightarrow> ctxDone s \<or> cancelled s"

text \<open>Worker \<open>i\<close> sends \<open>t\<close> to the results and goes to \<open>q\<close>; the channel has room for \<open>total\<close> tasks.\<close>

definition send_result :: "nat \<Rightarrow> ('i, 'o, 'e) ptask \<Rightarrow> ('i, 'o, 'e) place \<Rightarrow> ('i, 'o, 'e) process \<Rightarrow> ('i, 'o, 'e) process option" where
  "send_result i t q s =
     (if length (resultsCh s) < total s then Some (s\<lparr>resultsCh := resultsCh s @ [t], workers := (workers s)[i := q]\<rparr>) else None)"

text \<open>The body of the receiving loop.\<close>

definition receive :: "('i, 'o, 'e) ptask \<Rightarrow> ('i, 'o, 'e) process \<Rightarrow> ('i, 'o, 'e) process" where
  "receive t s =
     (case err t of
        Some e \<Rightarrow>
          (if FailFast (config_of (pipe s)) then
             (if firstErr s = None then s\<lparr>firstErr := Some e, cancelled := True\<rparr> else s)
           else s\<lparr>collectedErrors := collectedErrors s @ [e]\<rparr>)
      | None \<Rightarrow> s\<lparr>outputs := (outputs s)[idx t := res t]\<rparr>)"

text \<open>What is returned after the loop.\<close>

definition answer :: "('i, 'o, 'e) process \<Rightarrow> 'e ret_err + 'o list" where
  "answer s =
     (if ctxDone s then Inl (Single ContextErr)
      else (case firstErr s of
        Some e \<Rightarrow> Inl (Single e)
      | None \<Rightarrow> if collectedErrors s \<noteq> [] then Inl (Joined (collectedErrors s)) else Inr (outputs s)))"

datatype ('o, 'e) plabel = SeeDone nat | SeeClosed nat | TakeTask nat | CheckCtx nat | LimiterReturns nat bool
  | MapperReturns nat "'o \<times> 'e option" | CloseResults | Receive | Return | ParentDone

fun worker_step :: "('i \<Rightarrow> 'o \<times> 'e option \<Rightarrow> bool) \<Rightarrow> ('o, 'e) plabel \<Rightarrow> ('i, 'o, 'e) process \<Rightarrow> ('i, 'o, 'e) process option" where
  "worker_step may (SeeDone i) s =
     (if i < length (workers s) \<and> workers s ! i = Selecting \<and> run_done s then Some (s\<lparr>workers := (workers s)[i := Exited]\<rparr>) else None)"
| "worker_step may (SeeClosed i) s =
     (if i < length (workers s) \<and> workers s ! i = Selecting \<and> tasksCh s = [] then Some (s\<lparr>workers := (workers s)[i := Exited]\<rparr>) else None)"
| "worker_step may (TakeTask i) s =
     (if i < length (workers s) \<and> workers s ! i = Selecting then
        (case tasksCh s of [] \<Rightarrow> None | t # ts \<Rightarrow> Some (s\<lparr>tasksCh := ts, workers := (workers s)[i := HasTask t]\<rparr>))
      else None)"
| "worker_step may (CheckCtx i) s =
     (if i < length (workers s) then
        (case workers s ! i of
           HasTask t \<Rightarrow>
             (if run_done s then send_result i (t\<lparr>err := Some ContextErr\<rparr>) Exited s
              else Some (s\<lparr>workers := (workers s)[i := (if limiter (pipe s) \<noteq> None then Limiting t else Mapping t)]\<rparr>))
         | _ \<Rightarrow> None)
      else None)"
| "worker_step may (LimiterReturns i ok) s =
     (if i < length (workers s) then
        (case workers s ! i of
           Limiting t \<Rightarrow>
             (if ok then Some (s\<lparr>workers := (workers s)[i := Mapping t]\<rparr>)
              else send_result i (t\<lparr>err := Some LimiterErr\<rparr>) Selecting s)
         | _ \<Rightarrow> None)
      else None)"
| "worker_step may (MapperReturns i r) s =
     (if i < length (workers s) then
        (case workers s ! i of
           Mapping t \<Rightarrow>
             (if may (val t) r then send_result i (t\<lparr>res := fst r, err := map_option MapperErr (snd r)\<rparr>) Selecting s else None)
         | _ \<Rightarrow> None)
      else None)"
| "worker_step may _ s = None"

fun process_step :: "('i \<Rightarrow> 'o \<times> 'e option \<Rightarrow> bool) \<Rightarrow> ('o, 'e) plabel \<Rightarrow> ('i, 'o, 'e) process \<Rightarrow> ('i, 'o, 'e) process option" where
  "process_step may CloseResults s =
     (if result s = None \<and> \<not> resultsClosed s \<and> list_all (\<lambda>q. q = Exited) (workers s) then Some (s\<lparr>resultsClosed := True\<rparr>) else None)"
| "process_step may Receive s =
     (if result s = None then
        (case resultsCh s of
           [] \<Rightarrow> None
         | t # ts \<Rightarrow> Some (receive t (s\<lparr>resultsCh := ts, handled := handled s @ [t]\<rparr>)))
      else None)"
| "process_step may Return s =
     (if result s = None \<and> resultsClosed s \<and> resultsCh s = [] then Some (s\<lparr>result := Some (answer s)\<rparr>) else None)"
| "process_step may ParentDone s = (if ctxDone s then None else Some (s\<lparr>ctxDone := True\<rparr>))"
| "process_step may l s = (if result s = None then worker_step may l s else None)"

instantiation unit :: zero
begin

definition zero_unit :: unit where
  "zero_unit = ()"

instance ..

end

text \<open>\<open>Map\<close> and \<open>ForEach\<close>: a new pipeline for one \<open>Process\<close>; \<open>ForEach\<close> keeps the error only.\<close>

definition yumi_map :: "config \<Rightarrow> bool \<Rightarrow> 'i list \<Rightarrow> ('i, 'o::zero, 'e) process" where
  "yumi_map cfg dn inputs = process_start (newPipeline cfg) dn inputs"

definition for_each_mapper :: "('i \<Rightarrow> 'e option \<Rightarrow> bool) \<Rightarrow> 'i \<Rightarrow> unit \<times> 'e option \<Rightarrow> bool" where
  "for_each_mapper fn v r = fn v (snd r)"

definition yumi_for_each :: "config \<Rightarrow> bool \<Rightarrow> 'i list \<Rightarrow> ('i, unit, 'e) process" where
  "yumi_for_each cfg dn inputs = process_start (newPipeline cfg) dn inputs"

definition for_each_result :: "'e ret_err + unit list \<Rightarrow> 'e ret_err option" where
  "for_each_result r = (case r of Inl e \<Rightarrow> Some e | Inr _ \<Rightarrow> None)"

abbreviation process_reach :: "('i \<Rightarrow> 'o::zero \<times> 'e option \<Rightarrow> bool) \<Rightarrow> pipeline \<Rightarrow> bool \<Rightarrow> 'i list \<Rightarrow> ('i, 'o, 'e) process \<Rightarrow> bool" where
  "process_reach may p dn inputs \<equiv> reach ((=) (process_start p dn inputs)) (labelled (process_step may))"

lemma process_reach_run:
  "run (process_step may) ls (process_start p dn inputs) = Some s \<Longrightarrow> process_reach may p dn inputs s"
  by (rule reach_run) (auto intro: reach_start)

section \<open>Where the tasks are\<close>

fun held :: "('i, 'o, 'e) place \<Rightarrow> ('i, 'o, 'e) ptask list" where
  "held (HasTask t) = [t]"
| "held (Limiting t) = [t]"
| "held (Mapping t) = [t]"
| "held _ = []"

definition key :: "('i, 'o, 'e) ptask \<Rightarrow> nat \<times> 'i" where
  "key t = (idx t, val t)"

definition keys :: "('i, 'o, 'e) ptask list \<Rightarrow> (nat \<times> 'i) multiset" where
  "keys ts = image_mset key (mset ts)"

definition worker_keys :: "('i, 'o, 'e) place list \<Rightarrow> (nat \<times> 'i) multiset" where
  "worker_keys ws = keys (concat (map held ws))"

definition all_keys :: "('i, 'o, 'e) process \<Rightarrow> (nat \<times> 'i) multiset" where
  "all_keys s = keys (tasksCh s) + worker_keys (workers s) + keys (resultsCh s) + keys (handled s)"

lemma keys_simps [simp]:
  "keys [] = {#}" "keys (t # ts) = add_mset (key t) (keys ts)" "keys (xs @ ys) = keys xs + keys ys"
  by (simp_all add: keys_def)

lemma key_upd [simp]:
  "key (t\<lparr>err := e\<rparr>) = key t" "key (t\<lparr>res := r\<rparr>) = key t" "key (t\<lparr>res := r, err := e\<rparr>) = key t"
  by (simp_all add: key_def)

lemma size_keys: "size (keys ts) = length ts"
  by (simp add: keys_def)

text \<open>What worker \<open>i\<close> holds is exchanged.\<close>

lemma worker_keys_update:
  "i < length ws \<Longrightarrow> worker_keys (ws[i := q]) + keys (held (ws ! i)) = worker_keys ws + keys (held q)"
proof (induction ws arbitrary: i)
  case (Cons w ws)
  then show ?case
  proof (cases i)
    case (Suc j)
    with Cons.prems have "worker_keys (ws[j := q]) + keys (held (ws ! j)) = worker_keys ws + keys (held q)"
      by (intro Cons.IH) simp
    with Suc show ?thesis by (simp add: worker_keys_def add.assoc)
  qed (simp add: worker_keys_def ac_simps)
qed simp

lemma worker_keys_idle: "list_all (\<lambda>q. q = Exited) ws \<Longrightarrow> worker_keys ws = {#}"
  by (induction ws) (auto simp: worker_keys_def)

section \<open>The invariant\<close>

definition errors :: "('i, 'o, 'e) ptask list \<Rightarrow> 'e perr list" where
  "errors ts = List.map_filter err ts"

definition store :: "('i, 'o, 'e) ptask \<Rightarrow> 'o list \<Rightarrow> 'o list" where
  "store t out = (if err t = None then out[idx t := res t] else out)"

text \<open>Why a finished task is as it is.\<close>

definition justified :: "('i \<Rightarrow> 'o \<times> 'e option \<Rightarrow> bool) \<Rightarrow> ('i, 'o, 'e) process \<Rightarrow> ('i, 'o, 'e) ptask \<Rightarrow> bool" where
  "justified may s t \<longleftrightarrow>
     (case err t of
        None \<Rightarrow> may (val t) (res t, None)
      | Some (MapperErr e) \<Rightarrow> may (val t) (res t, Some e)
      | Some LimiterErr \<Rightarrow> limiter (pipe s) \<noteq> None
      | Some ContextErr \<Rightarrow> run_done s)"

definition results_inv :: "('i, 'o::zero, 'e) process \<Rightarrow> bool" where
  "results_inv s \<longleftrightarrow> outputs s = fold store (handled s) (replicate (total s) 0) \<and>
     (if FailFast (config_of (pipe s))
      then collectedErrors s = [] \<and> firstErr s = (case errors (handled s) of [] \<Rightarrow> None | e # _ \<Rightarrow> Some e)
      else collectedErrors s = errors (handled s) \<and> firstErr s = None) \<and>
     (cancelled s \<longleftrightarrow> firstErr s \<noteq> None) \<and> (firstErr s = Some ContextErr \<longrightarrow> ctxDone s)"

fun limited_place :: "pipeline \<Rightarrow> ('i, 'o, 'e) place \<Rightarrow> bool" where
  "limited_place p (Limiting t) \<longleftrightarrow> limiter p \<noteq> None"
| "limited_place p _ \<longleftrightarrow> True"

definition workers_inv :: "('i, 'o, 'e) process \<Rightarrow> bool" where
  "workers_inv s \<longleftrightarrow> (Exited \<in> set (workers s) \<longrightarrow> run_done s \<or> tasksCh s = []) \<and>
     (resultsClosed s \<longrightarrow> list_all (\<lambda>q. q = Exited) (workers s)) \<and>
     list_all (limited_place (pipe s)) (workers s) \<and> (total s \<noteq> 0 \<longrightarrow> workers s \<noteq> [])"

definition process_inv :: "('i \<Rightarrow> 'o::zero \<times> 'e option \<Rightarrow> bool) \<Rightarrow> pipeline \<Rightarrow> 'i list \<Rightarrow> ('i, 'o, 'e) process \<Rightarrow> bool" where
  "process_inv may p inputs s \<longleftrightarrow> pipe s = p \<and> total s = length inputs \<and>
     all_keys s = mset (enumerate 0 inputs) \<and> (\<forall>t \<in> set (resultsCh s @ handled s). justified may s t) \<and>
     results_inv s \<and> workers_inv s"

lemma process_invD:
  assumes "process_inv may p inputs s"
  shows "pipe s = p" "total s = length inputs" "all_keys s = mset (enumerate 0 inputs)"
    "\<And>t. t \<in> set (resultsCh s) \<or> t \<in> set (handled s) \<Longrightarrow> justified may s t" "results_inv s" "workers_inv s"
  using assms unfolding process_inv_def by auto

lemma errors_simps [simp]:
  "errors [] = []" "errors (xs @ ys) = errors xs @ errors ys"
  "errors (t # ts) = (case err t of None \<Rightarrow> errors ts | Some e \<Rightarrow> e # errors ts)"
  by (simp_all add: errors_def map_filter_def split: option.splits)

lemma justified_mono:
  "justified may s t \<Longrightarrow> (run_done s \<Longrightarrow> run_done s') \<Longrightarrow> pipe s' = pipe s \<Longrightarrow> justified may s' t"
  by (auto simp: justified_def split: option.splits perr.splits)

lemma justified_same:
  "pipe s' = pipe s \<Longrightarrow> run_done s' = run_done s \<Longrightarrow> justified may s' = justified may s"
  by (auto simp: justified_def fun_eq_iff split: option.splits perr.splits)

lemma keys_fresh: "keys (map fresh_task vs) = mset vs"
  by (induction vs) (auto simp: key_def fresh_task_def)

lemma worker_keys_start: "worker_keys (replicate n Selecting) = {#}"
  by (induction n) (simp_all add: worker_keys_def)

lemma limited_start: "list_all (limited_place p) (replicate n Selecting)"
  by (induction n) simp_all

lemma newPipeline_workers: "1 \<le> Workers (config_of (newPipeline cfg))"
  by (simp add: newPipeline_def resolveDefaults_def Let_def)

lemma process_inv_start:
  "process_inv may (newPipeline cfg) inputs (process_start (newPipeline cfg) dn inputs)"
proof -
  have "replicate (nat (min (Workers (config_of (newPipeline cfg))) (int (length inputs)))) Selecting \<noteq> []" if "inputs \<noteq> []"
    using newPipeline_workers [of cfg] that by (cases inputs) auto
  then show ?thesis
    by (auto simp: process_inv_def process_start_def all_keys_def keys_fresh worker_keys_start results_inv_def workers_inv_def limited_start)
qed

text \<open>A step of a worker moves it, takes a task, or sends one.\<close>

inductive worker_move :: "('i \<Rightarrow> 'o \<times> 'e option \<Rightarrow> bool) \<Rightarrow> ('i, 'o, 'e) process \<Rightarrow> ('i, 'o, 'e) process \<Rightarrow> bool"
  for may s where
  moves: "i < length (workers s) \<Longrightarrow> workers s ! i \<noteq> Exited \<Longrightarrow> held q = held (workers s ! i) \<Longrightarrow>
    (q = Exited \<Longrightarrow> run_done s \<or> tasksCh s = []) \<Longrightarrow>
    limited_place (pipe s) q \<Longrightarrow> worker_move may s (s\<lparr>workers := (workers s)[i := q]\<rparr>)"
| takes: "i < length (workers s) \<Longrightarrow> workers s ! i = Selecting \<Longrightarrow> tasksCh s = t # ts \<Longrightarrow>
    worker_move may s (s\<lparr>tasksCh := ts, workers := (workers s)[i := HasTask t]\<rparr>)"
| sends: "i < length (workers s) \<Longrightarrow> held (workers s ! i) = [t] \<Longrightarrow> key t' = key t \<Longrightarrow> justified may s t' \<Longrightarrow>
    q = Selecting \<or> q = Exited \<and> run_done s \<Longrightarrow>
    worker_move may s (s\<lparr>resultsCh := resultsCh s @ [t'], workers := (workers s)[i := q]\<rparr>)"

lemma worker_step_move:
  "worker_step may l s = Some s' \<Longrightarrow> list_all (limited_place (pipe s)) (workers s) \<Longrightarrow> worker_move may s s'"
proof (induction may l s rule: worker_step.induct)
  case (4 may i s)
  then obtain t where t: "i < length (workers s)" "workers s ! i = HasTask t"
    by (auto split: if_splits place.splits)
  show ?case
  proof (cases "run_done s")
    case True
    with 4 t have "s' = s\<lparr>resultsCh := resultsCh s @ [t\<lparr>err := Some ContextErr\<rparr>], workers := (workers s)[i := Exited]\<rparr>"
      by (simp add: send_result_def split: if_splits)
    then show ?thesis using sends [of i s t "t\<lparr>err := Some ContextErr\<rparr>" may Exited] t True by (simp add: justified_def)
  next
    case False
    with 4 t show ?thesis using moves [of i s "Limiting t" may] moves [of i s "Mapping t" may] by (auto split: if_splits)
  qed
next
  case (5 may i ok s)
  then obtain t where t: "i < length (workers s)" "workers s ! i = Limiting t"
    by (auto split: if_splits place.splits)
  have "limiter (pipe s) \<noteq> None" using list_all_at [OF 5(2) t(1)] t(2) by simp
  show ?case
  proof (cases ok)
    case False
    with 5 t have "s' = s\<lparr>resultsCh := resultsCh s @ [t\<lparr>err := Some LimiterErr\<rparr>], workers := (workers s)[i := Selecting]\<rparr>"
      by (simp add: send_result_def split: if_splits)
    then show ?thesis using sends [of i s t "t\<lparr>err := Some LimiterErr\<rparr>" may Selecting] t \<open>limiter (pipe s) \<noteq> None\<close>
      by (simp add: justified_def)
  qed (use 5 t moves [of i s "Mapping t" may] in simp)
next
  case (6 may i r s)
  then obtain t where t: "i < length (workers s)" "workers s ! i = Mapping t"
    by (auto split: if_splits place.splits)
  let ?t = "t\<lparr>res := fst r, err := map_option MapperErr (snd r)\<rparr>"
  from 6 t have m: "may (val t) r" and s': "s' = s\<lparr>resultsCh := resultsCh s @ [?t], workers := (workers s)[i := Selecting]\<rparr>"
    by (auto simp: send_result_def split: if_splits)
  from m have "justified may s ?t" by (cases r) (auto simp: justified_def split: option.splits)
  then show ?case unfolding s' using t by (intro sends [of i s t ?t may Selecting]) simp_all
qed (auto split: if_splits list.splits intro: moves takes)

lemma worker_move_frame:
  assumes "worker_move may s s'"
  shows "pipe s' = pipe s" "total s' = total s" "ctxDone s' = ctxDone s" "cancelled s' = cancelled s"
    "handled s' = handled s" "outputs s' = outputs s" "collectedErrors s' = collectedErrors s"
    "firstErr s' = firstErr s" "resultsClosed s' = resultsClosed s" "result s' = result s"
    "length (workers s') = length (workers s)"
  using assms by (cases rule: worker_move.cases; simp)+

lemma worker_move_keys: "worker_move may s s' \<Longrightarrow> all_keys s' = all_keys s"
proof (induction rule: worker_move.induct)
  case (moves i q)
  with worker_keys_update [OF moves(1), of q] show ?case by (simp add: all_keys_def)
next
  case (takes i t ts)
  with worker_keys_update [OF takes(1), of "HasTask t"] show ?case by (simp add: all_keys_def)
next
  case (sends i t t' q)
  then have "held q = []" by auto
  with sends worker_keys_update [OF sends(1), of q] have "worker_keys (workers s) = add_mset (key t) (worker_keys ((workers s)[i := q]))"
    by simp
  with sends(3) show ?case by (simp add: all_keys_def)
qed

lemma worker_move_results:
  "worker_move may s s' \<Longrightarrow> \<forall>t \<in> set (resultsCh s). justified may s t \<Longrightarrow> \<forall>t \<in> set (resultsCh s'). justified may s t"
  by (induction rule: worker_move.induct) auto

lemma set_update_Exited: "Exited \<in> set (ws[i := q]) \<Longrightarrow> Exited \<in> set ws \<or> q = Exited"
  using set_update_subset_insert [of ws i q] by auto

lemma worker_move_workers:
  "worker_move may s s' \<Longrightarrow> workers_inv s \<Longrightarrow> \<not> resultsClosed s \<Longrightarrow> workers_inv s'"
  by (induction rule: worker_move.induct)
    (auto simp: workers_inv_def run_done_def list_all_update dest!: set_update_Exited)

lemma not_closed_yet: "worker_move may s s' \<Longrightarrow> workers_inv s \<Longrightarrow> \<not> resultsClosed s"
  by (induction rule: worker_move.induct) (auto simp: workers_inv_def list_all_length)

lemma receive_frame [simp]:
  "pipe (receive t s) = pipe s" "total (receive t s) = total s" "ctxDone (receive t s) = ctxDone s"
  "handled (receive t s) = handled s" "tasksCh (receive t s) = tasksCh s" "resultsCh (receive t s) = resultsCh s"
  "workers (receive t s) = workers s" "resultsClosed (receive t s) = resultsClosed s" "result (receive t s) = result s"
  "cancelled s \<Longrightarrow> cancelled (receive t s)"
  by (simp_all add: receive_def split: option.splits)

lemma receive_results:
  assumes "results_inv s" and "justified may s t"
  shows "results_inv (receive t (s\<lparr>resultsCh := ts, handled := handled s @ [t]\<rparr>))"
proof (cases "err t")
  case None
  with assms(1) show ?thesis by (auto simp: results_inv_def receive_def store_def split: if_splits)
next
  case (Some e)
  have "ctxDone s" if "e = ContextErr" "\<not> cancelled s"
    using assms(2) that Some by (simp add: justified_def run_done_def)
  with Some assms(1) show ?thesis
    by (auto simp: results_inv_def receive_def store_def split: if_splits list.splits)
qed

lemma process_inv_step:
  assumes I: "process_inv may p inputs s" and st: "process_step may l s = Some s'"
  shows "process_inv may p inputs s'"
proof -
  note I' = process_invD [OF I]
  have worker: "process_inv may p inputs s'" if w: "worker_step may l s = Some s'"
  proof -
    have m: "worker_move may s s'" using w I'(6) by (intro worker_step_move) (auto simp: workers_inv_def)
    note fr = worker_move_frame [OF m]
    have "run_done s' = run_done s" using fr by (simp add: run_done_def)
    then have "justified may s' t" if "justified may s t" for t using justified_mono [OF that] fr(1) by simp
    moreover have "\<forall>t \<in> set (resultsCh s'). justified may s t" using worker_move_results [OF m] I'(4) by blast
    ultimately have "\<forall>t \<in> set (resultsCh s' @ handled s'). justified may s' t" using I'(4) fr(5) by auto
    moreover have "results_inv s'" using I'(5) fr by (simp add: results_inv_def)
    moreover have "workers_inv s'" using worker_move_workers [OF m I'(6) not_closed_yet [OF m I'(6)]] .
    ultimately show ?thesis using I' fr worker_move_keys [OF m] by (simp add: process_inv_def)
  qed
  show ?thesis
  proof (cases l)
    case CloseResults
    with st have s': "s' = s\<lparr>resultsClosed := True\<rparr>" and e: "list_all (\<lambda>q. q = Exited) (workers s)"
      by (auto split: if_splits)
    have "justified may s' = justified may s" by (rule justified_same) (simp_all add: s' run_done_def)
    moreover have "results_inv s'" using I'(5) by (simp add: s' results_inv_def)
    moreover have "workers_inv s'" using I'(6) e by (simp add: s' workers_inv_def run_done_def)
    moreover have "all_keys s' = all_keys s" by (simp add: s' all_keys_def)
    ultimately show ?thesis using I' by (simp add: process_inv_def) (simp add: s')
  next
    case Receive
    with st obtain t ts where t: "resultsCh s = t # ts"
      and s': "s' = receive t (s\<lparr>resultsCh := ts, handled := handled s @ [t]\<rparr>)"
      by (auto split: if_splits list.splits)
    have j: "justified may s t" using I'(4) t by simp
    have rd: "run_done s'" if "run_done s" using that by (auto simp: s' run_done_def)
    have "\<forall>u \<in> set (resultsCh s' @ handled s'). justified may s' u"
      using I'(4) t justified_mono [where s = s and s' = s', OF _ rd] by (auto simp: s')
    moreover have "all_keys s' = all_keys s" by (simp add: s' t all_keys_def)
    moreover have "results_inv s'" unfolding s' by (rule receive_results [OF I'(5) j])
    moreover have "workers_inv s'" using I'(6) rd by (auto simp: workers_inv_def s')
    ultimately show ?thesis using I' by (simp add: process_inv_def) (simp add: s')
  next
    case Return
    with st have s': "s' = s\<lparr>result := Some (answer s)\<rparr>" by (simp split: if_splits)
    have "justified may s' = justified may s" by (rule justified_same) (simp_all add: s' run_done_def)
    moreover have "results_inv s'" using I'(5) by (simp add: s' results_inv_def)
    moreover have "workers_inv s'" using I'(6) by (simp add: s' workers_inv_def run_done_def)
    moreover have "all_keys s' = all_keys s" by (simp add: s' all_keys_def)
    ultimately show ?thesis using I' by (simp add: process_inv_def) (simp add: s')
  next
    case ParentDone
    with st have s': "s' = s\<lparr>ctxDone := True\<rparr>" by (simp split: if_splits)
    have "\<forall>u \<in> set (resultsCh s' @ handled s'). justified may s' u"
      using I'(4) justified_mono [where s = s and s' = s'] by (auto simp: s' run_done_def)
    moreover have "results_inv s'" using I'(5) by (simp add: s' results_inv_def)
    moreover have "workers_inv s'" using I'(6) by (simp add: s' workers_inv_def run_done_def)
    moreover have "all_keys s' = all_keys s" by (simp add: s' all_keys_def)
    ultimately show ?thesis using I' by (simp add: process_inv_def) (simp add: s')
  qed (use st worker in \<open>auto split: if_splits\<close>)
qed

interpretation process: inductive_invariant "(=) (process_start (newPipeline cfg) dn inputs)" "labelled (process_step may)"
    "process_inv may (newPipeline cfg) inputs" for cfg dn inputs and may :: "'i \<Rightarrow> 'o::zero \<times> 'e option \<Rightarrow> bool"
proof
  show "process_inv may (newPipeline cfg) inputs s" if "process_start (newPipeline cfg) dn inputs = s" for s :: "('i, 'o, 'e) process"
    using that process_inv_start by blast
  show "process_inv may (newPipeline cfg) inputs t" if "process_inv may (newPipeline cfg) inputs s" and "labelled (process_step may) s t"
    for s t :: "('i, 'o, 'e) process"
    using that process_inv_step unfolding labelled_def by blast
qed

lemma process_reach_inv: "process_reach may (newPipeline cfg) dn inputs s \<Longrightarrow> process_inv may (newPipeline cfg) inputs s"
  by (rule process.inv_reachable)

section \<open>What is returned\<close>

lemma keys_idx:
  assumes "keys ts = mset (enumerate 0 inputs)"
  shows "distinct (map idx ts)" and "length ts = length inputs" and "mset (map val ts) = mset inputs"
proof -
  have "image_mset fst (keys ts) = mset (map fst (enumerate 0 inputs))" by (simp only: assms mset_map)
  then have "mset (map idx ts) = mset [0 ..< length inputs]"
    by (simp add: keys_def key_def image_mset.compositionality comp_def)
  then show "distinct (map idx ts)" by (metis distinct_upt mset_eq_imp_distinct_iff)
  have "size (keys ts) = length inputs" by (simp only: assms size_mset length_enumerate)
  then show "length ts = length inputs" by (simp add: size_keys)
  have "image_mset snd (keys ts) = mset (map snd (enumerate 0 inputs))" by (simp only: assms mset_map)
  then show "mset (map val ts) = mset inputs"
    by (simp add: keys_def key_def image_mset.compositionality comp_def)
qed

lemma key_enumerate: "key t \<in> set (enumerate 0 inputs) \<Longrightarrow> val t \<in> set inputs"
  by (auto simp: key_def in_set_enumerate_eq dest: nth_mem)

lemma keys_mem:
  assumes "keys ts = mset (enumerate 0 inputs)"
  shows "i < length inputs \<Longrightarrow> \<exists>t \<in> set ts. idx t = i \<and> val t = inputs ! i"
    and "t \<in> set ts \<Longrightarrow> val t \<in> set inputs"
proof -
  have s: "key ` set ts = set (enumerate 0 inputs)" using arg_cong [OF assms, of set_mset] by (simp add: keys_def)
  show "\<exists>t \<in> set ts. idx t = i \<and> val t = inputs ! i" if "i < length inputs"
  proof -
    have "(i, inputs ! i) \<in> set (enumerate 0 inputs)" using that by (simp add: in_set_enumerate_eq)
    then have "(i, inputs ! i) \<in> key ` set ts" by (simp only: s)
    then show ?thesis by (auto simp: key_def)
  qed
  show "val t \<in> set inputs" if "t \<in> set ts"
  proof -
    have "key t \<in> set (enumerate 0 inputs)" using that s by blast
    then show ?thesis by (rule key_enumerate)
  qed
qed

lemma length_fold_store [simp]: "length (fold store ts out) = length out"
  by (induction ts arbitrary: out) (simp_all add: store_def)

lemma fold_store_other: "i \<notin> set (map idx ts) \<Longrightarrow> fold store ts out ! i = out ! i"
  by (induction ts arbitrary: out) (simp_all add: store_def)

lemma fold_store_nth:
  "distinct (map idx ts) \<Longrightarrow> t \<in> set ts \<Longrightarrow> err t = None \<Longrightarrow> idx t < length out \<Longrightarrow> fold store ts out ! idx t = res t"
proof (induction ts arbitrary: out)
  case (Cons u ts)
  show ?case
  proof (cases "u = t")
    case True
    with Cons.prems have "idx t \<notin> set (map idx ts)" by auto
    then have "fold store ts (store t out) ! idx t = store t out ! idx t" by (rule fold_store_other)
    moreover have "store t out ! idx t = res t" using Cons.prems(3,4) by (simp add: store_def)
    ultimately show ?thesis using True by simp
  next
    case False
    moreover have "length (store u out) = length out" by (simp add: store_def)
    ultimately show ?thesis using Cons.IH [of "store u out"] Cons.prems by simp
  qed
qed simp

lemma errors_nil: "errors ts = [] \<Longrightarrow> t \<in> set ts \<Longrightarrow> err t = None"
  by (induction ts) (auto split: option.splits)

lemma errors_mem: "e \<in> set (errors ts) \<Longrightarrow> \<exists>t \<in> set ts. err t = Some e"
  by (induction ts) (auto split: option.splits)

text \<open>
  The values \<open>Process\<close> may return: every output is one \<open>mapper\<close> returned for the input at its index; the
  context's error only when it is done; under fail-fast the error of one input; else the errors of
  all of them.
\<close>

fun task_err_ok :: "('i \<Rightarrow> 'o \<times> 'e option \<Rightarrow> bool) \<Rightarrow> pipeline \<Rightarrow> ('i, 'o, 'e) ptask \<Rightarrow> 'e perr \<Rightarrow> bool" where
  "task_err_ok may p t (MapperErr e) \<longleftrightarrow> may (val t) (res t, Some e)"
| "task_err_ok may p t LimiterErr \<longleftrightarrow> limiter p \<noteq> None"
| "task_err_ok may p t ContextErr \<longleftrightarrow> False"

definition task_ok :: "('i \<Rightarrow> 'o \<times> 'e option \<Rightarrow> bool) \<Rightarrow> pipeline \<Rightarrow> ('i, 'o, 'e) ptask \<Rightarrow> bool" where
  "task_ok may p t \<longleftrightarrow> (case err t of None \<Rightarrow> may (val t) (res t, None) | Some e \<Rightarrow> task_err_ok may p t e)"

fun answer_ok :: "('i \<Rightarrow> 'o \<times> 'e option \<Rightarrow> bool) \<Rightarrow> pipeline \<Rightarrow> 'i list \<Rightarrow> bool \<Rightarrow> 'e ret_err + 'o list \<Rightarrow> bool" where
  "answer_ok may p inputs dn (Inr outs) \<longleftrightarrow>
     length outs = length inputs \<and> (\<forall>i < length inputs. may (inputs ! i) (outs ! i, None))"
| "answer_ok may p inputs dn (Inl (Single e)) \<longleftrightarrow>
     e = ContextErr \<and> dn \<or> FailFast (config_of p) \<and> (\<exists>t. val t \<in> set inputs \<and> task_err_ok may p t e)"
| "answer_ok may p inputs dn (Inl (Joined es)) \<longleftrightarrow>
     \<not> FailFast (config_of p) \<and> es \<noteq> [] \<and>
     (\<exists>ts. keys ts = mset (enumerate 0 inputs) \<and> (\<forall>t \<in> set ts. task_ok may p t) \<and> es = errors ts)"

lemma justified_ok: "justified may s t \<Longrightarrow> \<not> run_done s \<Longrightarrow> pipe s = p \<Longrightarrow> task_ok may p t"
  by (auto simp: justified_def task_ok_def split: option.splits perr.splits)

lemma justified_err_ok: "justified may s t \<Longrightarrow> err t = Some e \<Longrightarrow> e \<noteq> ContextErr \<Longrightarrow> pipe s = p \<Longrightarrow> task_err_ok may p t e"
  by (cases e) (auto simp: justified_def)

lemma handled_all:
  assumes I: "process_inv may p inputs s" and "resultsClosed s" and "resultsCh s = []" and "\<not> run_done s" and "inputs \<noteq> []"
  shows "keys (handled s) = mset (enumerate 0 inputs)"
proof -
  note I' = process_invD [OF I]
  have e: "list_all (\<lambda>q. q = Exited) (workers s)" and "workers s \<noteq> []"
    using I'(2,6) assms(2,5) by (auto simp: workers_inv_def)
  then have "Exited \<in> set (workers s)" by (cases "workers s") auto
  with I'(6) assms(4) have "tasksCh s = []" by (simp add: workers_inv_def)
  with I'(3) assms(3) worker_keys_idle [OF e] show ?thesis by (simp add: all_keys_def)
qed

lemma answer_answer_ok:
  assumes I: "process_inv may p inputs s" and cl: "resultsClosed s" "resultsCh s = []" and ne: "inputs \<noteq> []"
  shows "answer_ok may p inputs (ctxDone s) (answer s)"
proof -
  note I' = process_invD [OF I]
  note R = I'(5) [unfolded results_inv_def I'(1,2)]
  have f: "firstErr s = (if FailFast (config_of p) then (case errors (handled s) of [] \<Rightarrow> None | e # _ \<Rightarrow> Some e) else None)"
    and c: "collectedErrors s = (if FailFast (config_of p) then [] else errors (handled s))" using R by (auto split: if_splits)
  show ?thesis
  proof (cases "ctxDone s")
    case False
    show ?thesis
    proof (cases "firstErr s")
      case (Some e)
      have ff: "FailFast (config_of p)" and "e \<in> set (errors (handled s))" using f Some by (auto split: if_splits list.splits)
      then obtain t where t: "t \<in> set (handled s)" "err t = Some e" using errors_mem by blast
      have "e \<noteq> ContextErr" using R Some False by auto
      then have "task_err_ok may p t e" using justified_err_ok [OF I'(4) t(2)] t(1) I'(1) by blast
      moreover have "key t \<in># all_keys s"
        using t(1) by (simp add: all_keys_def keys_def)
      then have "key t \<in> set (enumerate 0 inputs)" using I'(3) by simp
      then have "val t \<in> set inputs" by (rule key_enumerate)
      ultimately show ?thesis using Some False ff by (auto simp: answer_def)
    next
      case None
      then have nr: "\<not> run_done s" using R False by (simp add: run_done_def)
      have k: "keys (handled s) = mset (enumerate 0 inputs)" by (rule handled_all [OF I cl nr ne])
      have ok: "task_ok may p t" if "t \<in> set (handled s)" for t using justified_ok [OF I'(4) nr I'(1)] that by blast
      show ?thesis
      proof (cases "collectedErrors s = []")
        case False
        with c have "\<not> FailFast (config_of p)" "collectedErrors s = errors (handled s)" by (auto split: if_splits)
        with False \<open>\<not> ctxDone s\<close> None k ok show ?thesis by (auto simp: answer_def)
      next
        case True
        with c f None have e: "errors (handled s) = []" by (auto split: if_splits list.splits)
        have "may (inputs ! i) (outputs s ! i, None)" if i: "i < length inputs" for i
        proof -
          obtain t where t: "t \<in> set (handled s)" "idx t = i" "val t = inputs ! i" using keys_mem(1) [OF k i] by blast
          have n: "err t = None" using errors_nil [OF e t(1)] .
          have "outputs s ! i = res t"
            using fold_store_nth [OF keys_idx(1) [OF k] t(1) n] t(2) i R by simp
          with ok [OF t(1)] n t(3) show ?thesis by (simp add: task_ok_def)
        qed
        with \<open>\<not> ctxDone s\<close> None True R show ?thesis by (simp add: answer_def)
      qed
    qed
  qed (simp add: answer_def)
qed

lemma answer_ok_done: "answer_ok may p inputs dn r \<Longrightarrow> dn \<longrightarrow> dn' \<Longrightarrow> answer_ok may p inputs dn' r"
  by (cases r; cases "projl r") auto

definition returned_inv :: "('i \<Rightarrow> 'o::zero \<times> 'e option \<Rightarrow> bool) \<Rightarrow> pipeline \<Rightarrow> 'i list \<Rightarrow> ('i, 'o, 'e) process \<Rightarrow> bool" where
  "returned_inv may p inputs s \<longleftrightarrow> process_inv may p inputs s \<and> (result s = None \<longrightarrow> inputs \<noteq> []) \<and>
     (\<forall>r. result s = Some r \<longrightarrow> answer_ok may p inputs (ctxDone s) r)"

lemma step_result:
  assumes "process_step may l s = Some s'" and "result s' \<noteq> result s"
  shows "l = Return \<and> result s = None \<and> resultsClosed s \<and> resultsCh s = [] \<and> result s' = Some (answer s) \<and> ctxDone s' = ctxDone s"
proof (cases l)
  case Return
  with assms show ?thesis by (auto split: if_splits)
qed (use assms in \<open>auto simp: send_result_def split: if_splits list.splits place.splits\<close>)

lemma step_done: "process_step may l s = Some s' \<Longrightarrow> ctxDone s \<longrightarrow> ctxDone s'"
  by (cases l) (auto simp: send_result_def split: if_splits list.splits place.splits)

lemma returned_inv_step:
  assumes I: "returned_inv may p inputs s" and st: "process_step may l s = Some s'"
  shows "returned_inv may p inputs s'"
proof -
  have P: "process_inv may p inputs s" using I by (simp add: returned_inv_def)
  have P': "process_inv may p inputs s'" by (rule process_inv_step [OF P st])
  show ?thesis
  proof (cases "result s' = result s")
    case True
    with I P' show ?thesis using answer_ok_done [OF _ step_done [OF st]] by (auto simp: returned_inv_def)
  next
    case False
    note r = step_result [OF st False]
    then have "inputs \<noteq> []" using I by (simp add: returned_inv_def)
    with r P P' show ?thesis using answer_answer_ok [of may p inputs s] by (simp add: returned_inv_def)
  qed
qed

interpretation returned: inductive_invariant "(=) (process_start (newPipeline cfg) dn inputs)" "labelled (process_step may)"
    "returned_inv may (newPipeline cfg) inputs" for cfg dn inputs and may :: "'i \<Rightarrow> 'o::zero \<times> 'e option \<Rightarrow> bool"
proof
  show "returned_inv may (newPipeline cfg) inputs s" if "process_start (newPipeline cfg) dn inputs = s" for s :: "('i, 'o, 'e) process"
    using that process_inv_start [of may cfg inputs dn] by (auto simp: returned_inv_def process_start_def split: if_splits)
  show "returned_inv may (newPipeline cfg) inputs t" if "returned_inv may (newPipeline cfg) inputs s" and "labelled (process_step may) s t"
    for s t :: "('i, 'o, 'e) process"
    using that returned_inv_step unfolding labelled_def by blast
qed

lemma process_reach_returned: "process_reach may (newPipeline cfg) dn inputs s \<Longrightarrow> returned_inv may (newPipeline cfg) inputs s"
  by (rule returned.inv_reachable)

section \<open>The sequential reference\<close>

text \<open>The outputs and the errors of calling \<open>f\<close> on one input after the other.\<close>

fun sequential :: "('i \<Rightarrow> 'o \<times> 'e option) \<Rightarrow> 'i list \<Rightarrow> 'o list \<times> 'e list" where
  "sequential f [] = ([], [])"
| "sequential f (v # vs) =
     (case sequential f vs of (outs, es) \<Rightarrow> (case f v of (r, None) \<Rightarrow> (r # outs, es) | (r, Some e) \<Rightarrow> (outs, e # es)))"

definition seq_errors :: "('i \<Rightarrow> 'o \<times> 'e option) \<Rightarrow> 'i list \<Rightarrow> 'e list" where
  "seq_errors f vs = List.map_filter (\<lambda>v. snd (f v)) vs"

lemma sequential_errors: "snd (sequential f vs) = seq_errors f vs"
  by (induction vs) (auto simp: seq_errors_def map_filter_def split: prod.splits option.splits)

lemma seq_errors_mem: "e \<in> set (seq_errors f vs) \<longleftrightarrow> (\<exists>v \<in> set vs. snd (f v) = Some e)"
  by (induction vs) (auto simp: seq_errors_def map_filter_def split: option.splits)

lemma seq_errors_mset: "mset vs = mset ws \<Longrightarrow> mset (seq_errors f vs) = mset (seq_errors f ws)"
  by (simp add: seq_errors_def map_filter_def)

lemma sequential_ok:
  "length outs = length vs \<Longrightarrow> \<forall>i < length vs. f (vs ! i) = (outs ! i, None) \<Longrightarrow> sequential f vs = (outs, [])"
proof (induction vs arbitrary: outs)
  case (Cons v vs)
  then obtain r rs where o: "outs = r # rs" by (cases outs) auto
  have "sequential f vs = (rs, [])" using Cons.prems o by (intro Cons.IH) (auto simp: All_less_Suc2)
  moreover have "f v = (r, None)" using Cons.prems(2) o by (auto simp: All_less_Suc2)
  ultimately show ?case using o by simp
qed simp

lemma task_errors:
  assumes "\<forall>t \<in> set ts. task_ok (\<lambda>v r. r = f v) p t" and "limiter p = None"
  shows "errors ts = map MapperErr (seq_errors f (map val ts))"
  using assms(1)
proof (induction ts)
  case (Cons t ts)
  have "task_ok (\<lambda>v r. r = f v) p t" using Cons.prems by simp
  then have "err t = map_option MapperErr (snd (f (val t)))"
    using assms(2) by (cases "f (val t)") (auto simp: task_ok_def split: option.splits elim!: task_err_ok.elims)
  with Cons show ?case by (auto simp: seq_errors_def map_filter_def split: option.splits)
qed (simp add: seq_errors_def map_filter_def)

section \<open>Properties\<close>

text \<open>
  C14 (functional): what \<open>Process\<close> returned, under any interleaving and any behaviour of the mapper and the
  limiter: without an error, each output is one the mapper returned for the input at the same index; the
  context's error only when it is done; under fail-fast one error of an input; else the errors of all
  inputs, each handled exactly once.
\<close>

theorem process_returns:
  assumes "process_reach may (newPipeline cfg) dn inputs s" and "result s = Some r"
  shows "answer_ok may (newPipeline cfg) inputs (ctxDone s) r"
  using process_reach_returned [OF assms(1)] assms(2) by (simp add: returned_inv_def)

text \<open>
  C16 (equivalence): without a rate limit, and unless the context ends, \<open>Process\<close> is a sequential loop over the
  inputs: the same outputs in the same order when no call fails; under fail-fast the error of one of
  the calls that fail; else exactly their errors, in some order.
\<close>

theorem process_sequential:
  assumes "process_reach (\<lambda>v r. r = f v) (newPipeline cfg) dn inputs s" and "result s = Some r"
    and "\<not> fless (Fin 0) (RPS cfg)" and "\<not> ctxDone s"
  shows "case sequential f inputs of (outs, es) \<Rightarrow>
    if es = [] then r = Inr outs
    else if FailFast cfg then \<exists>e \<in> set es. r = Inl (Single (MapperErr e))
    else \<exists>es'. mset es' = mset es \<and> r = Inl (Joined (map MapperErr es'))"
proof -
  let ?p = "newPipeline cfg"
  have lim: "limiter ?p = None" and ff: "FailFast (config_of ?p) = FailFast cfg"
    using assms(3) by (simp_all add: newPipeline_def resolveDefaults_def Let_def)
  have ok: "answer_ok (\<lambda>v r. r = f v) ?p inputs False r"
    using process_reach_returned [OF assms(1)] assms(2,4) by (simp add: returned_inv_def)
  obtain outs es where sq: "sequential f inputs = (outs, es)" by fastforce
  have es: "es = seq_errors f inputs" using sequential_errors [of f inputs] sq by simp
  show ?thesis
  proof (cases r)
    case (Inr outs')
    with ok have "sequential f inputs = (outs', [])" by (intro sequential_ok) auto
    with sq Inr show ?thesis by simp
  next
    case (Inl a)
    show ?thesis
    proof (cases a)
      case (Single e)
      with ok Inl have F: "FailFast cfg" and "\<exists>t. val t \<in> set inputs \<and> task_err_ok (\<lambda>v r. r = f v) ?p t e"
        using ff by auto
      then obtain t where t: "val t \<in> set inputs" "task_err_ok (\<lambda>v r. r = f v) ?p t e" by blast
      with lim obtain x where "e = MapperErr x" "snd (f (val t)) = Some x"
        by (cases e) (auto intro: arg_cong [where f = snd] dest!: sym [of "(_, _)"])
      moreover then have "x \<in> set es" using t(1) unfolding es seq_errors_mem by blast
      ultimately show ?thesis using sq Inl Single F by auto
    next
      case (Joined js)
      with ok Inl ff obtain ts where F: "\<not> FailFast cfg" "js \<noteq> []" and k: "keys ts = mset (enumerate 0 inputs)"
        and T: "\<forall>t \<in> set ts. task_ok (\<lambda>v r. r = f v) ?p t" and js: "js = errors ts"
        by auto
      have j: "js = map MapperErr (seq_errors f (map val ts))" using js task_errors [OF T lim] by simp
      moreover have m: "mset (seq_errors f (map val ts)) = mset es"
        unfolding es by (rule seq_errors_mset) (rule keys_idx(3) [OF k])
      moreover have "es \<noteq> []" using F(2) j m by auto
      ultimately show ?thesis using sq Inl Joined F(1) by auto
    qed
  qed
qed

section \<open>Progress and termination\<close>








text \<open>
  until \<open>Process\<close> returns there is always a step to take other than the context's end, provided
  that the mapper returns; and a worker that has a task can always send it.
\<close>

theorem process_progress:
  assumes "process_reach may (newPipeline cfg) dn inputs s" and "result s = None" and "\<And>v. \<exists>r. may v r"
  shows "(\<exists>l. l \<noteq> ParentDone \<and> process_step may l s \<noteq> None) \<and>
    (\<forall>q \<in> set (workers s). held q \<noteq> [] \<longrightarrow> length (resultsCh s) < total s)"
proof -
  note I = process_reach_inv [OF assms(1)]
  note I' = process_invD [OF I]
  have room: "length (resultsCh s) < total s" if i: "i < length (workers s)" and h: "held (workers s ! i) = [t]" for i t
  proof -
    have "size (all_keys s) = length inputs" by (simp only: I'(3) size_mset length_enumerate)
    moreover have "size (worker_keys (workers s)) > 0"
      using worker_keys_update [OF i, of Exited] h by (cases "worker_keys (workers s)") auto
    ultimately show ?thesis using I'(2) by (simp add: all_keys_def size_keys)
  qed
  have sends: "\<forall>q \<in> set (workers s). held q \<noteq> [] \<longrightarrow> length (resultsCh s) < total s"
  proof (intro ballI impI)
    fix q assume "q \<in> set (workers s)" and h: "held q \<noteq> []"
    then obtain i where "i < length (workers s)" "workers s ! i = q" by (auto simp: in_set_conv_nth)
    with h room show "length (resultsCh s) < total s" by (cases q) auto
  qed
  have "\<exists>l. l \<noteq> ParentDone \<and> process_step may l s \<noteq> None"
  proof (cases "resultsCh s = [] \<and> \<not> resultsClosed s \<and> \<not> list_all (\<lambda>q. q = Exited) (workers s)")
    case False
    then consider "resultsCh s \<noteq> []" | "resultsCh s = []" "resultsClosed s"
      | "\<not> resultsClosed s" "list_all (\<lambda>q. q = Exited) (workers s)" by blast
    then show ?thesis
    proof cases
      case 1
      then have "process_step may Receive s \<noteq> None" using assms(2) by (auto split: list.splits)
      then show ?thesis by blast
    next
      case 2
      then have "process_step may Return s \<noteq> None" using assms(2) by simp
      then show ?thesis by blast
    next
      case 3
      then have "process_step may CloseResults s \<noteq> None" using assms(2) by simp
      then show ?thesis by blast
    qed
  next
    case True
    then obtain i where i: "i < length (workers s)" "workers s ! i \<noteq> Exited" by (auto simp: list_all_length)
    show ?thesis
    proof (cases "workers s ! i")
      case Selecting
      with i assms(2) have "process_step may (SeeClosed i) s \<noteq> None \<or> process_step may (TakeTask i) s \<noteq> None"
        by (auto split: list.splits)
      then show ?thesis by blast
    next
      case (HasTask t)
      with i assms(2) room [OF i(1), of t] have "process_step may (CheckCtx i) s \<noteq> None" by (simp add: send_result_def)
      then show ?thesis by blast
    next
      case (Limiting t)
      with i assms(2) have "process_step may (LimiterReturns i True) s \<noteq> None" by simp
      then show ?thesis by blast
    next
      case (Mapping t)
      obtain r where "may (val t) r" using assms(3) by blast
      with Mapping i assms(2) room [OF i(1), of t] have "process_step may (MapperReturns i r) s \<noteq> None" by (simp add: send_result_def)
      then show ?thesis by blast
    qed (use i in simp)
  qed
  with sends show ?thesis by blast
qed

section \<open>Concrete runs\<close>

definition demo_pipe :: "bool \<Rightarrow> config" where
  "demo_pipe ff = \<lparr>Workers = 2, RPS = Fin 0, Burst = 0, FailFast = ff\<rparr>"

text \<open>Doubling, which fails at 7.\<close>

definition demo_double :: "nat \<Rightarrow> nat \<times> string option" where
  "demo_double v = (if v = 7 then (0, Some ''seven'') else (2 * v, None))"

definition demo_schedule :: "(nat, string) plabel list" where
  "demo_schedule = [TakeTask 0, TakeTask 1, CheckCtx 1, CheckCtx 0, MapperReturns 1 (demo_double 5), MapperReturns 0 (demo_double 3),
     SeeClosed 0, Receive, SeeClosed 1, Receive, CloseResults, Return]"

definition demo_failing :: "(nat, string) plabel list" where
  "demo_failing = [TakeTask 0, TakeTask 1, CheckCtx 1, CheckCtx 0, MapperReturns 1 (demo_double 7), MapperReturns 0 (demo_double 3),
     SeeClosed 0, Receive, SeeClosed 1, Receive, CloseResults, Return]"

lemmas demo_defs = demo_pipe_def demo_double_def demo_schedule_def demo_failing_def process_start_def newPipeline_def
  resolveDefaults_def fresh_task_def send_result_def receive_def answer_def run_done_def

lemma demo_ok:
  "\<exists>s. run (process_step (\<lambda>v r. r = demo_double v)) demo_schedule (process_start (newPipeline (demo_pipe False)) False [3, 5]) = Some s \<and>
    result s = Some (Inr [6, 10]) \<and> \<not> ctxDone s"
  by (simp add: demo_defs Let_def numeral_2_eq_2)

lemma demo_fails:
  "\<exists>s. run (process_step (\<lambda>v r. r = demo_double v)) demo_failing (process_start (newPipeline (demo_pipe True)) False [3, 7]) = Some s \<and>
    result s = Some (Inl (Single (MapperErr ''seven''))) \<and> \<not> ctxDone s"
  by (simp add: demo_defs Let_def numeral_2_eq_2)

theorem process_returns_witness:
  "\<exists>s. run (process_step (\<lambda>v r. r = demo_double v)) demo_failing (process_start (newPipeline (demo_pipe True)) False [3, 7]) = Some s \<and>
     answer_ok (\<lambda>v r. r = demo_double v) (newPipeline (demo_pipe True)) [3, 7] False (Inl (Single (MapperErr ''seven'')))"
proof -
  obtain s where s: "run (process_step (\<lambda>v r. r = demo_double v)) demo_failing (process_start (newPipeline (demo_pipe True)) False [3, 7]) = Some s"
    "result s = Some (Inl (Single (MapperErr ''seven'')))" "\<not> ctxDone s" using demo_fails by blast
  show ?thesis using process_returns [OF process_reach_run [OF s(1)] s(2)] s(1,3) by (simp only: simp_thms) blast
qed

theorem process_sequential_witness:
  "\<exists>s. run (process_step (\<lambda>v r. r = demo_double v)) demo_schedule (process_start (newPipeline (demo_pipe False)) False [3, 5]) = Some s \<and>
     result s = Some (Inr (fst (sequential demo_double [3, 5])))"
proof -
  obtain s where s: "run (process_step (\<lambda>v r. r = demo_double v)) demo_schedule (process_start (newPipeline (demo_pipe False)) False [3, 5]) = Some s"
    "result s = Some (Inr [6, 10])" "\<not> ctxDone s" using demo_ok by blast
  have "\<not> fless (Fin 0) (RPS (demo_pipe False))" by (simp add: demo_pipe_def)
  from process_sequential [OF process_reach_run [OF s(1)] s(2) this s(3)]
  have "(Inr [6, 10] :: string ret_err + nat list) = Inr (fst (sequential demo_double [3, 5]))"
    by (simp add: demo_double_def)
  with s(1,2) show ?thesis by (intro exI [of _ s]) simp
qed


theorem process_progress_witness:
  "\<exists>l. process_step (\<lambda>v r. r = demo_double v) l (process_start (newPipeline (demo_pipe False)) False [3, 5]) \<noteq> None"
proof -
  have "result (process_start (newPipeline (demo_pipe False)) False [3, 5] :: (nat, nat, string) process) = None"
    by (simp add: process_start_def)
  from process_progress [OF reach_start this, of "\<lambda>v r. r = demo_double v"] show ?thesis by blast
qed

end
