(* ===== verification/YumiStream.thy ===== *)
theory YumiStream
  imports Yumi
begin

text \<open>
  \<open>Stream\<close> of \<open>yumi/pipeline.go\<close>: workers receive from the caller's channel until it is closed or the context is
  done, send the results to \<open>out\<close> and try to send the errors to \<open>errs\<close>, both buffered with the number of
  workers. The caller offers items, closes its channel and reads the two channels when it likes.
  \<open>hist\<close> is the history of what became of each item.
  Lemmas: every item taken has one fate; when the channels are closed; which errors get lost.
\<close>

section \<open>The system\<close>

text \<open>
  A worker: at the \<open>select\<close>, in the limiter's \<open>Wait\<close>, in \<open>mapper\<close>, before the send of an error, before
  \<open>errOnce.Do\<close>, at the \<open>select\<close> that sends a result, or over.
\<close>

datatype ('i, 'o, 'e) splace = SSelecting | SLimiting 'i | SMapping 'i | SErr 'i "'e perr" | SOnce "'e perr"
  | SSending 'i 'o | SExited

datatype ('o, 'e) fate = Sent 'o | Discarded 'o | ErrSent "'e perr" | ErrDropped "'e perr"

text \<open>The first goroutine: in \<open>wg.Wait\<close>, and after each of its three deferred calls.\<close>

datatype phase = WaitGroup | CtxCancelled | ErrsClosed | OutClosed

record ('i, 'o, 'e) stream =
  spipe :: pipeline
  inp :: "'i list"
  inClosed :: bool
  sDone :: bool
  sCancelled :: bool
  sworkers :: "('i, 'o, 'e) splace list"
  outCh :: "'o list"
  errsCh :: "'e perr list"
  onceDone :: bool
  phase :: phase
  taken :: "'i list"
  yielded :: "'o list"
  reported :: "'e perr list"
  hist :: "('i \<times> ('o, 'e) fate) list"

definition capacity :: "('i, 'o, 'e) stream \<Rightarrow> nat" where
  "capacity s = nat (Workers (config_of (spipe s)))"

definition stream_start :: "pipeline \<Rightarrow> bool \<Rightarrow> ('i, 'o, 'e) stream" where
  "stream_start p dn =
     \<lparr>spipe = p, inp = [], inClosed = False, sDone = dn, sCancelled = False,
      sworkers = replicate (nat (Workers (config_of p))) SSelecting, outCh = [], errsCh = [], onceDone = False,
      phase = WaitGroup, taken = [], yielded = [], reported = [], hist = []\<rparr>"

definition stream_done :: "('i, 'o, 'e) stream \<Rightarrow> bool" where
  "stream_done s \<longleftrightarrow> sDone s \<or> sCancelled s"

definition go_to :: "nat \<Rightarrow> ('i, 'o, 'e) splace \<Rightarrow> ('i, 'o, 'e) stream \<Rightarrow> ('i, 'o, 'e) stream" where
  "go_to i q s = s\<lparr>sworkers := (sworkers s)[i := q]\<rparr>"

text \<open>The send of an error, which gives up when the buffer is full.\<close>

definition try_send_err :: "'i \<Rightarrow> 'e perr \<Rightarrow> ('i, 'o, 'e) stream \<Rightarrow> ('i, 'o, 'e) stream" where
  "try_send_err v e s =
     (if length (errsCh s) < capacity s then s\<lparr>errsCh := errsCh s @ [e], hist := hist s @ [(v, ErrSent e)]\<rparr>
      else s\<lparr>hist := hist s @ [(v, ErrDropped e)]\<rparr>)"

definition err_once :: "('i, 'o, 'e) stream \<Rightarrow> ('i, 'o, 'e) stream" where
  "err_once s =
     (if onceDone s then s
      else s\<lparr>onceDone := True, sCancelled := (sCancelled s \<or> FailFast (config_of (spipe s)))\<rparr>)"

text \<open>Where a worker goes on after an error.\<close>

fun after_err :: "pipeline \<Rightarrow> 'e perr \<Rightarrow> ('i, 'o, 'e) splace" where
  "after_err p (MapperErr e) = (if FailFast (config_of p) then SExited else SSelecting)"
| "after_err p _ = SExited"

datatype ('i, 'o, 'e) slabel = SSeeDone nat | SSeeClosed nat | STake nat | SLimiterReturns nat bool
  | SMapperReturns nat "'o \<times> 'e option" | SSendErr nat | SErrOnce nat | SSendOut nat | SSendAbort nat
  | SDeferred | SOffer 'i | SCloseIn | SReadOut | SReadErr | SParentDone

text \<open>Where worker \<open>i\<close> is; there is no worker beyond the number configured.\<close>

definition place_at :: "nat \<Rightarrow> ('i, 'o, 'e) stream \<Rightarrow> ('i, 'o, 'e) splace" where
  "place_at i s = (if i < length (sworkers s) then sworkers s ! i else SExited)"

fun stream_step :: "('i \<Rightarrow> 'o \<times> 'e option \<Rightarrow> bool) \<Rightarrow> ('i, 'o, 'e) slabel \<Rightarrow> ('i, 'o, 'e) stream \<Rightarrow> ('i, 'o, 'e) stream option" where
  "stream_step may (SSeeDone i) s =
     (case place_at i s of SSelecting \<Rightarrow> if stream_done s then Some (go_to i SExited s) else None | _ \<Rightarrow> None)"
| "stream_step may (SSeeClosed i) s =
     (case place_at i s of SSelecting \<Rightarrow> if inClosed s \<and> inp s = [] then Some (go_to i SExited s) else None | _ \<Rightarrow> None)"
| "stream_step may (STake i) s =
     (case (place_at i s, inp s) of
        (SSelecting, v # vs) \<Rightarrow>
          Some (go_to i (if limiter (spipe s) \<noteq> None then SLimiting v else SMapping v) (s\<lparr>inp := vs, taken := taken s @ [v]\<rparr>))
      | _ \<Rightarrow> None)"
| "stream_step may (SLimiterReturns i ok) s =
     (case place_at i s of
        SLimiting v \<Rightarrow> Some (go_to i (if ok then SMapping v else SErr v LimiterErr) s)
      | _ \<Rightarrow> None)"
| "stream_step may (SMapperReturns i r) s =
     (case place_at i s of
        SMapping v \<Rightarrow>
          (if may v r then Some (go_to i (case snd r of Some e \<Rightarrow> SErr v (MapperErr e) | None \<Rightarrow> SSending v (fst r)) s) else None)
      | _ \<Rightarrow> None)"
| "stream_step may (SSendErr i) s =
     (case place_at i s of SErr v e \<Rightarrow> Some (go_to i (SOnce e) (try_send_err v e s)) | _ \<Rightarrow> None)"
| "stream_step may (SErrOnce i) s =
     (case place_at i s of SOnce e \<Rightarrow> Some (go_to i (after_err (spipe s) e) (err_once s)) | _ \<Rightarrow> None)"
| "stream_step may (SSendOut i) s =
     (case place_at i s of
        SSending v r \<Rightarrow>
          (if length (outCh s) < capacity s then
             Some (go_to i SSelecting (s\<lparr>outCh := outCh s @ [r], hist := hist s @ [(v, Sent r)]\<rparr>))
           else None)
      | _ \<Rightarrow> None)"
| "stream_step may (SSendAbort i) s =
     (case place_at i s of
        SSending v r \<Rightarrow> (if stream_done s then Some (go_to i SExited (s\<lparr>hist := hist s @ [(v, Discarded r)]\<rparr>)) else None)
      | _ \<Rightarrow> None)"
| "stream_step may SDeferred s =
     (case phase s of
        WaitGroup \<Rightarrow> if list_all (\<lambda>q. q = SExited) (sworkers s) then Some (s\<lparr>sCancelled := True, phase := CtxCancelled\<rparr>) else None
      | CtxCancelled \<Rightarrow> Some (s\<lparr>phase := ErrsClosed\<rparr>)
      | ErrsClosed \<Rightarrow> Some (s\<lparr>phase := OutClosed\<rparr>)
      | OutClosed \<Rightarrow> None)"
| "stream_step may (SOffer v) s = (if inClosed s then None else Some (s\<lparr>inp := inp s @ [v]\<rparr>))"
| "stream_step may SCloseIn s = (if inClosed s then None else Some (s\<lparr>inClosed := True\<rparr>))"
| "stream_step may SReadOut s = (case outCh s of [] \<Rightarrow> None | r # rs \<Rightarrow> Some (s\<lparr>outCh := rs, yielded := yielded s @ [r]\<rparr>))"
| "stream_step may SReadErr s = (case errsCh s of [] \<Rightarrow> None | e # es \<Rightarrow> Some (s\<lparr>errsCh := es, reported := reported s @ [e]\<rparr>))"
| "stream_step may SParentDone s = Some (s\<lparr>sDone := True\<rparr>)"

abbreviation stream_reach :: "('i \<Rightarrow> 'o \<times> 'e option \<Rightarrow> bool) \<Rightarrow> pipeline \<Rightarrow> bool \<Rightarrow> ('i, 'o, 'e) stream \<Rightarrow> bool" where
  "stream_reach may p dn \<equiv> reach ((=) (stream_start p dn)) (labelled (stream_step may))"

lemma stream_reach_run: "run (stream_step may) ls (stream_start p dn) = Some s \<Longrightarrow> stream_reach may p dn s"
  by (rule reach_run) (auto intro: reach_start)

section \<open>The invariant\<close>

fun sheld :: "('i, 'o, 'e) splace \<Rightarrow> 'i list" where
  "sheld (SLimiting v) = [v]"
| "sheld (SMapping v) = [v]"
| "sheld (SErr v e) = [v]"
| "sheld (SSending v r) = [v]"
| "sheld _ = []"

definition in_work :: "('i, 'o, 'e) splace list \<Rightarrow> 'i multiset" where
  "in_work ws = mset (concat (map sheld ws))"

fun sent_of :: "('o, 'e) fate \<Rightarrow> 'o list" where
  "sent_of (Sent r) = [r]"
| "sent_of _ = []"

fun err_sent_of :: "('o, 'e) fate \<Rightarrow> 'e perr list" where
  "err_sent_of (ErrSent e) = [e]"
| "err_sent_of _ = []"

fun is_err :: "('o, 'e) fate \<Rightarrow> bool" where
  "is_err (ErrSent e) \<longleftrightarrow> True"
| "is_err (ErrDropped e) \<longleftrightarrow> True"
| "is_err _ \<longleftrightarrow> False"

fun is_discarded :: "('o, 'e) fate \<Rightarrow> bool" where
  "is_discarded (Discarded r) \<longleftrightarrow> True"
| "is_discarded _ \<longleftrightarrow> False"

definition sent :: "('i \<times> ('o, 'e) fate) list \<Rightarrow> 'o list" where
  "sent h = concat (map (\<lambda>x. sent_of (snd x)) h)"

definition err_sent :: "('i \<times> ('o, 'e) fate) list \<Rightarrow> 'e perr list" where
  "err_sent h = concat (map (\<lambda>x. err_sent_of (snd x)) h)"

definition err_fates :: "('i \<times> ('o, 'e) fate) list \<Rightarrow> ('o, 'e) fate list" where
  "err_fates h = filter is_err (map snd h)"

text \<open>Why the fate of an item is what it is.\<close>

fun err_ok :: "('i \<Rightarrow> 'o \<times> 'e option \<Rightarrow> bool) \<Rightarrow> pipeline \<Rightarrow> 'i \<Rightarrow> 'e perr \<Rightarrow> bool" where
  "err_ok may p v (MapperErr e) \<longleftrightarrow> (\<exists>r. may v (r, Some e))"
| "err_ok may p v LimiterErr \<longleftrightarrow> limiter p \<noteq> None"
| "err_ok may p v ContextErr \<longleftrightarrow> False"

fun fate_ok :: "('i \<Rightarrow> 'o \<times> 'e option \<Rightarrow> bool) \<Rightarrow> pipeline \<Rightarrow> 'i \<Rightarrow> ('o, 'e) fate \<Rightarrow> bool" where
  "fate_ok may p v (Sent r) \<longleftrightarrow> may v (r, None)"
| "fate_ok may p v (Discarded r) \<longleftrightarrow> may v (r, None)"
| "fate_ok may p v (ErrSent e) \<longleftrightarrow> err_ok may p v e"
| "fate_ok may p v (ErrDropped e) \<longleftrightarrow> err_ok may p v e"

fun splace_ok :: "('i \<Rightarrow> 'o \<times> 'e option \<Rightarrow> bool) \<Rightarrow> pipeline \<Rightarrow> ('i \<times> ('o, 'e) fate) list \<Rightarrow> ('i, 'o, 'e) splace \<Rightarrow> bool" where
  "splace_ok may p h (SLimiting v) \<longleftrightarrow> limiter p \<noteq> None"
| "splace_ok may p h (SErr v e) \<longleftrightarrow> err_ok may p v e"
| "splace_ok may p h (SSending v r) \<longleftrightarrow> may v (r, None)"
| "splace_ok may p h (SOnce e) \<longleftrightarrow> err_fates h \<noteq> [] \<and> (e = LimiterErr \<longrightarrow> limiter p \<noteq> None) \<and> e \<noteq> ContextErr"
| "splace_ok may p h _ \<longleftrightarrow> True"

text \<open>The stream may end early: the caller's context is done, or a call failed under fail-fast.\<close>

definition cut :: "pipeline \<Rightarrow> ('i, 'o, 'e) stream \<Rightarrow> bool" where
  "cut p s \<longleftrightarrow> sDone s \<or> FailFast (config_of p) \<and> err_fates (hist s) \<noteq> []"

definition hist_inv :: "('i \<Rightarrow> 'o \<times> 'e option \<Rightarrow> bool) \<Rightarrow> pipeline \<Rightarrow> ('i, 'o, 'e) stream \<Rightarrow> bool" where
  "hist_inv may p s \<longleftrightarrow> mset (taken s) = image_mset fst (mset (hist s)) + in_work (sworkers s) \<and>
     yielded s @ outCh s = sent (hist s) \<and> reported s @ errsCh s = err_sent (hist s) \<and>
     length (outCh s) \<le> capacity s \<and> length (errsCh s) \<le> capacity s \<and>
     list_all (\<lambda>(v, f). fate_ok may p v f \<and> (is_discarded f \<longrightarrow> cut p s)) (hist s) \<and>
     (case err_fates (hist s) of [] \<Rightarrow> True | f # _ \<Rightarrow> err_sent_of f \<noteq> [])"

definition control_inv :: "('i \<Rightarrow> 'o \<times> 'e option \<Rightarrow> bool) \<Rightarrow> pipeline \<Rightarrow> ('i, 'o, 'e) stream \<Rightarrow> bool" where
  "control_inv may p s \<longleftrightarrow> list_all (splace_ok may p (hist s)) (sworkers s) \<and> length (sworkers s) = capacity s \<and>
     (SExited \<in> set (sworkers s) \<longrightarrow> cut p s \<or> inClosed s \<and> inp s = [] \<or> limiter p \<noteq> None) \<and>
     (if phase s = WaitGroup then (sCancelled s \<longleftrightarrow> onceDone s \<and> FailFast (config_of p))
      else list_all (\<lambda>q. q = SExited) (sworkers s)) \<and>
     (onceDone s \<longrightarrow> err_fates (hist s) \<noteq> [])"

definition stream_inv :: "('i \<Rightarrow> 'o \<times> 'e option \<Rightarrow> bool) \<Rightarrow> pipeline \<Rightarrow> ('i, 'o, 'e) stream \<Rightarrow> bool" where
  "stream_inv may p s \<longleftrightarrow> spipe s = p \<and> 0 < capacity s \<and> hist_inv may p s \<and> control_inv may p s"

lemma hist_simps [simp]:
  "sent [] = []" "sent (h @ [x]) = sent h @ sent_of (snd x)"
  "err_sent [] = []" "err_sent (h @ [x]) = err_sent h @ err_sent_of (snd x)"
  "err_fates [] = []" "err_fates (h @ [x]) = err_fates h @ (if is_err (snd x) then [snd x] else [])"
  by (simp_all add: sent_def err_sent_def err_fates_def)

lemma no_err_no_sent: "err_fates h = [] \<Longrightarrow> err_sent h = []"
  unfolding err_fates_def err_sent_def
proof (induction h)
  case (Cons x h)
  then show ?case by (cases "snd x") auto
qed simp

lemma in_work_update:
  "i < length ws \<Longrightarrow> in_work (ws[i := q]) + mset (sheld (ws ! i)) = in_work ws + mset (sheld q)"
proof (induction ws arbitrary: i)
  case (Cons w ws)
  then show ?case
  proof (cases i)
    case (Suc j)
    with Cons.prems have "in_work (ws[j := q]) + mset (sheld (ws ! j)) = in_work ws + mset (sheld q)"
      by (intro Cons.IH) simp
    with Suc show ?thesis by (simp add: in_work_def add.assoc)
  qed (simp add: in_work_def ac_simps)
qed simp

lemma in_work_idle: "list_all (\<lambda>q. q = SExited) ws \<Longrightarrow> in_work ws = {#}"
  by (induction ws) (auto simp: in_work_def)

lemma splace_ok_hist: "splace_ok may p h q \<Longrightarrow> splace_ok may p (h @ [x]) q"
  by (cases q) auto

lemma list_all_imp: "list_all P xs \<Longrightarrow> (\<And>x. P x \<Longrightarrow> Q x) \<Longrightarrow> list_all Q xs"
  by (simp add: list_all_iff)

lemma live_phase:
  assumes "control_inv may p s" and "i < length (sworkers s)" and "sworkers s ! i \<noteq> SExited"
  shows "phase s = WaitGroup"
proof (rule ccontr)
  assume "phase s \<noteq> WaitGroup"
  with assms(1) have "list_all (\<lambda>q. q = SExited) (sworkers s)" by (simp add: control_inv_def)
  from list_all_at [OF this assms(2)] assms(3) show False by simp
qed

lemma done_cut: "control_inv may p s \<Longrightarrow> phase s = WaitGroup \<Longrightarrow> stream_done s \<Longrightarrow> cut p s"
  by (auto simp: control_inv_def stream_done_def cut_def)

lemma go_to_frame [simp]:
  "spipe (go_to i q s) = spipe s" "capacity (go_to i q s) = capacity s" "hist (go_to i q s) = hist s" "cut p (go_to i q s) = cut p s"
  "inClosed (go_to i q s) = inClosed s" "inp (go_to i q s) = inp s" "phase (go_to i q s) = phase s" "taken (go_to i q s) = taken s"
  "sCancelled (go_to i q s) = sCancelled s" "onceDone (go_to i q s) = onceDone s" "sworkers (go_to i q s) = (sworkers s)[i := q]"
  "yielded (go_to i q s) = yielded s" "reported (go_to i q s) = reported s" "outCh (go_to i q s) = outCh s" "errsCh (go_to i q s) = errsCh s"
  by (simp_all add: go_to_def capacity_def cut_def)

lemma exited_update: "SExited \<in> set (ws[i := q]) \<Longrightarrow> SExited \<in> set ws \<or> q = SExited"
  using set_update_subset_insert [of ws i q] by auto

text \<open>A worker that is not over moves to a place that suits the state.\<close>

lemma control_go:
  assumes "control_inv may p s" and "i < length (sworkers s)" and "sworkers s ! i \<noteq> SExited" and "splace_ok may p (hist s) q"
    and "q = SExited \<Longrightarrow> cut p s \<or> inClosed s \<and> inp s = [] \<or> limiter p \<noteq> None"
  shows "control_inv may p (go_to i q s)"
  using assms live_phase [OF assms(1-3)] unfolding control_inv_def
  by (auto simp: list_all_update dest: exited_update)

lemma hist_go:
  assumes "hist_inv may p s" and "i < length (sworkers s)" and "sheld q = sheld (sworkers s ! i)"
  shows "hist_inv may p (go_to i q s)"
  using assms in_work_update [OF assms(2), of q] by (simp add: hist_inv_def)

text \<open>An item of a worker gets its fate.\<close>

definition record_fate :: "'i \<Rightarrow> ('o, 'e) fate \<Rightarrow> ('i, 'o, 'e) stream \<Rightarrow> ('i, 'o, 'e) stream" where
  "record_fate v f s = s\<lparr>hist := hist s @ [(v, f)], outCh := outCh s @ sent_of f, errsCh := errsCh s @ err_sent_of f\<rparr>"

lemma record_fate_frame [simp]:
  "spipe (record_fate v f s) = spipe s" "capacity (record_fate v f s) = capacity s" "hist (record_fate v f s) = hist s @ [(v, f)]"
  "inClosed (record_fate v f s) = inClosed s" "inp (record_fate v f s) = inp s" "phase (record_fate v f s) = phase s"
  "taken (record_fate v f s) = taken s" "sCancelled (record_fate v f s) = sCancelled s" "onceDone (record_fate v f s) = onceDone s"
  "sworkers (record_fate v f s) = sworkers s" "yielded (record_fate v f s) = yielded s" "reported (record_fate v f s) = reported s"
  "outCh (record_fate v f s) = outCh s @ sent_of f" "errsCh (record_fate v f s) = errsCh s @ err_sent_of f"
  by (simp_all add: record_fate_def capacity_def)

lemma cut_record: "cut p s \<Longrightarrow> cut p (record_fate v f s)"
  by (auto simp: cut_def record_fate_def)

lemma hist_fate:
  assumes "hist_inv may p s" and i: "i < length (sworkers s)" "sheld (sworkers s ! i) = [v]" "sheld q = []"
    and "fate_ok may p v f" and "is_discarded f \<Longrightarrow> cut p s"
    and "length (outCh s @ sent_of f) \<le> capacity s" and "length (errsCh s @ err_sent_of f) \<le> capacity s"
    and "err_fates (hist s) = [] \<Longrightarrow> is_err f \<Longrightarrow> err_sent_of f \<noteq> []"
  shows "hist_inv may p (go_to i q (record_fate v f s))"
proof -
  have "in_work (sworkers s) = add_mset v (in_work ((sworkers s)[i := q]))"
    using in_work_update [OF i(1), of q] i(2,3) by simp
  moreover have "list_all (\<lambda>(w, g). fate_ok may p w g \<and> (is_discarded g \<longrightarrow> cut p (record_fate v f s))) (hist s)"
    using assms(1) cut_record [of p s v f] unfolding hist_inv_def by (auto simp: list_all_iff)
  moreover have "yielded s @ outCh s @ sent_of f = sent (hist s) @ sent_of f"
    "reported s @ errsCh s @ err_sent_of f = err_sent (hist s) @ err_sent_of f"
    using assms(1) unfolding hist_inv_def by (metis append.assoc)+
  ultimately show ?thesis
    using assms cut_record [of p s v f] unfolding hist_inv_def by (auto split: list.splits)
qed

lemma control_fate:
  assumes C: "control_inv may p s" and i: "i < length (sworkers s)" "sworkers s ! i \<noteq> SExited"
    and q: "splace_ok may p (hist s @ [(v, f)]) q" "q = SExited \<Longrightarrow> cut p s"
  shows "control_inv may p (go_to i q (record_fate v f s))"
proof -
  have "control_inv may p (record_fate v f s)"
    using C cut_record [of p s v f] unfolding control_inv_def
    by (auto elim!: list_all_imp intro: splace_ok_hist)
  then show ?thesis by (rule control_go) (use i q cut_record [of p s v f] in auto)
qed

lemma stream_fate:
  assumes "stream_inv may p s" and "i < length (sworkers s)" and "sheld (sworkers s ! i) = [v]" and "sheld q = []"
    and "fate_ok may p v f" and "is_discarded f \<Longrightarrow> cut p s"
    and "length (outCh s @ sent_of f) \<le> capacity s" and "length (errsCh s @ err_sent_of f) \<le> capacity s"
    and "err_fates (hist s) = [] \<Longrightarrow> is_err f \<Longrightarrow> err_sent_of f \<noteq> []"
    and "splace_ok may p (hist s @ [(v, f)]) q" and "q = SExited \<Longrightarrow> cut p s"
  shows "stream_inv may p (go_to i q (record_fate v f s))"
proof -
  have "sworkers s ! i \<noteq> SExited" using assms(3) by auto
  with assms hist_fate [of may p s i v q f] control_fate [of may p s i v f q] show ?thesis
    by (simp add: stream_inv_def)
qed

lemma stream_go:
  assumes "stream_inv may p s" and "i < length (sworkers s)" and "sworkers s ! i \<noteq> SExited"
    and "sheld q = sheld (sworkers s ! i)" and "splace_ok may p (hist s) q"
    and "q = SExited \<Longrightarrow> cut p s \<or> inClosed s \<and> inp s = [] \<or> limiter p \<noteq> None"
  shows "stream_inv may p (go_to i q s)"
  using assms hist_go [of may p s i q] control_go [of may p s i q] by (simp add: stream_inv_def)

text \<open>An item is taken.\<close>

lemma stream_take:
  assumes I: "stream_inv may p s" and i: "i < length (sworkers s)" "sworkers s ! i = SSelecting" and v: "inp s = v # vs"
    and q: "sheld q = [v]" "splace_ok may p (hist s) q"
  shows "stream_inv may p (go_to i q (s\<lparr>inp := vs, taken := taken s @ [v]\<rparr>))"
proof -
  let ?s = "s\<lparr>inp := vs, taken := taken s @ [v]\<rparr>"
  have fr: "capacity ?s = capacity s" "cut p ?s = cut p s" by (simp_all add: capacity_def cut_def)
  have w: "in_work ((sworkers s)[i := q]) = add_mset v (in_work (sworkers s))"
    using in_work_update [OF i(1), of q] i(2) q(1) by simp
  have "hist_inv may p (go_to i q ?s)" using I w fr by (simp add: stream_inv_def hist_inv_def)
  moreover have "control_inv may p ?s" using I v unfolding stream_inv_def control_inv_def by (auto simp: fr)
  then have "control_inv may p (go_to i q ?s)" by (rule control_go) (use i q in auto)
  ultimately show ?thesis using I fr by (simp add: stream_inv_def)
qed

text \<open>\<open>errOnce\<close>: the context is cancelled by the first error under fail-fast.\<close>

lemma stream_once:
  assumes I: "stream_inv may p s" and i: "i < length (sworkers s)" "sworkers s ! i = SOnce e"
  shows "stream_inv may p (go_to i (after_err p e) (err_once s))"
proof -
  have H: "hist_inv may p s" and C: "control_inv may p s" and p: "spipe s = p" using I by (simp_all add: stream_inv_def)
  have ok: "splace_ok may p (hist s) (SOnce e)" using C list_all_at [of _ "sworkers s" i] i unfolding control_inv_def by metis
  have fr: "capacity (err_once s) = capacity s" "cut p (err_once s) = cut p s" "hist (err_once s) = hist s" "spipe (err_once s) = spipe s"
    "sworkers (err_once s) = sworkers s" "inClosed (err_once s) = inClosed s" "inp (err_once s) = inp s"
    by (simp_all add: err_once_def capacity_def cut_def)
  have "hist_inv may p (err_once s)" using H unfolding hist_inv_def by (simp add: err_once_def capacity_def cut_def)
  then have "hist_inv may p (go_to i (after_err p e) (err_once s))"
    by (rule hist_go) (use i fr in \<open>cases e; simp\<close>)+
  moreover have "control_inv may p (err_once s)"
    using C ok p live_phase [OF C i(1)] i(2) by (auto simp: control_inv_def err_once_def capacity_def cut_def)
  then have "control_inv may p (go_to i (after_err p e) (err_once s))"
    by (rule control_go) (use i fr ok in \<open>cases e; auto simp: cut_def split: if_splits\<close>)+
  ultimately show ?thesis using I fr by (simp add: stream_inv_def)
qed

lemma place_atD: "place_at i s = q \<Longrightarrow> q \<noteq> SExited \<Longrightarrow> i < length (sworkers s) \<and> sworkers s ! i = q"
  by (auto simp: place_at_def split: if_splits)

lemma stream_inv_env:
  assumes "stream_inv may p s" and "cut p s \<Longrightarrow> cut p s'" and "inClosed s \<Longrightarrow> inClosed s' \<and> inp s' = inp s"
    and "spipe s' = spipe s" "sworkers s' = sworkers s" "hist s' = hist s" "phase s' = phase s" "sCancelled s' = sCancelled s"
    "onceDone s' = onceDone s" "taken s' = taken s" "yielded s' @ outCh s' = yielded s @ outCh s"
    "reported s' @ errsCh s' = reported s @ errsCh s" "length (outCh s') \<le> length (outCh s)" "length (errsCh s') \<le> length (errsCh s)"
  shows "stream_inv may p s'"
proof -
  have cap: "capacity s' = capacity s" using assms(4) by (simp add: capacity_def)
  have "list_all (\<lambda>(v, f). fate_ok may p v f \<and> (is_discarded f \<longrightarrow> cut p s')) (hist s)"
    using assms(1,2) unfolding stream_inv_def hist_inv_def by (auto simp: list_all_iff)
  then have "hist_inv may p s'" using assms(1,4-) cap unfolding stream_inv_def hist_inv_def by auto
  moreover have "control_inv may p s'" using assms(1-3,5-9) cap unfolding stream_inv_def control_inv_def by auto
  ultimately show ?thesis using assms(1,4) cap by (simp add: stream_inv_def)
qed

text \<open>The attempt to send an error, and the deferred calls of the closing goroutine.\<close>

lemma stream_send_err:
  fixes s :: "('i, 'o, 'e) stream"
  assumes I: "stream_inv may p s" and w: "i < length (sworkers s)" "sworkers s ! i = SErr v e"
  shows "stream_inv may p (go_to i (SOnce e) (try_send_err v e s))"
proof -
  have H: "hist_inv may p s" and cap: "0 < capacity s" and C: "control_inv may p s"
    using I by (simp_all add: stream_inv_def)
  have "splace_ok may p (hist s) (sworkers s ! i)"
    using C list_all_at [of _ "sworkers s" i] w(1) unfolding control_inv_def by blast
  with w(2) have e: "err_ok may p v e" by simp
  then have e': "(e = LimiterErr \<longrightarrow> limiter p \<noteq> None) \<and> e \<noteq> ContextErr" by (cases e) auto
  have c: "length (errsCh s) \<le> capacity s" "length (outCh s) \<le> capacity s" using H by (simp_all add: hist_inv_def)
  have none: "errsCh s = []" if "err_fates (hist s) = []" using H no_err_no_sent [OF that] by (simp add: hist_inv_def)
  define f :: "('o, 'e) fate" where "f = (if length (errsCh s) < capacity s then ErrSent e else ErrDropped e)"
  have f: "try_send_err v e s = record_fate v f s" by (simp add: f_def try_send_err_def record_fate_def)
  show ?thesis unfolding f
    by (rule stream_fate [OF I w(1)]) (use w e e' c none cap in \<open>auto simp: f_def split: if_splits\<close>)
qed

lemma stream_deferred:
  assumes I: "stream_inv may p s" and "list_all (\<lambda>q. q = SExited) (sworkers s)" and "ph \<noteq> WaitGroup"
  shows "stream_inv may p (s\<lparr>sCancelled := b, phase := ph\<rparr>)"
proof -
  have "hist_inv may p (s\<lparr>sCancelled := b, phase := ph\<rparr>) = hist_inv may p s"
    by (simp add: hist_inv_def capacity_def cut_def)
  with assms show ?thesis
    unfolding stream_inv_def control_inv_def by (auto simp: capacity_def cut_def)
qed

lemma stream_inv_step:
  assumes I: "stream_inv may p s" and st: "stream_step may l s = Some s'"
  shows "stream_inv may p s'"
proof -
  have H: "hist_inv may p s" and C: "control_inv may p s" and p: "spipe s = p" and cap: "0 < capacity s"
    using I by (simp_all add: stream_inv_def)
  have ok: "splace_ok may p (hist s) (sworkers s ! i)" if "i < length (sworkers s)" for i
    using C list_all_at [of _ "sworkers s" i] that unfolding control_inv_def by blast
  have cutd: "cut p s" if "i < length (sworkers s)" "sworkers s ! i \<noteq> SExited" "stream_done s" for i
    using done_cut [OF C live_phase [OF C that(1,2)] that(3)] .
  show ?thesis
  proof (cases l)
    case (SSeeDone i)
    with st have q: "place_at i s = SSelecting" "stream_done s" "s' = go_to i SExited s" by (auto split: splace.splits if_splits)
    with place_atD [OF q(1)] cutd [of i] show ?thesis by (auto intro!: stream_go [OF I])
  next
    case (SSeeClosed i)
    with st have q: "place_at i s = SSelecting" "inClosed s" "inp s = []" "s' = go_to i SExited s" by (auto split: splace.splits if_splits)
    with place_atD [OF q(1)] show ?thesis by (auto intro!: stream_go [OF I])
  next
    case (STake i)
    with st obtain v vs where q: "place_at i s = SSelecting" "inp s = v # vs"
      "s' = go_to i (if limiter p \<noteq> None then SLimiting v else SMapping v) (s\<lparr>inp := vs, taken := taken s @ [v]\<rparr>)"
      using p by (auto split: splace.splits list.splits)
    show ?thesis unfolding q(3) using place_atD [OF q(1)] by (intro stream_take [OF I _ _ q(2)]) auto
  next
    case (SLimiterReturns i r)
    with st obtain v where q: "place_at i s = SLimiting v" "s' = go_to i (if r then SMapping v else SErr v LimiterErr) s"
      by (auto split: splace.splits)
    have w: "i < length (sworkers s)" "sworkers s ! i = SLimiting v" using place_atD [OF q(1)] by auto
    with ok [OF w(1)] show ?thesis unfolding q(2) by (intro stream_go [OF I]) (auto split: if_splits)
  next
    case (SMapperReturns i r)
    with st obtain v where q: "place_at i s = SMapping v" "may v r"
      "s' = go_to i (case snd r of Some e \<Rightarrow> SErr v (MapperErr e) | None \<Rightarrow> SSending v (fst r)) s"
      by (auto split: splace.splits if_splits)
    have w: "i < length (sworkers s)" "sworkers s ! i = SMapping v" using place_atD [OF q(1)] by auto
    with q(2) show ?thesis unfolding q(3) by (cases r) (intro stream_go [OF I], auto split: option.splits)
  next
    case (SSendErr i)
    with st obtain v e where q: "place_at i s = SErr v e" "s' = go_to i (SOnce e) (try_send_err v e s)" by (auto split: splace.splits)
    show ?thesis unfolding q(2) using place_atD [OF q(1)] by (intro stream_send_err [OF I]) auto
  next
    case (SErrOnce i)
    with st p obtain e where q: "place_at i s = SOnce e" "s' = go_to i (after_err p e) (err_once s)" by (auto split: splace.splits)
    show ?thesis unfolding q(2) using place_atD [OF q(1)] by (intro stream_once [OF I]) auto
  next
    case (SSendOut i)
    with st obtain v r where q: "place_at i s = SSending v r" "length (outCh s) < capacity s"
      "s' = go_to i SSelecting (s\<lparr>outCh := outCh s @ [r], hist := hist s @ [(v, Sent r)]\<rparr>)" by (auto split: splace.splits if_splits)
    have w: "i < length (sworkers s)" "sworkers s ! i = SSending v r" using place_atD [OF q(1)] by auto
    have f: "s\<lparr>outCh := outCh s @ [r], hist := hist s @ [(v, Sent r)]\<rparr> = record_fate v (Sent r) s" by (simp add: record_fate_def)
    show ?thesis unfolding q(3) f
      by (rule stream_fate [OF I w(1)]) (use w ok [OF w(1)] q(2) H in \<open>auto simp: hist_inv_def\<close>)
  next
    case (SSendAbort i)
    with st obtain v r where q: "place_at i s = SSending v r" "stream_done s"
      "s' = go_to i SExited (s\<lparr>hist := hist s @ [(v, Discarded r)]\<rparr>)" by (auto split: splace.splits if_splits)
    have w: "i < length (sworkers s)" "sworkers s ! i = SSending v r" using place_atD [OF q(1)] by auto
    have f: "s\<lparr>hist := hist s @ [(v, Discarded r)]\<rparr> = record_fate v (Discarded r) s" by (simp add: record_fate_def)
    have "cut p s" using cutd [OF w(1)] w(2) q(2) by simp
    then show ?thesis unfolding q(3) f
      by (intro stream_fate [OF I w(1)]) (use w ok [OF w(1)] H in \<open>auto simp: hist_inv_def\<close>)
  next
    case SDeferred
    have "s' = s\<lparr>sCancelled := sCancelled s', phase := phase s'\<rparr> \<and> phase s' \<noteq> WaitGroup"
      using SDeferred st by (cases s) (auto split: phase.splits if_splits)
    moreover have "list_all (\<lambda>q. q = SExited) (sworkers s)"
      using SDeferred st C by (auto simp: control_inv_def split: phase.splits if_splits)
    ultimately show ?thesis using stream_deferred [OF I] by metis
  next
    case (SOffer v)
    with st have "\<not> inClosed s" "s' = s\<lparr>inp := inp s @ [v]\<rparr>" by (auto split: if_splits)
    then show ?thesis by (intro stream_inv_env [OF I]) (auto simp: cut_def)
  next
    case SCloseIn
    with st have "\<not> inClosed s" "s' = s\<lparr>inClosed := True\<rparr>" by (auto split: if_splits)
    then show ?thesis by (intro stream_inv_env [OF I]) (auto simp: cut_def)
  next
    case SReadOut
    with st show ?thesis by (intro stream_inv_env [OF I]) (auto simp: cut_def split: list.splits)
  next
    case SReadErr
    with st show ?thesis by (intro stream_inv_env [OF I]) (auto simp: cut_def split: list.splits)
  next
    case SParentDone
    with st show ?thesis by (intro stream_inv_env [OF I]) (auto simp: cut_def)
  qed
qed

lemma stream_inv_start: "stream_inv may (newPipeline cfg) (stream_start (newPipeline cfg) dn)"
proof -
  have "in_work (replicate n SSelecting) = {#}" "list_all (splace_ok may (newPipeline cfg) []) (replicate n SSelecting)" for n
    by (induction n) (simp_all add: in_work_def)
  moreover have "0 < Workers (config_of (newPipeline cfg))" using newPipeline_workers [of cfg] by linarith
  ultimately show ?thesis by (simp add: stream_inv_def hist_inv_def control_inv_def stream_start_def capacity_def)
qed

interpretation stream: inductive_invariant "(=) (stream_start (newPipeline cfg) dn)" "labelled (stream_step may)"
    "stream_inv may (newPipeline cfg)" for cfg dn and may :: "'i \<Rightarrow> 'o \<times> 'e option \<Rightarrow> bool"
proof
  show "stream_inv may (newPipeline cfg) s" if "stream_start (newPipeline cfg) dn = s" for s :: "('i, 'o, 'e) stream"
    using that stream_inv_start by blast
  show "stream_inv may (newPipeline cfg) t" if "stream_inv may (newPipeline cfg) s" and "labelled (stream_step may) s t"
    for s t :: "('i, 'o, 'e) stream"
    using that stream_inv_step unfolding labelled_def by blast
qed

lemma stream_reach_inv: "stream_reach may (newPipeline cfg) dn s \<Longrightarrow> stream_inv may (newPipeline cfg) s"
  by (rule stream.inv_reachable)

section \<open>Properties\<close>

text \<open>
  every item taken from the input is with one worker or has one fate, which the mapper or the
  limiter justifies; \<open>out\<close> carries the results in the order in which they were sent, and nothing else; so does
  \<open>errs\<close> for the errors that found room, and when any call failed at least the first error did.
\<close>

theorem stream_accounts:
  assumes "stream_reach may (newPipeline cfg) dn s"
  shows "mset (taken s) = image_mset fst (mset (hist s)) + in_work (sworkers s) \<and>
    yielded s @ outCh s = sent (hist s) \<and> reported s @ errsCh s = err_sent (hist s) \<and>
    list_all (\<lambda>(v, f). fate_ok may (newPipeline cfg) v f) (hist s) \<and>
    (list_ex (\<lambda>(v, f). is_err f) (hist s) \<longrightarrow> reported s @ errsCh s \<noteq> [])"
proof -
  have H: "hist_inv may (newPipeline cfg) s" using stream_reach_inv [OF assms] by (simp add: stream_inv_def)
  have "reported s @ errsCh s \<noteq> []" if "list_ex (\<lambda>(v, f). is_err f) (hist s)"
  proof -
    have "err_fates (hist s) \<noteq> []" using that by (fastforce simp: err_fates_def list_ex_iff filter_empty_conv)
    then obtain f fs where f: "err_fates (hist s) = f # fs" by (cases "err_fates (hist s)") auto
    then have "f \<in> set (err_fates (hist s))" by simp
    then have "f \<in> snd ` set (hist s)" by (auto simp: err_fates_def)
    moreover have "err_sent_of f \<noteq> []" using H f by (simp add: hist_inv_def)
    ultimately have "err_sent (hist s) \<noteq> []" by (auto simp: err_sent_def)
    then show ?thesis using H by (simp add: hist_inv_def)
  qed
  then show ?thesis using H by (auto simp: hist_inv_def list_all_iff)
qed

text \<open>
  once \<open>wg.Wait\<close> has returned, before any channel is closed, every worker is over and every item
  taken has its fate: nothing is sent on a closed channel and no result is under way.
\<close>

theorem stream_closes:
  assumes "stream_reach may (newPipeline cfg) dn s" and "phase s \<noteq> WaitGroup"
  shows "place_at i s = SExited \<and> mset (taken s) = image_mset fst (mset (hist s)) \<and>
    stream_step may (SSendOut i) s = None \<and> stream_step may (SSendErr i) s = None"
proof -
  have I: "stream_inv may (newPipeline cfg) s" using stream_reach_inv [OF assms(1)] .
  then have e: "list_all (\<lambda>q. q = SExited) (sworkers s)" using assms(2) by (simp add: stream_inv_def control_inv_def)
  have "in_work (sworkers s) = {#}" using e by (rule in_work_idle)
  moreover have "place_at i s = SExited" using list_all_at [OF e] by (auto simp: place_at_def)
  ultimately show ?thesis using I by (simp add: stream_inv_def hist_inv_def)
qed

text \<open>The outputs of the calls that do not fail.\<close>

definition ok_outputs :: "('i \<Rightarrow> 'o \<times> 'e option) \<Rightarrow> 'i list \<Rightarrow> 'o list" where
  "ok_outputs f vs = map (\<lambda>v. fst (f v)) (filter (\<lambda>v. snd (f v) = None) vs)"

lemma sequential_outputs: "fst (sequential f vs) = ok_outputs f vs"
  by (induction vs) (auto simp: ok_outputs_def split: prod.splits option.splits)

lemma ok_outputs_mset: "mset vs = mset ws \<Longrightarrow> mset (ok_outputs f vs) = mset (ok_outputs f ws)"
  by (simp add: ok_outputs_def)

lemma err_ok_fails: "err_ok (\<lambda>v r. r = f v) p v e \<Longrightarrow> limiter p = None \<Longrightarrow> snd (f v) \<noteq> None"
  by (cases e) (auto, metis option.distinct(1) snd_conv)

lemma sent_ok_outputs:
  assumes "list_all (\<lambda>(v, g). fate_ok (\<lambda>v r. r = f v) p v g \<and> \<not> is_discarded g) h" and "limiter p = None"
  shows "sent h = ok_outputs f (map fst h)"
  using assms(1)
proof (induction h)
  case (Cons x h)
  obtain v g where x: "x = (v, g)" by fastforce
  have "sent_of g = (if snd (f v) = None then [fst (f v)] else [])"
  proof (cases g)
    case (Sent r)
    with Cons.prems x have "f v = (r, None)" by auto
    with Sent show ?thesis by simp
  next
    case (ErrSent e)
    with Cons.prems x have "err_ok (\<lambda>v r. r = f v) p v e" by simp
    then have "snd (f v) \<noteq> None" by (rule err_ok_fails [OF _ assms(2)])
    then show ?thesis using ErrSent by simp
  next
    case (ErrDropped e)
    with Cons.prems x have "err_ok (\<lambda>v r. r = f v) p v e" by simp
    then have "snd (f v) \<noteq> None" by (rule err_ok_fails [OF _ assms(2)])
    then show ?thesis using ErrDropped by simp
  qed (use Cons.prems x in simp)
  with Cons x show ?case by (simp add: sent_def ok_outputs_def)
qed (simp add: sent_def ok_outputs_def)

text \<open>
  C36 (equivalence): without a rate limit, a stream that was not cancelled, and in which no call failed under
  fail-fast, ends only when the input is closed and empty, and it has then sent exactly the outputs of a
  sequential loop over the items, in some order.
\<close>

theorem stream_complete:
  assumes "stream_reach (\<lambda>v r. r = f v) (newPipeline cfg) dn s" and "phase s \<noteq> WaitGroup"
    and "\<not> fless (Fin 0) (RPS cfg)" and "\<not> sDone s" and "FailFast cfg \<Longrightarrow> reported s @ errsCh s = []"
  shows "inClosed s \<and> inp s = [] \<and> mset (yielded s @ outCh s) = mset (fst (sequential f (taken s)))"
proof -
  let ?p = "newPipeline cfg"
  have I: "stream_inv (\<lambda>v r. r = f v) ?p s" using stream_reach_inv [OF assms(1)] .
  have H: "hist_inv (\<lambda>v r. r = f v) ?p s" and C: "control_inv (\<lambda>v r. r = f v) ?p s" and cap: "0 < capacity s"
    using I by (simp_all add: stream_inv_def)
  have lim: "limiter ?p = None" and ff: "FailFast (config_of ?p) = FailFast cfg"
    using assms(3) by (simp_all add: newPipeline_def resolveDefaults_def Let_def)
  have "err_fates (hist s) = []" if "FailFast cfg"
  proof -
    have "\<not> list_ex (\<lambda>(v, f). is_err f) (hist s)"
      using assms(5) [OF that] stream_accounts [OF assms(1)] by blast
    then show ?thesis by (auto simp: err_fates_def list_ex_iff filter_empty_conv)
  qed
  then have nc: "\<not> cut ?p s" using assms(4) ff by (auto simp: cut_def)
  have "list_all (\<lambda>q. q = SExited) (sworkers s)" and "sworkers s \<noteq> []"
    using C assms(2) cap by (auto simp: control_inv_def)
  then have "SExited \<in> set (sworkers s)" by (cases "sworkers s") auto
  with C nc lim have "inClosed s \<and> inp s = []" by (simp add: control_inv_def)
  moreover have "sent (hist s) = ok_outputs f (map fst (hist s))"
    using H nc by (intro sent_ok_outputs [OF _ lim]) (auto simp: hist_inv_def list_all_iff)
  moreover have "mset (taken s) = mset (map fst (hist s))" using stream_closes [OF assms(1,2), of 0] by simp
  then have "mset (ok_outputs f (map fst (hist s))) = mset (ok_outputs f (taken s))" by (intro ok_outputs_mset) simp
  moreover have "yielded s @ outCh s = sent (hist s)" using H by (simp add: hist_inv_def)
  ultimately show ?thesis by (simp only: sequential_outputs)
qed

section \<open>Concrete runs\<close>

definition demo_one :: config where
  "demo_one = \<lparr>Workers = 1, RPS = Fin 0, Burst = 0, FailFast = False\<rparr>"

definition demo_call :: "(nat, nat, string) slabel list" where
  "demo_call = [STake 0, SMapperReturns 0 (0, Some ''seven''), SSendErr 0, SErrOnce 0]"

definition demo_stream :: "(nat, nat, string) slabel list" where
  "demo_stream = [SOffer 3, SOffer 7, SCloseIn, STake 0, SMapperReturns 0 (6, None), SSendOut 0] @ demo_call @
     [SSeeClosed 0, SReadOut, SDeferred, SDeferred, SDeferred]"

lemmas demo_stream_defs = demo_one_def demo_call_def demo_stream_def stream_start_def newPipeline_def resolveDefaults_def
  place_at_def go_to_def try_send_err_def err_once_def capacity_def stream_done_def demo_double_def

lemma demo_stream_ends:
  "\<exists>s. run (stream_step (\<lambda>v r. r = demo_double v)) demo_stream (stream_start (newPipeline demo_one) False) = Some s \<and>
    phase s = OutClosed \<and> yielded s @ outCh s = [6] \<and> taken s = [3, 7] \<and> \<not> sDone s"
  by (simp add: demo_stream_defs Let_def)

text \<open>
  errors get lost: two calls fail, one worker, and nobody reads \<open>errs\<close> in between: the stream ends with both
  channels closed and one error delivered.
\<close>

theorem stream_loses_errors:
  "\<exists>s. run (stream_step (\<lambda>v r. r = demo_double v))
       ([SOffer 7, SOffer 7, SCloseIn] @ demo_call @ demo_call @ [SSeeClosed 0, SDeferred, SDeferred, SDeferred])
       (stream_start (newPipeline demo_one) False) = Some s \<and>
     phase s = OutClosed \<and> taken s = [7, 7] \<and> length (snd (sequential demo_double (taken s))) = 2 \<and>
     reported s @ errsCh s = [MapperErr ''seven'']"
  by (simp add: demo_stream_defs Let_def)

theorem stream_accounts_witness:
  "\<exists>s. run (stream_step (\<lambda>v r. r = demo_double v)) demo_stream (stream_start (newPipeline demo_one) False) = Some s \<and>
     yielded s @ outCh s = sent (hist s)"
proof -
  obtain s where s: "run (stream_step (\<lambda>v r. r = demo_double v)) demo_stream (stream_start (newPipeline demo_one) False) = Some s"
    using demo_stream_ends by blast
  from stream_accounts [OF stream_reach_run [OF s]] s show ?thesis by blast
qed

theorem stream_closes_witness:
  "\<exists>s. run (stream_step (\<lambda>v r. r = demo_double v)) demo_stream (stream_start (newPipeline demo_one) False) = Some s \<and>
     place_at 0 s = SExited"
proof -
  obtain s where s: "run (stream_step (\<lambda>v r. r = demo_double v)) demo_stream (stream_start (newPipeline demo_one) False) = Some s"
    "phase s = OutClosed" using demo_stream_ends by blast
  have "phase s \<noteq> WaitGroup" using s(2) by simp
  from stream_closes [OF stream_reach_run [OF s(1)] this, of 0] s(1) show ?thesis by blast
qed

theorem stream_complete_witness:
  "\<exists>s. run (stream_step (\<lambda>v r. r = demo_double v)) demo_stream (stream_start (newPipeline demo_one) False) = Some s \<and>
     mset (yielded s @ outCh s) = mset (fst (sequential demo_double [3, 7]))"
proof -
  obtain s where s: "run (stream_step (\<lambda>v r. r = demo_double v)) demo_stream (stream_start (newPipeline demo_one) False) = Some s"
    "phase s = OutClosed" "taken s = [3, 7]" "\<not> sDone s" using demo_stream_ends by blast
  have "phase s \<noteq> WaitGroup" "\<not> fless (Fin 0) (RPS demo_one)" "\<not> FailFast demo_one" using s(2) by (simp_all add: demo_one_def)
  then have "mset (yielded s @ outCh s) = mset (fst (sequential demo_double (taken s)))"
    using stream_complete [OF stream_reach_run [OF s(1)] _ _ s(4)] by blast
  with s(1,3) show ?thesis by auto
qed

end
