(* ===== verification/Spec2Isabelle.thy ===== *)
theory Spec2Isabelle
  imports SemaphoreSpec Spinlock Lifecycle Batto Jobs JobsSpec JobsLocked KeyLock LockSpec BusReaders Kata Scheduler Pool Breaker
    LimiterSpec LimiterTypes Sekisho Generic GenericPar GenericFlight GenericLoader GenericRetry Lazy Behavior YumiStream
begin

text \<open>
  Verification of miyako, a Go library of concurrency and application building blocks. All paths below are
  relative to \<open>src/\<close>.

  The program. Every package stands by itself, but for two: \<open>jobs\<close> locks with \<open>sync/spinlock\<close>, and \<open>batto\<close> takes the
  zero value of \<open>generic\<close>. A package is a handful of structs, each with a mutex, and methods which consist of
  sections under the mutex, channel operations, and calls of functions the client supplies. What is hard is
  what happens between the sections: goroutines of several methods interleave there, contexts are
  cancelled, timers fire and client functions fail or panic.

  How it is modelled.
  \<^item> A struct is a \<open>record\<close> with the fields of the code, an enumeration a \<open>datatype\<close>. An object that several
    goroutines point to lives at an address (a \<open>nat\<close>) in a store of the state. A channel is its buffer, as a list or
    an option where its capacity is one, and whether it is closed.
  \<^item> Each section is a function on the record; each method is their composition in the order of the code, with
    every early return a branch. Errors are values: \<open>None\<close> is \<open>nil\<close>, and a panic is an \<open>outcome\<close>.
  \<^item> A system is a function \<open>..._step\<close> from a label and a state to an optional state: the label says which goroutine does
    what, the state says at which place every goroutine is, \<open>None\<close> that the step is not possible. Its relation is
    \<open>labelled ..._step\<close>, the reachable states are \<open>reach\<close> (theory Prelude). \<open>run\<close> executes a list of labels; the
    examples are such executions.
  \<^item> Client functions act on an arbitrary world, or are steps that may have any outcome. The order in
    which Go ranges over a map, the values of a clock and random draws are arguments.
  \<^item> Integers are unbounded where the code cannot reach their bounds or where a theorem says so, and have their width
    where wrapping matters: the word of the spin lock, the counter of \<open>NextID\<close> of the job manager; conversions of floats
    to durations say what happens out of range, durations saturate as \<open>time.Time.Sub\<close> does. \<open>float64\<close> is IEEE binary64 with
    rounding to nearest (theory Float64).

  Theories and code.
  \<^item> Prelude: outcomes, contexts, clocks, transition systems, counting of goroutines. Its locales \<open>inductive_invariant\<close>
    (an invariant that every step keeps holds in every reachable state), \<open>refinement\<close> (which extends it: every
    execution is one of a specification) and \<open>checked_refinement\<close> (the specification has an invariant of its own, which
    the code inherits) are interpreted by every component that is a transition system.
  \<^item> SlotGate, GateSpec, TryMutex, Locked: the contracts that several components share. \<open>slot_gate\<close> is the loop that hands
    free slots to a queue of waiters, for the semaphore and the adaptive limiter; GateSpec is the
    specification of both, a gate with one line before it, served in order. \<open>try_mutex\<close> is a lock with
    an attempt and an unlock, for the spin lock and \<open>sync.Mutex\<close>. \<open>locked_object\<close> is an object whose operations run under
    such a lock, in small steps; it gives that they are linearizable. Used by Lazy and by JobsLocked.
  \<^item> Semaphore, SemaphoreSpec (\<open>sync/semaphore\<close>): \<open>acquire_section\<close>, \<open>cancel_section\<close>, \<open>release\<close>, \<open>resize\<close>, \<open>notifyWaiters\<close>; \<open>sem_step\<close>
    with the \<open>select\<close> of \<open>Acquire\<close>. Slots accounted, no lost wake-up, the lost slot. SemaphoreSpec: it refines the gate, first come first served.
  \<^item> Spinlock (\<open>sync/spinlock\<close>), KeyLock (\<open>sync/keylock\<close>), LockSpec: the word with compare-and-swap; the map of
    reference counters whose mutexes come and go; mutual exclusion, no leak, and that both refine one
    specification of locks.
  \<^item> Lifecycle (\<open>lifecycle\<close>): \<open>sortDependencies\<close> (the depth-first sort, bounded by a fuel of one more than the number
    of services, which is proved to be enough), \<open>initAll\<close>, \<open>startAll\<close> with rollback, \<open>stopAll\<close>. The sort is sound, complete and
    its errors are real; the order of start and of stop.
  \<^item> Batto (\<open>batto\<close>): \<open>Do\<close>, \<open>wait\<close> and \<open>run\<close>, split at each \<open>Lock\<close> of the two kinds of mutexes. One worker per key,
    what each waiter finds in its channel, the two orders of locking.
  \<^item> Jobs (\<open>jobs\<close>): the manager over the locale \<open>job_store\<close> of stores, of which \<open>reliable_store\<close> is the stores that do
    not fail; the memory store is an interpretation of both. Capacity, channels, delivery, cancellation, identifiers.
    JobsSpec: the manager refines a registry of pending keys. JobsLocked: the locked part of each method, access by access
    under the spin lock, is atomic over any store.
  \<^item> Bus (\<open>bus\<close>): subscriptions, \<open>publish\<close>, \<open>Close\<close>; delivery and absence of panics until \<open>Close\<close>, and the race of \<open>Close\<close>
    with \<open>Unsubscribe\<close>. BusReaders: publications run side by side under the read lock, split at each load of a
    flag and each send (\<open>begin_publish\<close>, \<open>load_one\<close>, \<open>send_one\<close>, \<open>end_publish\<close>); each is offered once to whom it concerns.
  \<^item> Kata (\<open>kata\<close>): the state machine with its hooks, \<open>transition\<close> as one call and \<open>fsm_step\<close> as its steps, the DOT text.
  \<^item> Scheduler (\<open>scheduler\<close>): the heap (with the algorithms of \<open>container/heap\<close> written out, contract
    \<open>priority_queue\<close>), the loop with its timer and wake-up channel, \<open>Throttle\<close>, \<open>Debounce\<close>.
  \<^item> Pool (\<open>pool\<close>): workers, queue, futures; sizes, every task ends, futures are completed.
  \<^item> Float64, Breaker (\<open>sync/breaker\<close>), Limiter, LimiterTypes, LimiterSpec (\<open>sync/limiter/limiter.go\<close>), Sekisho
    (\<open>sync/limiter/sekisho.go\<close>): the circuit breaker over its sliding window, the adaptive limiter, the types of its fields and
    that it refines the gate, the limiter per key.
  \<^item> Generic, GenericPar, GenericFlight, GenericLoader, GenericRetry (\<open>generic\<close>): slices, sets (contract
    \<open>set_interface\<close>), the cache, parallel loops (contract \<open>par_output\<close>), single flight, the data loader, \<open>Retry\<close>, \<open>Backoff\<close>, \<open>Future\<close>.
  \<^item> Lazy (\<open>sync/lazy\<close>): the lazily initialised value, as functions and interleaved at every assignment.
  \<^item> Behavior (\<open>behavior\<close>): behaviors in goroutines, fail-fast, \<open>Stop\<close> in its two halves.
  \<^item> Yumi, YumiStream (\<open>yumi\<close>): the pipeline over a slice, and over a channel.

  How a property is proved. A component has an invariant \<open>..._inv\<close>; one lemma says that a step keeps it, the
  interpretation gives it for all reachable states, and the property reads it off. Properties about a single call
  follow from the equations of its function. Behaviour that contradicts the purpose of the code is stated as
  well, as an execution that shows it, beside the properties of the component.

  Assumptions, all visible in statements or definitions. A section under a mutex is one step; JobsLocked and Lazy
  prove this for their locks, the rest takes it from the memory model of Go. A fused multiply-add is not used by
  the compiler. \<open>golang.org/x/time/rate\<close> (parameters \<open>fresh\<close> and \<open>allow\<close> of Sekisho, arbitrary answers in Yumi), \<open>math.Pow\<close>, the
  random numbers, a conversion of a float without integer value (\<open>platform\<close>), and the formatting of values by \<open>fmt\<close> are
  parameters; a \<open>Store\<close> other than the memory store is the record of its operations.

  Not modelled. The package comments \<open>doc.go\<close>; the interface \<open>Logger\<close> of \<open>behavior\<close> and \<open>WithLogger\<close>, whose calls change
  nothing the package reads; the \<open>sync.Pool\<close> of task objects in \<open>scheduler\<close> and \<open>yumi\<close>, whose tasks are values (the pool of
  entries of \<open>jobs\<close> is modelled, because entries are shared); panics of client functions that the code does not
  recover, which end the process (mappers, parallel loops, batch functions).
\<close>

end
